(* ===== verification/Prelude.thy ===== *)
theory Prelude
  imports Main "HOL-Library.Finite_Map" "HOL-Library.Word" "HOL-Library.Multiset"
begin

text \<open>
  Shared vocabulary of the development: the parts of Rust's standard library the sources
  use (durations, saturating arithmetic, the iterator adaptors \<open>min_by_key\<close> and
  \<open>max_by_key\<close>, \<open>Vec::swap_remove\<close>) and the generic facts about lists and finite maps
  that the component theories rest on.

  Time. \<open>Instant\<close> and \<open>Duration\<close> are natural numbers of nanoseconds, so
  \<open>saturating_duration_since\<close> is the truncated subtraction of \<open>nat\<close>. Panics are the
  value \<open>None\<close> of an option result; the safety lemmas show they are not reached.
\<close>

named_theorems rust_simps \<open>unfolding rules for the modelled standard library\<close>
named_theorems inv_intros \<open>preservation rules of the component invariants\<close>

type_synonym instant = nat
type_synonym duration = nat
type_synonym u8 = "8 word"
type_synonym bytes = "8 word list"

definition from_secs :: "nat \<Rightarrow> duration" where
  "from_secs s = s * 1000000000"

definition as_secs :: "duration \<Rightarrow> nat" where
  "as_secs d = d div 1000000000"

definition as_millis :: "duration \<Rightarrow> nat" where
  "as_millis d = d div 1000000"

definition saturating_duration_since :: "instant \<Rightarrow> instant \<Rightarrow> duration" where
  [rust_simps]: "saturating_duration_since now earlier = now - earlier"

text \<open>The truncating cast \<open>as u64\<close> of a wider unsigned integer.\<close>

definition as_u64 :: "nat \<Rightarrow> nat" where
  "as_u64 n = n mod 2 ^ 64"

lemma as_u64_id: "n < 2 ^ 64 \<Longrightarrow> as_u64 n = n"
  by (simp add: as_u64_def)

definition u32_max :: nat where
  "u32_max = 2 ^ 32 - 1"

definition usize_max :: nat where
  "usize_max = 2 ^ 64 - 1"

definition saturating_add :: "nat \<Rightarrow> nat \<Rightarrow> nat" where
  "saturating_add a b = min usize_max (a + b)"

definition saturating_mul :: "nat \<Rightarrow> nat \<Rightarrow> nat" where
  "saturating_mul a b = min usize_max (a * b)"

definition clamp :: "nat \<Rightarrow> nat \<Rightarrow> nat \<Rightarrow> nat" where
  "clamp lo hi n = (if n < lo then lo else if hi < n then hi else n)"

definition div_ceil :: "nat \<Rightarrow> nat \<Rightarrow> nat" where
  "div_ceil a b = (a + b - 1) div b"

lemma clamp_bounds: "lo \<le> hi \<Longrightarrow> lo \<le> clamp lo hi n \<and> clamp lo hi n \<le> hi"
  by (simp add: clamp_def)

subsection \<open>Iterator adaptors\<close>

text \<open>\<open>Iterator::min_by_key\<close> keeps the first of several minima, \<open>max_by_key\<close> the last of
  several maxima.\<close>

fun min_by_key :: "('a \<Rightarrow> 'b::linorder) \<Rightarrow> 'a list \<Rightarrow> 'a option" where
  "min_by_key f [] = None"
| "min_by_key f (x # xs) =
     (case min_by_key f xs of
        None \<Rightarrow> Some x
      | Some y \<Rightarrow> if f x \<le> f y then Some x else Some y)"

fun max_by_key :: "('a \<Rightarrow> 'b::linorder) \<Rightarrow> 'a list \<Rightarrow> 'a option" where
  "max_by_key f [] = None"
| "max_by_key f (x # xs) =
     (case max_by_key f xs of
        None \<Rightarrow> Some x
      | Some y \<Rightarrow> if f x \<le> f y then Some y else Some x)"

lemma min_by_key_None [simp]: "min_by_key f xs = None \<longleftrightarrow> xs = []"
  by (cases xs) (auto split: option.splits)

lemma max_by_key_None [simp]: "max_by_key f xs = None \<longleftrightarrow> xs = []"
  by (cases xs) (auto split: option.splits)

lemma min_by_key_in: "min_by_key f xs = Some x \<Longrightarrow> x \<in> set xs"
  by (induction xs arbitrary: x) (auto split: option.splits if_splits)

lemma max_by_key_in: "max_by_key f xs = Some x \<Longrightarrow> x \<in> set xs"
  by (induction xs arbitrary: x) (auto split: option.splits if_splits)

lemma min_by_key_le: "min_by_key f xs = Some x \<Longrightarrow> y \<in> set xs \<Longrightarrow> f x \<le> f y"
  by (induction xs arbitrary: x) (auto split: option.splits if_splits dest!: min_by_key_None[THEN iffD1])

lemma max_by_key_ge: "max_by_key f xs = Some x \<Longrightarrow> y \<in> set xs \<Longrightarrow> f y \<le> f x"
  by (induction xs arbitrary: x) (auto split: option.splits if_splits dest!: max_by_key_None[THEN iffD1])

text \<open>\<open>Vec::swap_remove\<close>: the last element takes the removed one's place.\<close>

definition swap_remove :: "nat \<Rightarrow> 'a list \<Rightarrow> 'a list" where
  "swap_remove i xs = butlast (xs[i := last xs])"

lemma length_swap_remove [simp]: "length (swap_remove i xs) = length xs - 1"
  by (simp add: swap_remove_def)

lemma swap_remove_mset:
  assumes "i < length xs"
  shows "mset (swap_remove i xs) + {#xs ! i#} = mset xs"
proof (cases xs rule: rev_cases)
  case Nil
  with assms show ?thesis by simp
next
  case (snoc ys y)
  show ?thesis
  proof (cases "i < length ys")
    case True
    with snoc show ?thesis
      by (auto simp: swap_remove_def nth_append list_update_append mset_update)
  next
    case False
    with snoc assms have "i = length ys" by simp
    with snoc show ?thesis by (simp add: swap_remove_def)
  qed
qed

lemma set_swap_remove: "i < length xs \<Longrightarrow> set (swap_remove i xs) \<subseteq> set xs"
  by (metis mset_subset_eq_add_left set_mset_mono set_mset_mset swap_remove_mset)

subsection \<open>Finite maps\<close>

text \<open>\<open>HashMap::len\<close>.\<close>

abbreviation fmsize :: "('k, 'v) fmap \<Rightarrow> nat" where
  "fmsize m \<equiv> fcard (fmdom m)"

lemma fmsize_fmupd: "fmsize (fmupd k v m) = (if k |\<in>| fmdom m then fmsize m else Suc (fmsize m))"
  by (auto simp: fcard_finsert_if finsert_absorb)

lemma fmsize_fmdrop: "k |\<in>| fmdom m \<Longrightarrow> Suc (fmsize (fmdrop k m)) = fmsize m"
  by (metis fcard_Suc_fminus1 fmdom_drop)

lemma fmlookup_dom_iff_Some: "k |\<in>| fmdom m \<longleftrightarrow> (\<exists>v. fmlookup m k = Some v)"
  by (auto simp: fmlookup_dom_iff)

lemma fmsize_distinct:
  assumes "distinct ks" and "set ks = fset (fmdom m)"
  shows "length ks = fmsize m"
  using assms by (simp add: fcard.rep_eq distinct_card flip: assms(2))

text \<open>Evaluation of finite-map sizes and word masks on concrete values.\<close>

lemmas eval_simps = fcard_fempty fcard_finsert_if mask_eq_exp_minus_1

subsection \<open>Machines that may panic\<close>

text \<open>A run of steps; a step that panics ends it with \<open>None\<close>.\<close>

fun run_steps :: "('s \<Rightarrow> 'e \<Rightarrow> 's option) \<Rightarrow> 's \<Rightarrow> 'e list \<Rightarrow> 's option" where
  "run_steps exec s [] = Some s"
| "run_steps exec s (e # es) = (case exec s e of None \<Rightarrow> None | Some s' \<Rightarrow> run_steps exec s' es)"

lemma run_steps_append:
  "run_steps exec s (es @ fs) = (case run_steps exec s es of None \<Rightarrow> None | Some s' \<Rightarrow> run_steps exec s' fs)"
  by (induction es arbitrary: s) (auto split: option.splits)

text \<open>A component promises an invariant that rules out every panic, for the events its callers
  may send.\<close>

locale guarded_panic_free =
  fixes exec :: "'s \<Rightarrow> 'e \<Rightarrow> 's option" and inv :: "'s \<Rightarrow> bool" and allowed :: "'e \<Rightarrow> bool"
  assumes guarded_step: "inv s \<Longrightarrow> allowed e \<Longrightarrow> \<exists>s'. exec s e = Some s' \<and> inv s'"
begin

lemma guarded_run: "inv s \<Longrightarrow> list_all allowed es \<Longrightarrow> \<exists>s'. run_steps exec s es = Some s' \<and> inv s'"
proof (induction es arbitrary: s)
  case Nil
  then show ?case by simp
next
  case (Cons e es)
  from Cons.prems(2) have "allowed e" "list_all allowed es" by simp_all
  from guarded_step[OF Cons.prems(1) this(1)] Cons.IH[OF _ this(2)] show ?case by auto
qed

end

text \<open>The contract of a component that accepts every event.\<close>

locale panic_free =
  fixes exec :: "'s \<Rightarrow> 'e \<Rightarrow> 's option" and inv :: "'s \<Rightarrow> bool"
  assumes step_ok: "inv s \<Longrightarrow> \<exists>s'. exec s e = Some s' \<and> inv s'"

sublocale panic_free \<subseteq> guarded_panic_free exec inv "\<lambda>_. True"
  by unfold_locales (rule step_ok)

context panic_free
begin

lemma run_ok: "inv s \<Longrightarrow> \<exists>s'. run_steps exec s es = Some s' \<and> inv s'"
  by (rule guarded_run) (simp_all add: list_all_iff)

lemma run_inv: "inv s \<Longrightarrow> run_steps exec s es = Some s' \<Longrightarrow> inv s'"
  by (metis option.inject run_ok)

end

end
