(* ===== verification/Net.thy ===== *)
theory Net
  imports Prelude
begin

unbundle bit_operations_syntax

text \<open>
  IP addresses and networks. \<open>std::net::IpAddr\<close> is modelled as it is (a 32-bit or a 128-bit
  address); \<open>ipnet::IpNet\<close> comes from a third-party crate: its value is an address with a
  prefix length, and the operations the sources call are the fields of \<open>net_ops\<close>, with
  their documented behaviour as the locale \<open>ip_network\<close>. \<open>cidr\<close> is an instance.
\<close>

datatype ip_addr = V4 "32 word" | V6 "128 word"

fun is_ipv4 :: "ip_addr \<Rightarrow> bool" where
  "is_ipv4 (V4 _) = True"
| "is_ipv4 (V6 _) = False"

fun addr_bits :: "ip_addr \<Rightarrow> nat" where
  "addr_bits (V4 _) = 32"
| "addr_bits (V6 _) = 128"

text \<open>\<open>Ipv6Addr::to_ipv4_mapped\<close>: the IPv4 address of \<open>::ffff:a.b.c.d\<close>.\<close>

definition to_ipv4_mapped :: "128 word \<Rightarrow> 32 word option" where
  "to_ipv4_mapped w = (if drop_bit 32 w = 0xffff then Some (ucast w) else None)"

text \<open>IPv4-mapped IPv6 socket peers carry an IPv4 identity.\<close>

fun unmap_peer :: "ip_addr \<Rightarrow> ip_addr" where
  "unmap_peer (V6 w) = (case to_ipv4_mapped w of Some v4 \<Rightarrow> V4 v4 | None \<Rightarrow> V6 w)"
| "unmap_peer (V4 w) = V4 w"

lemma unmap_peer_idem [simp]: "unmap_peer (unmap_peer a) = unmap_peer a"
  by (cases a) (auto split: option.splits)

subsection \<open>Prefix masks\<close>

definition keep_high :: "nat \<Rightarrow> 'a::len word \<Rightarrow> 'a word" where
  "keep_high p w = w AND NOT (mask (LENGTH('a) - p))"

lemma bit_keep_high:
  "bit (keep_high p (w :: 'a::len word)) i \<longleftrightarrow> bit w i \<and> LENGTH('a) - p \<le> i"
  by (auto simp: keep_high_def bit_and_iff bit_not_iff bit_mask_iff dest: bit_imp_le_length)

lemma keep_high_keep_high [simp]: "keep_high p (keep_high q w) = keep_high (min p q) w"
  by (rule bit_eqI) (auto simp: bit_keep_high)

lemma keep_high_all [simp]: "LENGTH('a) \<le> p \<Longrightarrow> keep_high p (w :: 'a::len word) = w"
  by (rule bit_eqI) (auto simp: bit_keep_high)

lemma keep_high_zero [simp]: "keep_high 0 w = 0"
  by (rule bit_eqI) (auto simp: bit_keep_high dest: bit_imp_le_length)

fun mask_addr :: "nat \<Rightarrow> ip_addr \<Rightarrow> ip_addr" where
  "mask_addr p (V4 w) = V4 (keep_high p w)"
| "mask_addr p (V6 w) = V6 (keep_high p w)"

lemma mask_addr_mask_addr [simp]: "mask_addr p (mask_addr q a) = mask_addr (min p q) a"
  by (cases a) auto

lemma is_ipv4_mask_addr [simp]: "is_ipv4 (mask_addr p a) = is_ipv4 a"
  by (cases a) auto

lemma addr_bits_mask_addr [simp]: "addr_bits (mask_addr p a) = addr_bits a"
  by (cases a) auto

lemma mask_addr_all [simp]: "addr_bits a \<le> p \<Longrightarrow> mask_addr p a = a"
  by (cases a) auto

lemma addr_bits_family: "is_ipv4 a = is_ipv4 b \<Longrightarrow> addr_bits a = addr_bits b"
  by (cases a; cases b) auto

lemma mask_addr_family: "mask_addr p a = mask_addr p b \<Longrightarrow> is_ipv4 a = is_ipv4 b"
  by (metis is_ipv4_mask_addr)

lemma mask_addr_mono: "mask_addr q a = mask_addr q b \<Longrightarrow> p \<le> q \<Longrightarrow> mask_addr p a = mask_addr p b"
  by (metis mask_addr_mask_addr min_absorb1)

subsection \<open>The network interface\<close>

record ip_net =
  net_addr :: ip_addr
  prefix_len :: nat

record net_ops =
  net_new :: "ip_addr \<Rightarrow> nat \<Rightarrow> ip_net option"
  trunc :: "ip_net \<Rightarrow> ip_net"
  contains :: "ip_net \<Rightarrow> ip_addr \<Rightarrow> bool"

locale ip_network =
  fixes N :: net_ops
  assumes new_ok: "p \<le> addr_bits a \<Longrightarrow> net_new N a p = Some \<lparr>net_addr = a, prefix_len = p\<rparr>"
    and new_err: "addr_bits a < p \<Longrightarrow> net_new N a p = None"
    and trunc_eq: "trunc N n = \<lparr>net_addr = mask_addr (prefix_len n) (net_addr n), prefix_len = prefix_len n\<rparr>"
    and contains_iff: "contains N n a \<longleftrightarrow> mask_addr (prefix_len n) a = mask_addr (prefix_len n) (net_addr n)"
begin

lemma new_Some_iff:
  "net_new N a p = Some n \<longleftrightarrow> p \<le> addr_bits a \<and> n = \<lparr>net_addr = a, prefix_len = p\<rparr>"
  by (cases "p \<le> addr_bits a") (auto simp: new_ok new_err)

lemma trunc_fields [simp]:
  "prefix_len (trunc N n) = prefix_len n"
  "is_ipv4 (net_addr (trunc N n)) = is_ipv4 (net_addr n)"
  "net_addr (trunc N n) = mask_addr (prefix_len n) (net_addr n)"
  by (simp_all add: trunc_eq)

lemma trunc_trunc [simp]: "trunc N (trunc N n) = trunc N n"
  by (simp add: trunc_eq)

lemma contains_trunc [simp]: "contains N (trunc N n) a = contains N n a"
  by (simp add: contains_iff trunc_eq)

lemma contains_family: "contains N n a \<Longrightarrow> is_ipv4 a = is_ipv4 (net_addr n)"
  by (auto simp: contains_iff dest: mask_addr_family)

lemma contains_self [simp]: "contains N n (net_addr n)"
  by (simp add: contains_iff)

text \<open>Two networks that share an address are nested: the broader one contains the other's
  base address.\<close>

lemma common_nested:
  assumes "contains N m a" and "contains N n a"
  shows "contains N m (net_addr n) \<or> contains N n (net_addr m)"
proof (cases "prefix_len m \<le> prefix_len n")
  case True
  from assms(2) have "mask_addr (prefix_len n) a = mask_addr (prefix_len n) (net_addr n)"
    by (simp add: contains_iff)
  then have "mask_addr (prefix_len m) a = mask_addr (prefix_len m) (net_addr n)"
    by (rule mask_addr_mono) (rule True)
  with assms(1) show ?thesis by (simp add: contains_iff)
next
  case False
  from assms(1) have "mask_addr (prefix_len m) a = mask_addr (prefix_len m) (net_addr m)"
    by (simp add: contains_iff)
  then have "mask_addr (prefix_len n) a = mask_addr (prefix_len n) (net_addr m)"
    by (rule mask_addr_mono) (use False in simp)
  with assms(2) show ?thesis by (simp add: contains_iff)
qed

end

subsection \<open>An instance\<close>

definition cidr :: net_ops where
  "cidr = \<lparr>
     net_new = (\<lambda>a p. if p \<le> addr_bits a then Some \<lparr>net_addr = a, prefix_len = p\<rparr> else None),
     trunc = (\<lambda>n. \<lparr>net_addr = mask_addr (prefix_len n) (net_addr n), prefix_len = prefix_len n\<rparr>),
     contains = (\<lambda>n a. mask_addr (prefix_len n) a = mask_addr (prefix_len n) (net_addr n))\<rparr>"

lemma cidr_sel [simp]:
  "net_new cidr a p = (if p \<le> addr_bits a then Some \<lparr>net_addr = a, prefix_len = p\<rparr> else None)"
  "trunc cidr n = \<lparr>net_addr = mask_addr (prefix_len n) (net_addr n), prefix_len = prefix_len n\<rparr>"
  "contains cidr n a = (mask_addr (prefix_len n) a = mask_addr (prefix_len n) (net_addr n))"
  by (simp_all add: cidr_def)

interpretation cidr_net: ip_network cidr
  by unfold_locales auto

end
