(* ===== verification/Limits.thy ===== *)
theory Limits
  imports Net
begin

text \<open>
  Source limits (\<open>src/limits.rs\<close>): token buckets and concurrency counters keyed by the
  peer's subnet, in a table that reclaims only idle, fully refilled entries. The
  \<open>HashMap\<close> of entries is a finite map, the \<open>VecDeque\<close> of sweep candidates a list, and
  the mutex makes every operation one step on \<open>lim_state\<close>. \<open>None\<close> is a panic.
\<close>

subsection \<open>Settings\<close>

definition TOKEN :: nat where
  "TOKEN = 1000000000"

definition RECLAIM_SCAN :: nat where
  "RECLAIM_SCAN = 16"

record lim_settings =
  lim_enabled :: bool
  rate_per_sec :: nat
  burst :: nat
  max_sources :: nat
  lim_ipv4_prefix :: nat
  lim_ipv6_prefix :: nat
  lim_max_inflight :: nat
  max_connections :: nat

definition lim_settings_default :: lim_settings where
  "lim_settings_default = \<lparr>
     lim_enabled = False, rate_per_sec = 100, burst = 200, max_sources = 4096,
     lim_ipv4_prefix = 32, lim_ipv6_prefix = 64, lim_max_inflight = 32, max_connections = 8\<rparr>"

fun ensure_all :: "(string \<times> bool) list \<Rightarrow> string + unit" where
  "ensure_all [] = Inr ()"
| "ensure_all ((msg, ok) # rest) = (if ok then ensure_all rest else Inl msg)"

definition lim_validate :: "lim_settings \<Rightarrow> string + unit" where
  "lim_validate s = ensure_all [
     (''source_limits.rate_per_sec must be in 1..=1000000'', 1 \<le> rate_per_sec s \<and> rate_per_sec s \<le> 1000000),
     (''source_limits.burst must be in 1..=1000000'', 1 \<le> burst s \<and> burst s \<le> 1000000),
     (''source_limits.max_sources must be in 1..=65536'', 1 \<le> max_sources s \<and> max_sources s \<le> 65536),
     (''source_limits.max_inflight must be in 1..=65536'', 1 \<le> lim_max_inflight s \<and> lim_max_inflight s \<le> 65536),
     (''source_limits.max_connections must be in 1..=65536'', 1 \<le> max_connections s \<and> max_connections s \<le> 65536),
     (''source_limits.ipv4_prefix must be in 0..=32'', lim_ipv4_prefix s \<le> 32),
     (''source_limits.ipv6_prefix must be in 0..=128'', lim_ipv6_prefix s \<le> 128)]"

subsection \<open>Entries and permits\<close>

datatype denied = Rate | Inflight | Connections | TableFull

datatype lim_kind = KQuery | KConnection

record lim_entry =
  credit :: nat
  updated :: instant
  queries :: nat
  connections :: nat

definition refill :: "instant \<Rightarrow> lim_settings \<Rightarrow> lim_entry \<Rightarrow> lim_entry" where
  "refill now s e =
     (if updated e < now then
        let added = (now - updated e) * rate_per_sec s
        in e\<lparr>credit := as_u64 (min (credit e + added) (burst s * TOKEN)), updated := now\<rparr>
      else e)"

record lim_state =
  entries :: "(ip_net, lim_entry) fmap"
  sweep :: "ip_net list"

text \<open>A limiter without a table is a disabled one; a permit without an owner is free.\<close>

type_synonym limiter = "lim_state option"
type_synonym lim_permit = "(ip_net \<times> lim_kind) option"

definition limiter_new :: "lim_settings \<Rightarrow> limiter" where
  "limiter_new s = (if lim_enabled s then Some \<lparr>entries = fmempty, sweep = []\<rparr> else None)"

fun permit_drop :: "limiter \<Rightarrow> lim_permit \<Rightarrow> limiter option" where
  "permit_drop lim None = Some lim"
| "permit_drop None (Some _) = None"
| "permit_drop (Some st) (Some (src, kind)) =
     (case fmlookup (entries st) src of
        None \<Rightarrow> None
      | Some e \<Rightarrow>
          (case kind of
             KQuery \<Rightarrow>
               if queries e = 0 then None
               else Some (Some (st\<lparr>entries := fmupd src (e\<lparr>queries := queries e - 1\<rparr>) (entries st)\<rparr>))
           | KConnection \<Rightarrow>
               if connections e = 0 then None
               else Some (Some (st\<lparr>entries := fmupd src (e\<lparr>connections := connections e - 1\<rparr>) (entries st)\<rparr>))))"

definition lim_source :: "net_ops \<Rightarrow> lim_settings \<Rightarrow> ip_addr \<Rightarrow> ip_net option" where
  "lim_source N s peer =
     (let peer = unmap_peer peer;
          prefix = (if is_ipv4 peer then lim_ipv4_prefix s else lim_ipv6_prefix s)
      in map_option (trunc N) (net_new N peer prefix))"

subsection \<open>Admission\<close>

text \<open>An entry the sweep may remove: inactive and fully refilled.\<close>

definition reclaimable :: "lim_settings \<Rightarrow> lim_entry \<Rightarrow> bool" where
  "reclaimable s e \<longleftrightarrow> queries e = 0 \<and> connections e = 0 \<and> credit e = burst s * TOKEN"

text \<open>The bounded reclamation loop; the first argument counts the remaining iterations.\<close>

fun reclaim :: "nat \<Rightarrow> lim_settings \<Rightarrow> instant \<Rightarrow> lim_state \<Rightarrow> lim_state option" where
  "reclaim 0 s now st = Some st"
| "reclaim (Suc k) s now st =
     (case sweep st of
        [] \<Rightarrow> None
      | candidate # rest \<Rightarrow>
          (case fmlookup (entries st) candidate of
             None \<Rightarrow> None
           | Some e \<Rightarrow>
               let e' = refill now s e
               in if reclaimable s e'
                  then Some \<lparr>entries = fmdrop candidate (fmupd candidate e' (entries st)), sweep = rest\<rparr>
                  else reclaim k s now
                         \<lparr>entries = fmupd candidate e' (entries st), sweep = rest @ [candidate]\<rparr>))"

text \<open>The first half of \<open>acquire_at\<close>: the source has an entry afterwards, or the table is full.\<close>

definition admit_source ::
  "lim_settings \<Rightarrow> ip_net \<Rightarrow> instant \<Rightarrow> lim_state \<Rightarrow> (bool \<times> lim_state) option" where
  "admit_source s src now st =
     (if src |\<in>| fmdom (entries st) then Some (True, st)
      else
        (case (if fmsize (entries st) = max_sources s
               then reclaim (min RECLAIM_SCAN (length (sweep st))) s now st
               else Some st) of
           None \<Rightarrow> None
         | Some st1 \<Rightarrow>
             if fmsize (entries st) = max_sources s \<and> fmsize (entries st1) = max_sources s
             then Some (False, st1)
             else Some (True, \<lparr>entries =
                      fmupd src \<lparr>credit = burst s * TOKEN, updated = now, queries = 0, connections = 0\<rparr>
                        (entries st1), sweep = sweep st1 @ [src]\<rparr>)))"

text \<open>The second half: charge the entry of an admitted source.\<close>

definition charge_entry :: "lim_settings \<Rightarrow> lim_kind \<Rightarrow> lim_entry \<Rightarrow> (denied + unit) \<times> lim_entry" where
  "charge_entry s kind e =
     (case kind of
        KQuery \<Rightarrow>
          if lim_max_inflight s \<le> queries e then (Inl Inflight, e)
          else if credit e < TOKEN then (Inl Rate, e)
          else (Inr (), e\<lparr>credit := credit e - TOKEN, queries := queries e + 1\<rparr>)
      | KConnection \<Rightarrow>
          if max_connections s \<le> connections e then (Inl Connections, e)
          else (Inr (), e\<lparr>connections := connections e + 1\<rparr>))"

definition acquire_at ::
  "net_ops \<Rightarrow> lim_settings \<Rightarrow> limiter \<Rightarrow> ip_addr \<Rightarrow> lim_kind \<Rightarrow> instant
    \<Rightarrow> ((denied + lim_permit) \<times> limiter) option" where
  "acquire_at N s lim peer kind now =
     (case lim of
        None \<Rightarrow> Some (Inr None, None)
      | Some st \<Rightarrow>
          (case lim_source N s peer of
             None \<Rightarrow> None
           | Some src \<Rightarrow>
               (case admit_source s src now st of
                  None \<Rightarrow> None
                | Some (False, st1) \<Rightarrow> Some (Inl TableFull, Some st1)
                | Some (True, st1) \<Rightarrow>
                    (case fmlookup (entries st1) src of
                       None \<Rightarrow> None
                     | Some e \<Rightarrow>
                         let (r, e') = charge_entry s kind (refill now s e);
                             st2 = st1\<lparr>entries := fmupd src e' (entries st1)\<rparr>
                         in Some (map_sum id (\<lambda>_. Some (src, kind)) r, Some st2)))))"

subsection \<open>Invariant\<close>

definition entry_ok :: "lim_settings \<Rightarrow> lim_entry \<Rightarrow> bool" where
  "entry_ok s e \<longleftrightarrow> credit e \<le> burst s * TOKEN \<and> queries e \<le> lim_max_inflight s
     \<and> connections e \<le> max_connections s"

definition lim_inv :: "lim_settings \<Rightarrow> lim_state \<Rightarrow> bool" where
  "lim_inv s st \<longleftrightarrow> distinct (sweep st) \<and> set (sweep st) = fset (fmdom (entries st))
     \<and> length (sweep st) \<le> max_sources s \<and> fmpred (\<lambda>_. entry_ok s) (entries st)"

lemma lim_validateD:
  assumes "lim_validate s = Inr ()"
  shows "1 \<le> rate_per_sec s" "rate_per_sec s \<le> 1000000" "1 \<le> burst s" "burst s \<le> 1000000"
    "1 \<le> max_sources s" "1 \<le> lim_max_inflight s" "1 \<le> max_connections s"
    "lim_ipv4_prefix s \<le> 32" "lim_ipv6_prefix s \<le> 128"
  using assms by (auto simp: lim_validate_def split: if_splits)

lemma burst_fits:
  assumes "lim_validate s = Inr ()"
  shows "burst s * TOKEN < 2 ^ 64"
proof -
  have "burst s * TOKEN \<le> 1000000 * 1000000000"
    using lim_validateD(4)[OF assms] by (simp add: TOKEN_def)
  then show ?thesis by simp
qed

lemma as_u64_capped: "lim_validate s = Inr () \<Longrightarrow> as_u64 (min x (burst s * TOKEN)) = min x (burst s * TOKEN)"
  using burst_fits[of s] by (intro as_u64_id) auto

lemma refill_credit:
  assumes "lim_validate s = Inr ()" and "credit e \<le> burst s * TOKEN"
  shows "credit (refill now s e) = min (credit e + (now - updated e) * rate_per_sec s) (burst s * TOKEN)"
  using assms by (simp add: refill_def as_u64_capped)

lemma refill_fields [simp]:
  "queries (refill now s e) = queries e" "connections (refill now s e) = connections e"
  "updated (refill now s e) = max now (updated e)"
  by (auto simp: refill_def Let_def)

lemma refill_idem [simp]: "refill now s (refill now s e) = refill now s e"
  by (auto simp: refill_def Let_def)

lemma refill_ok:
  assumes "lim_validate s = Inr ()" and "entry_ok s e"
  shows "entry_ok s (refill now s e)"
  using assms refill_credit[of s e now] by (simp add: entry_ok_def)

lemma charge_entry_ok: "entry_ok s e \<Longrightarrow> entry_ok s (snd (charge_entry s kind e))"
  by (auto simp: charge_entry_def entry_ok_def split: lim_kind.splits)

lemma lim_inv_size: "lim_inv s st \<Longrightarrow> length (sweep st) = fmsize (entries st)"
  by (simp add: lim_inv_def fmsize_distinct)

lemma lim_inv_update:
  assumes "lim_inv s st" and "src |\<in>| fmdom (entries st)" and "entry_ok s e"
  shows "lim_inv s (st\<lparr>entries := fmupd src e (entries st)\<rparr>)"
  using assms by (auto simp: lim_inv_def)

text \<open>What a reclamation pass does to each source: nothing, a refill, or the removal of an
  entry that is idle and full at this moment.\<close>

definition swept :: "lim_settings \<Rightarrow> instant \<Rightarrow> lim_entry option \<Rightarrow> lim_entry option \<Rightarrow> bool" where
  "swept s now before after \<longleftrightarrow> after = before \<or>
     (\<exists>e. before = Some e \<and>
        (after = Some (refill now s e) \<or> (after = None \<and> reclaimable s (refill now s e))))"

lemma swept_refl [simp]: "swept s now a a"
  by (simp add: swept_def)

lemma swept_trans: "swept s now a b \<Longrightarrow> swept s now b c \<Longrightarrow> swept s now a c"
  by (auto simp: swept_def)

lemma reclaim_swept:
  "reclaim k s now st = Some st' \<Longrightarrow> swept s now (fmlookup (entries st) n) (fmlookup (entries st') n)"
proof (induction k s now st rule: reclaim.induct)
  case (1 s now st)
  then show ?case by (simp add: swept_def)
next
  case (2 k s now st)
  from "2.prems" obtain c rest e where c: "sweep st = c # rest" "fmlookup (entries st) c = Some e"
    by (auto split: list.splits option.splits)
  show ?case
  proof (cases "reclaimable s (refill now s e)")
    case True
    with "2.prems" c show ?thesis by (auto simp: swept_def)
  next
    case False
    let ?st1 = "\<lparr>entries = fmupd c (refill now s e) (entries st), sweep = rest @ [c]\<rparr>"
    from False "2.prems" c have "reclaim k s now ?st1 = Some st'" by simp
    with "2.IH"[OF c(1) c(2) refl False] have "swept s now (fmlookup (entries ?st1) n) (fmlookup (entries st') n)" .
    moreover have "swept s now (fmlookup (entries st) n) (fmlookup (entries ?st1) n)"
      using c by (auto simp: swept_def)
    ultimately show ?thesis by (rule swept_trans[rotated])
  qed
qed

lemma reclaim_inv:
  assumes "lim_validate s = Inr ()" and "lim_inv s st" and "k \<le> length (sweep st)"
  shows "\<exists>st'. reclaim k s now st = Some st' \<and> lim_inv s st' \<and> fset (fmdom (entries st')) \<subseteq> fset (fmdom (entries st))
    \<and> length (sweep st') \<le> length (sweep st)"
  using assms
proof (induction k s now st rule: reclaim.induct)
  case (1 s now st)
  then show ?case by simp
next
  case (2 k s now st)
  from "2.prems"(3) obtain c rest where c: "sweep st = c # rest"
    by (cases "sweep st") auto
  with "2.prems"(2) have "c |\<in>| fmdom (entries st)" by (auto simp: lim_inv_def)
  then obtain e where e: "fmlookup (entries st) c = Some e" by (auto simp: fmlookup_dom_iff_Some)
  with "2.prems"(2) have "entry_ok s e" by (auto simp: lim_inv_def dest: fmpredD)
  with "2.prems"(1) have ok: "entry_ok s (refill now s e)" by (rule refill_ok)
  show ?case
  proof (cases "reclaimable s (refill now s e)")
    case True
    let ?st1 = "\<lparr>entries = fmdrop c (fmupd c (refill now s e) (entries st)), sweep = rest\<rparr>"
    have "lim_inv s ?st1" using "2.prems"(2) c
      by (auto simp: lim_inv_def ok intro!: fmpred_drop)
    moreover from True c e have "reclaim (Suc k) s now st = Some ?st1" by simp
    ultimately show ?thesis using c by auto
  next
    case False
    let ?st1 = "\<lparr>entries = fmupd c (refill now s e) (entries st), sweep = rest @ [c]\<rparr>"
    have "lim_inv s ?st1" using "2.prems"(2) c ok by (auto simp: lim_inv_def)
    moreover have "k \<le> length (sweep ?st1)" using "2.prems"(3) c by simp
    ultimately obtain st' where "reclaim k s now ?st1 = Some st'" "lim_inv s st'"
      "fset (fmdom (entries st')) \<subseteq> fset (fmdom (entries ?st1))" "length (sweep st') \<le> length (sweep ?st1)"
      using "2.IH"[OF c e refl False "2.prems"(1)] by blast
    with False c e show ?thesis by (auto simp: fmlookup_dom_iff_Some)
  qed
qed

lemma admit_source_inv:
  assumes "lim_validate s = Inr ()" and "lim_inv s st"
  shows "\<exists>ok st'. admit_source s src now st = Some (ok, st') \<and> lim_inv s st'
    \<and> (ok \<longrightarrow> src |\<in>| fmdom (entries st'))"
proof (cases "src |\<in>| fmdom (entries st)")
  case True
  with assms show ?thesis by (auto simp: admit_source_def)
next
  case new: False
  let ?fresh = "\<lambda>m. fmupd src \<lparr>credit = burst s * TOKEN, updated = now, queries = 0, connections = 0\<rparr> m"
  have add: "lim_inv s \<lparr>entries = ?fresh (entries st1), sweep = sweep st1 @ [src]\<rparr>"
    if "lim_inv s st1" "src |\<notin>| fmdom (entries st1)" "fmsize (entries st1) \<noteq> max_sources s" for st1
    using that lim_inv_size[OF that(1)] by (auto simp: lim_inv_def entry_ok_def)
  show ?thesis
  proof (cases "fmsize (entries st) = max_sources s")
    case False
    with new assms add[of st] show ?thesis by (auto simp: admit_source_def)
  next
    case full: True
    obtain st1 where st1: "reclaim (min RECLAIM_SCAN (length (sweep st))) s now st = Some st1"
      "lim_inv s st1" "fset (fmdom (entries st1)) \<subseteq> fset (fmdom (entries st))"
      using reclaim_inv[OF assms, of "min RECLAIM_SCAN (length (sweep st))" now] by auto
    with new have "src |\<notin>| fmdom (entries st1)" by auto
    with st1 full new add[of st1] show ?thesis
      by (cases "fmsize (entries st1) = max_sources s") (auto simp: admit_source_def)
  qed
qed

lemma admit_source_effect:
  assumes "admit_source s src now st = Some (ok, st1)"
  shows "swept s now (fmlookup (entries st) n) (fmlookup (entries st1) n) \<or>
    (n = src \<and> fmlookup (entries st) n = None \<and>
     fmlookup (entries st1) n = Some \<lparr>credit = burst s * TOKEN, updated = now, queries = 0, connections = 0\<rparr>)"
proof (cases "src |\<in>| fmdom (entries st)")
  case True
  with assms show ?thesis by (simp add: admit_source_def)
next
  case new: False
  then have "fmlookup (entries st) src = None" by (simp add: fmdom_notD)
  with new assms reclaim_swept[of _ s now st _ n] show ?thesis
    by (cases "n = src") (auto simp: admit_source_def split: option.splits if_splits)
qed

subsection \<open>Traces\<close>

text \<open>
  A run of the limiter: requests acquire permits, owners drop permits they hold. \<open>held\<close> are the
  live permits, \<open>granted\<close> the sources of the granted queries. Dropping a permit that nobody
  holds is not an event of the program and changes nothing.
\<close>

datatype lim_event = LAcquire ip_addr lim_kind instant | LDrop lim_permit

record lim_sys =
  lim :: limiter
  held :: "lim_permit list"
  granted :: "ip_net list"

definition lim_init :: "lim_settings \<Rightarrow> lim_sys" where
  "lim_init s = \<lparr>lim = limiter_new s, held = [], granted = []\<rparr>"

definition query_source :: "lim_permit \<Rightarrow> ip_net list" where
  "query_source p = (case p of Some (src, KQuery) \<Rightarrow> [src] | _ \<Rightarrow> [])"

fun lim_exec :: "net_ops \<Rightarrow> lim_settings \<Rightarrow> lim_sys \<Rightarrow> lim_event \<Rightarrow> lim_sys option" where
  "lim_exec N s sys (LAcquire peer kind now) =
     (case acquire_at N s (lim sys) peer kind now of
        None \<Rightarrow> None
      | Some (Inl _, l) \<Rightarrow> Some (sys\<lparr>lim := l\<rparr>)
      | Some (Inr p, l) \<Rightarrow>
          Some \<lparr>lim = l, held = p # held sys, granted = query_source p @ granted sys\<rparr>)"
| "lim_exec N s sys (LDrop p) =
     (if p \<in> set (held sys)
      then map_option (\<lambda>l. sys\<lparr>lim := l, held := remove1 p (held sys)\<rparr>) (permit_drop (lim sys) p)
      else Some sys)"

abbreviation lim_run :: "net_ops \<Rightarrow> lim_settings \<Rightarrow> lim_sys \<Rightarrow> lim_event list \<Rightarrow> lim_sys option" where
  "lim_run N s \<equiv> run_steps (lim_exec N s)"

fun event_times :: "lim_event list \<Rightarrow> instant list" where
  "event_times [] = []"
| "event_times (LAcquire _ _ now # es) = now # event_times es"
| "event_times (LDrop _ # es) = event_times es"

text \<open>The counters of a source, zero when it has no entry.\<close>

definition active :: "lim_state \<Rightarrow> ip_net \<Rightarrow> lim_kind \<Rightarrow> nat" where
  "active st n kind =
     (case fmlookup (entries st) n of
        None \<Rightarrow> 0
      | Some e \<Rightarrow> (case kind of KQuery \<Rightarrow> queries e | KConnection \<Rightarrow> connections e))"

definition sys_inv :: "lim_settings \<Rightarrow> lim_sys \<Rightarrow> bool" where
  "sys_inv s sys \<longleftrightarrow>
     (case lim sys of
        None \<Rightarrow> set (held sys) \<subseteq> {None}
      | Some st \<Rightarrow> lim_inv s st \<and> None \<notin> set (held sys) \<and>
          (\<forall>n kind. count_list (held sys) (Some (n, kind)) = active st n kind))"

lemma active_admit:
  assumes "admit_source s src now st = Some (ok, st1)"
  shows "active st1 n kind = active st n kind"
  using admit_source_effect[OF assms, of n]
  by (auto simp: active_def swept_def reclaimable_def split: option.splits lim_kind.splits)

lemma lim_source_ok:
  assumes "ip_network N" and "lim_validate s = Inr ()"
  shows "\<exists>src. lim_source N s peer = Some src"
proof -
  have "(if is_ipv4 a then lim_ipv4_prefix s else lim_ipv6_prefix s) \<le> addr_bits a" for a
    using lim_validateD(8,9)[OF assms(2)] by (cases a) auto
  then show ?thesis
    by (auto simp: lim_source_def Let_def ip_network.new_ok[OF assms(1)])
qed

text \<open>One admission on a well-formed table: it returns, keeps the invariant, and on a grant the
  counter of exactly that source and kind grows by one.\<close>

lemma acquire_at_ok:
  assumes "ip_network N" and v: "lim_validate s = Inr ()" and inv: "lim_inv s st"
  shows "\<exists>src r st1 st2. lim_source N s peer = Some src
    \<and> acquire_at N s (Some st) peer kind now = Some (r, Some st2) \<and> lim_inv s st2
    \<and> admit_source s src now st = Some (r \<noteq> Inl TableFull, st1)
    \<and> (r = Inl TableFull \<longrightarrow> st2 = st1)
    \<and> (r \<noteq> Inl TableFull \<longrightarrow> (\<exists>e. fmlookup (entries st1) src = Some e \<and> entry_ok s e \<and>
       r = map_sum id (\<lambda>_. Some (src, kind)) (fst (charge_entry s kind (refill now s e))) \<and>
       st2 = st1\<lparr>entries := fmupd src (snd (charge_entry s kind (refill now s e))) (entries st1)\<rparr>))"
proof -
  obtain src where src: "lim_source N s peer = Some src" using lim_source_ok assms(1) v by blast
  obtain ok st1 where st1: "admit_source s src now st = Some (ok, st1)" "lim_inv s st1"
    "ok \<Longrightarrow> src |\<in>| fmdom (entries st1)"
    using admit_source_inv[OF v inv] by blast
  show ?thesis
  proof (cases ok)
    case False
    with src st1 show ?thesis by (simp add: acquire_at_def)
  next
    case True
    with st1(3) obtain e where e: "fmlookup (entries st1) src = Some e" by (auto simp: fmlookup_dom_iff_Some)
    with st1(2) have eok: "entry_ok s e" by (auto simp: lim_inv_def dest: fmpredD)
    obtain r e' where c: "charge_entry s kind (refill now s e) = (r, e')" by fastforce
    have "entry_ok s e'" using charge_entry_ok[OF refill_ok[OF v eok], of kind now] c by simp
    with st1 True have "lim_inv s (st1\<lparr>entries := fmupd src e' (entries st1)\<rparr>)" by (auto intro: lim_inv_update)
    moreover have "r \<noteq> Inl TableFull" using c by (auto simp: charge_entry_def split: lim_kind.splits if_splits)
    then have "map_sum id (\<lambda>_. Some (src, kind)) r \<noteq> Inl TableFull" by (cases r) auto
    ultimately show ?thesis using True src st1 e eok c by (auto simp: acquire_at_def)
  qed
qed

lemma sys_inv_init: "sys_inv s (lim_init s)"
  by (auto simp: sys_inv_def lim_init_def limiter_new_def lim_inv_def active_def)

lemma lim_exec_acquire_inv:
  assumes "ip_network N" and v: "lim_validate s = Inr ()" and inv: "sys_inv s sys"
  shows "\<exists>sys'. lim_exec N s sys (LAcquire peer kind now) = Some sys' \<and> sys_inv s sys'"
proof (cases "lim sys")
  case None
  with inv show ?thesis by (auto simp: sys_inv_def acquire_at_def)
next
  case (Some st)
  with inv have st: "lim_inv s st" "None \<notin> set (held sys)"
    "\<And>n k. count_list (held sys) (Some (n, k)) = active st n k" by (auto simp: sys_inv_def)
  obtain src r st1 st2 where a: "lim_source N s peer = Some src"
    "acquire_at N s (Some st) peer kind now = Some (r, Some st2)" "lim_inv s st2"
    "admit_source s src now st = Some (r \<noteq> Inl TableFull, st1)" "r = Inl TableFull \<longrightarrow> st2 = st1"
    "r \<noteq> Inl TableFull \<longrightarrow> (\<exists>e. fmlookup (entries st1) src = Some e \<and> entry_ok s e \<and>
       r = map_sum id (\<lambda>_. Some (src, kind)) (fst (charge_entry s kind (refill now s e))) \<and>
       st2 = st1\<lparr>entries := fmupd src (snd (charge_entry s kind (refill now s e))) (entries st1)\<rparr>)"
    using acquire_at_ok[OF assms(1) v st(1), of peer kind now] by blast
  have keep: "active st1 n k = active st n k" for n k using a(4) by (rule active_admit)
  show ?thesis
  proof (cases "r = Inl TableFull")
    case True
    with a Some st keep show ?thesis by (auto simp: sys_inv_def)
  next
    case False
    with a(6) obtain e where e: "fmlookup (entries st1) src = Some e"
      "r = map_sum id (\<lambda>_. Some (src, kind)) (fst (charge_entry s kind (refill now s e)))"
      "st2 = st1\<lparr>entries := fmupd src (snd (charge_entry s kind (refill now s e))) (entries st1)\<rparr>" by blast
    from e have "active st2 n k = (if n = src \<and> k = kind \<and> \<not> isl r then Suc (active st1 n k) else active st1 n k)" for n k
      by (auto simp: active_def charge_entry_def split: lim_kind.splits if_splits)
    with a Some st keep e show ?thesis
      by (cases "fst (charge_entry s kind (refill now s e))") (auto simp: sys_inv_def)
  qed
qed

lemma lim_exec_drop_inv:
  assumes inv: "sys_inv s sys"
  shows "\<exists>sys'. lim_exec N s sys (LDrop p) = Some sys' \<and> sys_inv s sys'"
proof (cases "p \<in> set (held sys)")
  case False
  with inv show ?thesis by simp
next
  case held: True
  have cnt: "count_list (remove1 p xs) q = (if p = q then count_list xs q - 1 else count_list xs q)" for xs q
    by (induction xs) auto
  show ?thesis
  proof (cases "lim sys")
    case None
    with inv have sub: "set (held sys) \<subseteq> {None}" by (simp add: sys_inv_def)
    with held have "p = None" by auto
    with None held sub set_remove1_subset[of p "held sys"] show ?thesis by (auto simp: sys_inv_def)
  next
    case (Some st)
    with inv have st: "lim_inv s st" "None \<notin> set (held sys)"
      "\<And>n k. count_list (held sys) (Some (n, k)) = active st n k" by (auto simp: sys_inv_def)
    from held st(2) have "p \<noteq> None" by metis
    then obtain src kind where p: "p = Some (src, kind)" by auto
    from held have pos: "count_list (held sys) p \<noteq> 0" by (simp add: count_list_0_iff)
    with st(3) p obtain e where e: "fmlookup (entries st) src = Some e"
      by (auto simp: active_def split: option.splits)
    with st(1) have "entry_ok s e" by (auto simp: lim_inv_def dest: fmpredD)
    with st e have inv': "lim_inv s (st\<lparr>entries := fmupd src (e\<lparr>queries := queries e - 1\<rparr>) (entries st)\<rparr>)"
      "lim_inv s (st\<lparr>entries := fmupd src (e\<lparr>connections := connections e - 1\<rparr>) (entries st)\<rparr>)"
      by (auto intro!: lim_inv_update simp: entry_ok_def fmlookup_dom_iff_Some)
    show ?thesis
      using Some held p e pos st inv' notin_set_remove1[OF st(2)]
      by (cases kind) (auto simp: sys_inv_def active_def cnt split: lim_kind.splits)
  qed
qed

lemma lim_exec_inv:
  "ip_network N \<Longrightarrow> lim_validate s = Inr () \<Longrightarrow> sys_inv s sys \<Longrightarrow>
     \<exists>sys'. lim_exec N s sys ev = Some sys' \<and> sys_inv s sys'"
  by (cases ev) (auto simp del: lim_exec.simps intro: lim_exec_acquire_inv lim_exec_drop_inv)

text \<open>The limiter under its two assumptions: the network crate behaves as documented and the
  settings passed validation.\<close>

locale valid_limiter = ip_network N for N :: net_ops +
  fixes s :: lim_settings
  assumes valid: "lim_validate s = Inr ()"

sublocale valid_limiter \<subseteq> lim: panic_free "lim_exec N s" "sys_inv s"
  by unfold_locales (rule lim_exec_inv[OF ip_network_axioms valid])

context valid_limiter
begin

lemma run_safe: "\<exists>sys. lim_run N s (lim_init s) evs = Some sys \<and> sys_inv s sys"
  by (rule lim.run_ok) (rule sys_inv_init)

end

lemma valid_limiterI: "ip_network N \<Longrightarrow> lim_validate s = Inr () \<Longrightarrow> valid_limiter N s"
  by (simp add: valid_limiter_def valid_limiter_axioms_def)

subsection \<open>The token budget\<close>

text \<open>
  The debt of one source within a window that started at \<open>t0\<close>, at the accounting time \<open>T\<close>, after
  \<open>g\<close> grants: spent tokens and remaining credit never exceed the burst plus what the rate
  refilled since \<open>t0\<close>. A source without an entry has no debt beyond the refill.
\<close>

definition within_budget ::
  "lim_settings \<Rightarrow> instant \<Rightarrow> instant \<Rightarrow> nat \<Rightarrow> lim_entry option \<Rightarrow> bool" where
  "within_budget s t0 T g eo \<longleftrightarrow> t0 \<le> T \<and>
     (case eo of
        None \<Rightarrow> TOKEN * g \<le> rate_per_sec s * (T - t0)
      | Some e \<Rightarrow> TOKEN * g + credit e \<le> burst s * TOKEN + rate_per_sec s * (updated e - t0)
          \<and> credit e \<le> burst s * TOKEN \<and> updated e \<le> T \<and> (0 < g \<longrightarrow> t0 \<le> updated e))"

lemma within_budget_later: "within_budget s t0 T g eo \<Longrightarrow> T \<le> T' \<Longrightarrow> within_budget s t0 T' g eo"
  by (auto simp: within_budget_def split: option.splits
        intro: order_trans[OF _ mult_le_mono2[OF diff_le_mono]])

lemma within_budget_bound:
  assumes "within_budget s t0 T g eo"
  shows "TOKEN * g \<le> burst s * TOKEN + rate_per_sec s * (T - t0)"
proof (cases eo)
  case None
  with assms show ?thesis by (simp add: within_budget_def)
next
  case (Some e)
  with assms have "updated e - t0 \<le> T - t0" by (simp add: within_budget_def diff_le_mono)
  then have "rate_per_sec s * (updated e - t0) \<le> rate_per_sec s * (T - t0)" by (rule mult_le_mono2)
  moreover from assms Some have "TOKEN * g + credit e \<le> burst s * TOKEN + rate_per_sec s * (updated e - t0)"
    by (simp add: within_budget_def)
  ultimately show ?thesis by linarith
qed

lemma within_budget_refill:
  assumes v: "lim_validate s = Inr ()" and b: "within_budget s t0 T g (Some e)" and "T \<le> now"
  shows "within_budget s t0 now g (Some (refill now s e))"
proof (cases "updated e < now")
  case False
  with b assms(3) show ?thesis by (auto simp: within_budget_def refill_def)
next
  case True
  have c: "credit (refill now s e) = min (credit e + (now - updated e) * rate_per_sec s) (burst s * TOKEN)"
    using v b by (intro refill_credit) (auto simp: within_budget_def)
  show ?thesis
  proof (cases "t0 \<le> updated e")
    case False
    with b True assms(3) c show ?thesis by (auto simp: within_budget_def)
  next
    case later: True
    with True have "now - t0 = (updated e - t0) + (now - updated e)" by simp
    then have "rate_per_sec s * (now - t0) = rate_per_sec s * (updated e - t0) + (now - updated e) * rate_per_sec s"
      by (metis add_mult_distrib2 mult.commute)
    moreover from b have "TOKEN * g + credit e \<le> burst s * TOKEN + rate_per_sec s * (updated e - t0)"
      by (simp add: within_budget_def)
    ultimately have "TOKEN * g + credit (refill now s e) \<le> burst s * TOKEN + rate_per_sec s * (now - t0)"
      using c by linarith
    with b True assms(3) c later show ?thesis by (auto simp: within_budget_def max_def)
  qed
qed

lemma within_budget_swept:
  assumes v: "lim_validate s = Inr ()" and b: "within_budget s t0 T g eo" and t: "T \<le> now"
    and "swept s now eo eo'"
  shows "within_budget s t0 now g eo'"
proof -
  have *: "within_budget s t0 now g eo" using b t by (rule within_budget_later)
  from assms(4) consider "eo' = eo" | e where "eo = Some e" "eo' = Some (refill now s e)"
    | e where "eo = Some e" "eo' = None" "reclaimable s (refill now s e)"
    by (auto simp: swept_def)
  then show ?thesis
  proof cases
    case 1
    with * show ?thesis by simp
  next
    case 2
    with within_budget_refill[OF v _ t] b show ?thesis by simp
  next
    case 3
    with within_budget_refill[OF v _ t] b have r: "within_budget s t0 now g (Some (refill now s e))" by simp
    then have "updated (refill now s e) = now" by (auto simp: within_budget_def max_def split: if_splits)
    with r 3 show ?thesis by (simp add: within_budget_def reclaimable_def del: refill_fields(3))
  qed
qed

lemma within_budget_admit:
  assumes v: "lim_validate s = Inr ()" and b: "within_budget s t0 T g (fmlookup (entries st) n)"
    and t: "T \<le> now" and a: "admit_source s src now st = Some (ok, st1)"
  shows "within_budget s t0 now g (fmlookup (entries st1) n)"
  using admit_source_effect[OF a, of n]
proof
  assume "swept s now (fmlookup (entries st) n) (fmlookup (entries st1) n)"
  with within_budget_swept[OF v b t] show ?thesis by simp
next
  assume "n = src \<and> fmlookup (entries st) n = None \<and>
     fmlookup (entries st1) n = Some \<lparr>credit = burst s * TOKEN, updated = now, queries = 0, connections = 0\<rparr>"
  with within_budget_later[OF b t] show ?thesis by (auto simp: within_budget_def)
qed

lemma within_budget_charge:
  assumes "within_budget s t0 now g (Some e)" and "updated e = now"
    and "charge_entry s kind e = (r, e')"
  shows "within_budget s t0 now (if r = Inr () \<and> kind = KQuery then Suc g else g) (Some e')"
  using assms by (auto simp: within_budget_def charge_entry_def split: lim_kind.splits if_splits)

text \<open>One event keeps every source within its budget.\<close>

definition sys_budget ::
  "lim_settings \<Rightarrow> instant \<Rightarrow> instant \<Rightarrow> (ip_net \<Rightarrow> nat) \<Rightarrow> lim_sys \<Rightarrow> bool" where
  "sys_budget s t0 T base sys \<longleftrightarrow> sys_inv s sys \<and>
     (\<exists>st. lim sys = Some st \<and>
        (\<forall>n. base n \<le> count_list (granted sys) n \<and>
           within_budget s t0 T (count_list (granted sys) n - base n) (fmlookup (entries st) n)))"

lemma lim_exec_acquire_budget:
  assumes N: "ip_network N" and v: "lim_validate s = Inr ()"
    and b: "sys_budget s t0 T base sys" and t: "T \<le> now"
    and x: "lim_exec N s sys (LAcquire peer kind now) = Some sys'"
  shows "sys_budget s t0 now base sys'"
proof -
  from b obtain st where st: "lim sys = Some st" "sys_inv s sys" "\<And>n. base n \<le> count_list (granted sys) n"
    "\<And>n. within_budget s t0 T (count_list (granted sys) n - base n) (fmlookup (entries st) n)"
    by (auto simp: sys_budget_def)
  have inv': "sys_inv s sys'" using lim_exec_acquire_inv[OF N v st(2), of peer kind now] x by auto
  have "lim_inv s st" using st by (simp add: sys_inv_def)
  from acquire_at_ok[OF N v this, of peer kind now] obtain src r st1 st2 where a:
    "acquire_at N s (Some st) peer kind now = Some (r, Some st2)"
    "admit_source s src now st = Some (r \<noteq> Inl TableFull, st1)" "r = Inl TableFull \<longrightarrow> st2 = st1"
    "r \<noteq> Inl TableFull \<longrightarrow> (\<exists>e. fmlookup (entries st1) src = Some e \<and> entry_ok s e \<and>
       r = map_sum id (\<lambda>_. Some (src, kind)) (fst (charge_entry s kind (refill now s e))) \<and>
       st2 = st1\<lparr>entries := fmupd src (snd (charge_entry s kind (refill now s e))) (entries st1)\<rparr>)" by blast
  have b1: "within_budget s t0 now (count_list (granted sys) n - base n) (fmlookup (entries st1) n)" for n
    using within_budget_admit[OF v st(4) t a(2)] .
  show ?thesis
  proof (cases "r = Inl TableFull")
    case True
    with a st x inv' b1 show ?thesis by (auto simp: sys_budget_def)
  next
    case False
    with a(4) obtain e where e: "fmlookup (entries st1) src = Some e"
      "r = map_sum id (\<lambda>_. Some (src, kind)) (fst (charge_entry s kind (refill now s e)))"
      "st2 = st1\<lparr>entries := fmupd src (snd (charge_entry s kind (refill now s e))) (entries st1)\<rparr>" by blast
    obtain r0 e' where c: "charge_entry s kind (refill now s e) = (r0, e')" by fastforce
    from b1[of src] e have "within_budget s t0 now (count_list (granted sys) src - base src) (Some (refill now s e))"
      using within_budget_refill[OF v _ order_refl] by simp
    moreover from this have "updated (refill now s e) = now" by (auto simp: within_budget_def max_def)
    ultimately have b2: "within_budget s t0 now
        (if r0 = Inr () \<and> kind = KQuery then Suc (count_list (granted sys) src - base src)
         else count_list (granted sys) src - base src) (Some e')"
      using c by (rule within_budget_charge)
    show ?thesis
      using x st(1,3) a(1) inv' e c b1 b2 st(3)[of src]
      by (cases r0; cases kind)
        (auto simp: sys_budget_def query_source_def Suc_diff_le le_SucI split: if_splits)
  qed
qed

lemma lim_exec_drop_budget:
  assumes b: "sys_budget s t0 T base sys" and x: "lim_exec N s sys (LDrop p) = Some sys'"
  shows "sys_budget s t0 T base sys'"
proof -
  from b obtain st where st: "lim sys = Some st" "sys_inv s sys" "\<And>n. base n \<le> count_list (granted sys) n"
    "\<And>n. within_budget s t0 T (count_list (granted sys) n - base n) (fmlookup (entries st) n)"
    by (auto simp: sys_budget_def)
  have inv': "sys_inv s sys'" using lim_exec_drop_inv[OF st(2), of N p] x by auto
  have same: "within_budget s t0 T g (Some (e\<lparr>queries := q\<rparr>)) = within_budget s t0 T g (Some e)"
    "within_budget s t0 T g (Some (e\<lparr>connections := q\<rparr>)) = within_budget s t0 T g (Some e)" for g e q
    by (simp_all add: within_budget_def)
  have upd: "within_budget s t0 T g (fmlookup (fmupd src e' m) n)"
    if "within_budget s t0 T g (fmlookup m n)" "n = src \<Longrightarrow> within_budget s t0 T g (Some e')" for g src e' n m
    using that by auto
  show ?thesis
  proof (cases "p \<in> set (held sys)")
    case False
    with x b show ?thesis by simp
  next
    case held: True
    show ?thesis
    proof (cases p)
      case None
      with held x b inv' st show ?thesis by (auto simp: sys_budget_def)
    next
      case (Some sk)
      obtain src kind where sk: "sk = (src, kind)" by fastforce
      from held x Some sk st(1) obtain e where e: "fmlookup (entries st) src = Some e"
        by (auto split: option.splits)
      with st(4)[of src] have "within_budget s t0 T (count_list (granted sys) src - base src) (Some e)" by simp
      with held x Some sk st e inv' show ?thesis
        by (cases kind) (auto simp: sys_budget_def same split: if_splits intro!: upd)
    qed
  qed
qed

lemma lim_run_budget:
  assumes N: "ip_network N" and v: "lim_validate s = Inr ()"
  shows "sys_budget s t0 T base sys \<Longrightarrow> sorted (T # event_times evs) \<Longrightarrow>
    \<forall>t \<in> set (event_times evs). t \<le> t1 \<Longrightarrow> T \<le> t1 \<Longrightarrow>
    lim_run N s sys evs = Some sys' \<Longrightarrow> sys_budget s t0 t1 base sys'"
proof (induction evs arbitrary: sys T)
  case Nil
  then show ?case by (auto simp: sys_budget_def intro: within_budget_later)
next
  case (Cons ev evs)
  from Cons.prems(5) obtain sys1 where s1: "lim_exec N s sys ev = Some sys1" "lim_run N s sys1 evs = Some sys'"
    by (auto split: option.splits)
  show ?case
  proof (cases ev)
    case (LAcquire peer kind now)
    with Cons.prems s1 lim_exec_acquire_budget[OF N v Cons.prems(1), of now peer kind sys1]
    have "sys_budget s t0 now base sys1" by auto
    with LAcquire Cons.prems s1 show ?thesis by (intro Cons.IH[of now sys1]) auto
  next
    case (LDrop p)
    with Cons.prems s1 lim_exec_drop_budget[OF Cons.prems(1), of N p sys1]
    have "sys_budget s t0 T base sys1" by auto
    with LDrop Cons.prems s1 show ?thesis by (intro Cons.IH[of T sys1]) auto
  qed
qed

subsection \<open>Properties\<close>

text \<open>C1. Safety of source limits: no sequence of admissions and permit drops panics (no
  \<open>unwrap\<close> on a missing entry, no counter underflow), the source table never exceeds
  \<open>max_sources\<close>, and the permits alive for one source never exceed \<open>max_inflight\<close> queries
  and \<open>max_connections\<close> connections.\<close>

theorem lim_run_safe:
  assumes "ip_network N" and "lim_validate s = Inr ()"
  shows "\<exists>sys. lim_run N s (lim_init s) evs = Some sys \<and>
    (\<forall>st. lim sys = Some st \<longrightarrow> fmsize (entries st) \<le> max_sources s \<and>
      (\<forall>n. count_list (held sys) (Some (n, KQuery)) \<le> lim_max_inflight s
         \<and> count_list (held sys) (Some (n, KConnection)) \<le> max_connections s))"
proof -
  obtain sys where sys: "lim_run N s (lim_init s) evs = Some sys" "sys_inv s sys"
    using valid_limiter.run_safe[OF valid_limiterI[OF assms]] by blast
  have "fmsize (entries st) \<le> max_sources s" "active st n KQuery \<le> lim_max_inflight s"
    "active st n KConnection \<le> max_connections s" if "lim_inv s st" for st n
    using that lim_inv_size[OF that]
    by (auto simp: lim_inv_def active_def entry_ok_def dest: fmpredD split: option.splits)
  with sys show ?thesis by (auto simp: sys_inv_def)
qed

definition demo_settings :: lim_settings where
  "demo_settings = \<lparr>
     lim_enabled = True, rate_per_sec = 1, burst = 1, max_sources = 1,
     lim_ipv4_prefix = 24, lim_ipv6_prefix = 64, lim_max_inflight = 2, max_connections = 1\<rparr>"

definition demo_events :: "lim_event list" where
  "demo_events = [LAcquire (V4 0x01020301) KQuery 5, LAcquire (V4 0x01020302) KQuery 6,
     LAcquire (V6 0xffff01020303) KQuery 1000000005]"

lemma demo_settings_valid: "lim_validate demo_settings = Inr ()"
  by (simp add: demo_settings_def lim_validate_def)

interpretation demo_limiter: valid_limiter cidr demo_settings
  by unfold_locales (rule demo_settings_valid)

theorem lim_run_safe_witness:
  "\<exists>sys. lim_run cidr demo_settings (lim_init demo_settings) demo_events = Some sys \<and>
    (\<forall>st. lim sys = Some st \<longrightarrow> fmsize (entries st) \<le> 1 \<and>
      (\<forall>n. count_list (held sys) (Some (n, KQuery)) \<le> 2
         \<and> count_list (held sys) (Some (n, KConnection)) \<le> 1))"
  using lim_run_safe[OF cidr_net.ip_network_axioms demo_settings_valid, of demo_events]
  by (simp add: demo_settings_def)


lemma demo_run:
  "map_option granted (lim_run cidr demo_settings (lim_init demo_settings) demo_events)
     = Some [\<lparr>net_addr = V4 0x01020300, prefix_len = 24\<rparr>, \<lparr>net_addr = V4 0x01020300, prefix_len = 24\<rparr>]"
  by (simp add: demo_settings_def demo_events_def lim_init_def limiter_new_def acquire_at_def lim_source_def
      admit_source_def charge_entry_def refill_def TOKEN_def as_u64_def query_source_def to_ipv4_mapped_def
      keep_high_def eval_simps)


end
