(* ===== verification/Auth_Budget.thy ===== *)
theory Auth_Budget
  imports Net
begin

unbundle bit_operations_syntax

text \<open>
  Authentication attempts (\<open>src/manage/auth_budget.rs\<close>): at most five attempts per source in
  any minute, in a table of at most 1024 sources that forgets a source only when all of its
  attempts have expired. Only the attempt accounting is modelled; the semaphore that bounds
  concurrent password hashing is a runtime service.
\<close>

definition WINDOW :: duration where
  "WINDOW = from_secs 60"

definition ATTEMPTS :: nat where
  "ATTEMPTS = 5"

definition MAX_SOURCES :: nat where
  "MAX_SOURCES = 1024"

definition AUTH_RECLAIM_SCAN :: nat where
  "AUTH_RECLAIM_SCAN = 16"

datatype auth_error = LOGIN_LIMIT

record auth_sources =
  auth_entries :: "(ip_addr, instant list) fmap"
  auth_sweep :: "ip_addr list"

definition auth_new :: auth_sources where
  "auth_new = \<lparr>auth_entries = fmempty, auth_sweep = []\<rparr>"

text \<open>The identity an attempt is charged to: the IPv4 address of a mapped peer, the /64 of
  another IPv6 peer.\<close>

fun auth_peer :: "ip_addr \<Rightarrow> ip_addr" where
  "auth_peer (V6 ip) =
     (case to_ipv4_mapped ip of
        Some v4 \<Rightarrow> V4 v4
      | None \<Rightarrow> V6 (ip AND NOT (ucast (- 1 :: 64 word))))"
| "auth_peer (V4 ip) = V4 ip"

fun expire :: "instant list \<Rightarrow> instant \<Rightarrow> instant list" where
  "expire [] now = []"
| "expire (at # ats) now =
     (if WINDOW \<le> saturating_duration_since now at then expire ats now else at # ats)"

fun sweep_batch :: "nat \<Rightarrow> instant \<Rightarrow> auth_sources \<Rightarrow> auth_sources option" where
  "sweep_batch 0 now st = Some st"
| "sweep_batch (Suc k) now st =
     (case auth_sweep st of
        [] \<Rightarrow> None
      | source # rest \<Rightarrow>
          (case fmlookup (auth_entries st) source of
             None \<Rightarrow> None
           | Some attempts \<Rightarrow>
               let attempts = expire attempts now
               in sweep_batch k now
                    (if attempts = []
                     then \<lparr>auth_entries = fmdrop source (auth_entries st), auth_sweep = rest\<rparr>
                     else \<lparr>auth_entries = fmupd source attempts (auth_entries st), auth_sweep = rest @ [source]\<rparr>)))"

definition attempt_at :: "auth_sources \<Rightarrow> ip_addr \<Rightarrow> instant \<Rightarrow> ((auth_error + unit) \<times> auth_sources) option" where
  "attempt_at st peer now =
     (let peer = auth_peer peer in
      case sweep_batch (min AUTH_RECLAIM_SCAN (length (auth_sweep st))) now st of
        None \<Rightarrow> None
      | Some st \<Rightarrow>
          if peer |\<notin>| fmdom (auth_entries st) \<and> fmsize (auth_entries st) = MAX_SOURCES
          then Some (Inl LOGIN_LIMIT, st)
          else
            let st = (if peer |\<in>| fmdom (auth_entries st) then st
                      else \<lparr>auth_entries = fmupd peer [] (auth_entries st), auth_sweep = auth_sweep st @ [peer]\<rparr>)
            in case fmlookup (auth_entries st) peer of
                 None \<Rightarrow> None
               | Some attempts \<Rightarrow>
                   let attempts = expire attempts now in
                   if length attempts = ATTEMPTS
                   then Some (Inl LOGIN_LIMIT, st\<lparr>auth_entries := fmupd peer attempts (auth_entries st)\<rparr>)
                   else
                     let stamp = (if attempts = [] then now else max (last attempts) now)
                     in Some (Inr (), st\<lparr>auth_entries := fmupd peer (attempts @ [stamp]) (auth_entries st)\<rparr>))"

subsection \<open>Invariant\<close>

definition auth_inv :: "auth_sources \<Rightarrow> bool" where
  "auth_inv st \<longleftrightarrow> distinct (auth_sweep st) \<and> set (auth_sweep st) = fset (fmdom (auth_entries st))
     \<and> length (auth_sweep st) \<le> MAX_SOURCES
     \<and> fmpred (\<lambda>_ ats. length ats \<le> ATTEMPTS) (auth_entries st)"

lemma length_expire_le: "length (expire ats now) \<le> length ats"
  by (induction ats) auto

lemma expire_sorted:
  "sorted ats \<Longrightarrow> expire ats now = filter (\<lambda>at. now - at < WINDOW) ats"
proof (induction ats)
  case Nil
  then show ?case by simp
next
  case (Cons at ats)
  show ?case
  proof (cases "WINDOW \<le> now - at")
    case True
    with Cons show ?thesis by (simp add: rust_simps)
  next
    case False
    then have "now - x < WINDOW" if "x \<in> set ats" for x
      using Cons.prems that diff_le_mono2[of at x now] by auto
    with False show ?thesis by (simp add: rust_simps)
  qed
qed

lemma auth_inv_size: "auth_inv st \<Longrightarrow> length (auth_sweep st) = fmsize (auth_entries st)"
  by (simp add: auth_inv_def fmsize_distinct)

lemma sweep_batch_ok:
  "auth_inv st \<Longrightarrow> k \<le> length (auth_sweep st) \<Longrightarrow>
     \<exists>st'. sweep_batch k now st = Some st' \<and> auth_inv st'"
proof (induction k arbitrary: st)
  case 0
  then show ?case by simp
next
  case (Suc k)
  from Suc.prems(2) obtain src rest where c: "auth_sweep st = src # rest"
    by (cases "auth_sweep st") auto
  with Suc.prems(1) have "src |\<in>| fmdom (auth_entries st)" by (auto simp: auth_inv_def)
  then obtain ats where e: "fmlookup (auth_entries st) src = Some ats" by (auto simp: fmlookup_dom_iff_Some)
  with Suc.prems(1) have "length ats \<le> ATTEMPTS" by (auto simp: auth_inv_def dest: fmpredD)
  then have len: "length (expire ats now) \<le> ATTEMPTS" using length_expire_le order_trans by blast
  let ?st = "if expire ats now = []
     then \<lparr>auth_entries = fmdrop src (auth_entries st), auth_sweep = rest\<rparr>
     else \<lparr>auth_entries = fmupd src (expire ats now) (auth_entries st), auth_sweep = rest @ [src]\<rparr>"
  have "auth_inv ?st" using Suc.prems(1) c len by (auto simp: auth_inv_def intro!: fmpred_drop)
  moreover have "k \<le> length (auth_sweep ?st)" using Suc.prems(2) c by simp
  ultimately have "\<exists>st'. sweep_batch k now ?st = Some st' \<and> auth_inv st'" by (rule Suc.IH)
  with c e show ?case by (simp add: Let_def)
qed

text \<open>The recent attempts a source has on record at time \<open>now\<close>; none without an entry.\<close>

definition recorded :: "auth_sources \<Rightarrow> ip_addr \<Rightarrow> instant list" where
  "recorded st p = (case fmlookup (auth_entries st) p of None \<Rightarrow> [] | Some ats \<Rightarrow> ats)"

lemma sweep_batch_recorded:
  "sweep_batch k now st = Some st' \<Longrightarrow> \<forall>p. sorted (recorded st p) \<Longrightarrow>
     recorded st' p = recorded st p \<or> recorded st' p = expire (recorded st p) now"
proof (induction k arbitrary: st)
  case 0
  then show ?case by simp
next
  case (Suc k)
  from Suc.prems(1) obtain src rest ats where c: "auth_sweep st = src # rest"
    "fmlookup (auth_entries st) src = Some ats" by (auto split: list.splits option.splits)
  let ?st = "if expire ats now = []
     then \<lparr>auth_entries = fmdrop src (auth_entries st), auth_sweep = rest\<rparr>
     else \<lparr>auth_entries = fmupd src (expire ats now) (auth_entries st), auth_sweep = rest @ [src]\<rparr>"
  have one: "recorded ?st q = (if q = src then expire (recorded st q) now else recorded st q)" for q
    using c by (auto simp: recorded_def)
  have srt: "\<forall>q. sorted (recorded ?st q)"
    using Suc.prems(2) by (simp only: one) (auto simp: expire_sorted sorted_filter[where f = id, simplified])
  from Suc.prems(1) c have "sweep_batch k now ?st = Some st'" by (simp add: Let_def)
  from Suc.IH[OF this srt] have "recorded st' p = recorded ?st p \<or> recorded st' p = expire (recorded ?st p) now" .
  moreover have "expire (expire (recorded st p) now) now = expire (recorded st p) now"
    using Suc.prems(2) by (simp add: expire_sorted sorted_filter[where f = id, simplified])
  ultimately show ?case by (auto simp: one split: if_splits)
qed

lemma recorded_fmupd [simp]:
  "recorded \<lparr>auth_entries = fmupd q ats m, auth_sweep = sw\<rparr> p =
     (if p = q then ats else recorded \<lparr>auth_entries = m, auth_sweep = sw\<rparr> p)"
  by (simp add: recorded_def)

lemma recorded_cong: "auth_entries st = auth_entries st' \<Longrightarrow> recorded st p = recorded st' p"
  by (simp add: recorded_def)

text \<open>One attempt on a well-formed table.\<close>

lemma attempt_at_ok:
  assumes inv: "auth_inv st"
  shows "\<exists>r st'. attempt_at st peer now = Some (r, st') \<and> auth_inv st'"
proof -
  obtain st1 where st1: "sweep_batch (min AUTH_RECLAIM_SCAN (length (auth_sweep st))) now st = Some st1"
    "auth_inv st1"
    using sweep_batch_ok[OF inv, of "min AUTH_RECLAIM_SCAN (length (auth_sweep st))" now] by auto
  let ?p = "auth_peer peer"
  show ?thesis
  proof (cases "?p |\<notin>| fmdom (auth_entries st1) \<and> fmsize (auth_entries st1) = MAX_SOURCES")
    case True
    with st1 show ?thesis by (simp add: attempt_at_def)
  next
    case room: False
    define st2 where "st2 = (if ?p |\<in>| fmdom (auth_entries st1) then st1
      else \<lparr>auth_entries = fmupd ?p [] (auth_entries st1), auth_sweep = auth_sweep st1 @ [?p]\<rparr>)"
    have inv2: "auth_inv st2" using st1(2) room auth_inv_size[OF st1(2)]
      by (auto simp: st2_def auth_inv_def)
    have "?p |\<in>| fmdom (auth_entries st2)" by (simp add: st2_def)
    then obtain ats where e: "fmlookup (auth_entries st2) ?p = Some ats" by (auto simp: fmlookup_dom_iff_Some)
    with inv2 have "length ats \<le> ATTEMPTS" by (auto simp: auth_inv_def dest: fmpredD)
    then have len: "length (expire ats now) \<le> ATTEMPTS" using length_expire_le order_trans by blast
    have upd: "auth_inv (st2\<lparr>auth_entries := fmupd ?p ats' (auth_entries st2)\<rparr>)" if "length ats' \<le> ATTEMPTS" for ats'
      using inv2 \<open>?p |\<in>| fmdom (auth_entries st2)\<close> that by (auto simp: auth_inv_def)
    show ?thesis
      using st1(1) room e len upd by (auto simp: attempt_at_def Let_def simp flip: st2_def)
  qed
qed

lemma attempt_at_recorded:
  assumes a: "attempt_at st peer now = Some (r, st')" and srt: "\<forall>p. sorted (recorded st p)"
    and le: "\<forall>p. \<forall>x \<in> set (recorded st p). x \<le> now"
  shows "if r = Inr () \<and> p = auth_peer peer
    then recorded st' p = expire (recorded st p) now @ [now] \<and> length (expire (recorded st p) now) \<noteq> ATTEMPTS
    else recorded st' p = recorded st p \<or> recorded st' p = expire (recorded st p) now"
proof -
  have idem: "expire (expire (recorded st q) now) now = expire (recorded st q) now" for q
    using srt by (simp add: expire_sorted sorted_filter[where f = id, simplified])
  have last_le: "last (expire (recorded st q) now) \<le> now" if "expire (recorded st q) now \<noteq> []" for q
    using le srt last_in_set[OF that] by (auto simp: expire_sorted)
  from a obtain st1 where st1: "sweep_batch (min AUTH_RECLAIM_SCAN (length (auth_sweep st))) now st = Some st1"
    by (auto simp: attempt_at_def Let_def split: option.splits)
  have one: "recorded st1 q = recorded st q \<or> recorded st1 q = expire (recorded st q) now" for q
    using sweep_batch_recorded[OF st1 srt] .
  then have two: "expire (recorded st1 q) now = expire (recorded st q) now" for q
    using idem by metis
  let ?p = "auth_peer peer"
  show ?thesis
  proof (cases "?p |\<notin>| fmdom (auth_entries st1) \<and> fmsize (auth_entries st1) = MAX_SOURCES")
    case True
    with a st1 one[of p] show ?thesis by (auto simp: attempt_at_def)
  next
    case room: False
    define st2 where "st2 = (if ?p |\<in>| fmdom (auth_entries st1) then st1
      else \<lparr>auth_entries = fmupd ?p [] (auth_entries st1), auth_sweep = auth_sweep st1 @ [?p]\<rparr>)"
    have rec2: "recorded st2 q = recorded st1 q" for q
      by (auto simp: st2_def recorded_def fmdom_notD split: option.splits)
    have "?p |\<in>| fmdom (auth_entries st2)" by (simp add: st2_def)
    then obtain ats where e: "fmlookup (auth_entries st2) ?p = Some ats" by (auto simp: fmlookup_dom_iff_Some)
    then have ats: "ats = recorded st1 ?p" using rec2[of ?p] by (simp add: recorded_def)
    have upd: "recorded (st2\<lparr>auth_entries := fmupd ?p x (auth_entries st2)\<rparr>) q = (if q = ?p then x else recorded st1 q)" for x q
      using rec2[of q] by (simp add: recorded_def)
    have "(if length (expire ats now) = ATTEMPTS
        then (Inl LOGIN_LIMIT, st2\<lparr>auth_entries := fmupd ?p (expire ats now) (auth_entries st2)\<rparr>)
        else (Inr (), st2\<lparr>auth_entries := fmupd ?p (expire ats now @
           [if expire ats now = [] then now else max (last (expire ats now)) now]) (auth_entries st2)\<rparr>)) = (r, st')"
      using a st1 room e by (auto simp: attempt_at_def Let_def simp flip: st2_def split: if_splits)
    with one[of p] two[of ?p] last_le[of ?p] show ?thesis
      by (auto simp: upd ats max_absorb2 split: if_splits)
  qed
qed

subsection \<open>Traces\<close>

text \<open>A run of attempts; \<open>accepted\<close> logs the accepted ones in order.\<close>

record auth_sys =
  sources :: auth_sources
  accepted :: "(ip_addr \<times> instant) list"

definition auth_init :: auth_sys where
  "auth_init = \<lparr>sources = auth_new, accepted = []\<rparr>"

definition auth_exec :: "auth_sys \<Rightarrow> ip_addr \<times> instant \<Rightarrow> auth_sys option" where
  "auth_exec sys = (\<lambda>(peer, now).
     case attempt_at (sources sys) peer now of
       None \<Rightarrow> None
     | Some (Inl _, st) \<Rightarrow> Some (sys\<lparr>sources := st\<rparr>)
     | Some (Inr _, st) \<Rightarrow> Some \<lparr>sources = st, accepted = accepted sys @ [(auth_peer peer, now)]\<rparr>)"

interpretation auth: panic_free auth_exec "\<lambda>sys. auth_inv (sources sys)"
proof
  fix sys :: auth_sys and e
  assume "auth_inv (sources sys)"
  then obtain r st' where "attempt_at (sources sys) (fst e) (snd e) = Some (r, st')" "auth_inv st'"
    using attempt_at_ok by blast
  then show "\<exists>sys'. auth_exec sys e = Some sys' \<and> auth_inv (sources sys')"
    by (cases r) (auto simp: auth_exec_def case_prod_beta)
qed

lemma auth_inv_init: "auth_inv (sources auth_init)"
  by (simp add: auth_inv_def auth_init_def auth_new_def)

text \<open>The accepted attempts of one identity, in order.\<close>

definition accepted_of :: "auth_sys \<Rightarrow> ip_addr \<Rightarrow> instant list" where
  "accepted_of sys p = map snd (filter (\<lambda>a. fst a = p) (accepted sys))"

definition in_window :: "instant \<Rightarrow> instant \<Rightarrow> bool" where
  "in_window t x \<longleftrightarrow> t \<le> x \<and> x < t + WINDOW"

text \<open>At time \<open>T\<close> the record of a source holds every accepted attempt that is still recent.\<close>

definition auth_faithful :: "instant \<Rightarrow> auth_sys \<Rightarrow> bool" where
  "auth_faithful T sys \<longleftrightarrow> (\<forall>p.
     sorted (recorded (sources sys) p) \<and> (\<forall>x \<in> set (recorded (sources sys) p). x \<le> T)
     \<and> length (recorded (sources sys) p) \<le> ATTEMPTS
     \<and> (\<forall>x \<in> set (accepted_of sys p). x \<le> T)
     \<and> filter (\<lambda>x. T - x < WINDOW) (accepted_of sys p) = filter (\<lambda>x. T - x < WINDOW) (recorded (sources sys) p)
     \<and> (\<forall>t. length (filter (in_window t) (accepted_of sys p)) \<le> ATTEMPTS))"

lemma filter_recent_later:
  assumes "T \<le> now" and "\<forall>x \<in> set xs. x \<le> T"
  shows "filter (\<lambda>x. now - x < WINDOW) (filter (\<lambda>x. T - x < WINDOW) xs) = filter (\<lambda>x. now - x < WINDOW) xs"
  using assms by (auto simp: filter_filter intro!: filter_cong)

lemma window_recent:
  assumes "in_window t now"
  shows "length (filter (in_window t) xs) \<le> length (filter (\<lambda>x. now - x < WINDOW) xs)"
proof -
  have "filter (in_window t) xs = filter (in_window t) (filter (\<lambda>x. now - x < WINDOW) xs)"
    using assms by (auto simp: in_window_def filter_filter WINDOW_def from_secs_def intro!: filter_cong)
  then show ?thesis by (metis length_filter_le)
qed

lemma auth_exec_faithful:
  assumes f: "auth_faithful T sys" and t: "T \<le> now" and x: "auth_exec sys (peer, now) = Some sys'"
  shows "auth_faithful now sys'"
proof -
  from x obtain r st' where a: "attempt_at (sources sys) peer now = Some (r, st')"
    "sources sys' = st'"
    and acc: "\<And>p. accepted_of sys' p = accepted_of sys p @ (if r = Inr () \<and> p = auth_peer peer then [now] else [])"
    by (auto simp: auth_exec_def accepted_of_def split: option.splits sum.splits)
  from f have srt: "\<forall>p. sorted (recorded (sources sys) p)" by (simp add: auth_faithful_def)
  from f have "\<forall>p. \<forall>x \<in> set (recorded (sources sys) p). x \<le> T" by (simp add: auth_faithful_def)
  with t have le: "\<forall>p. \<forall>x \<in> set (recorded (sources sys) p). x \<le> now" using order_trans by blast
  have "sorted (recorded st' p) \<and> (\<forall>x \<in> set (recorded st' p). x \<le> now) \<and> length (recorded st' p) \<le> ATTEMPTS
     \<and> (\<forall>x \<in> set (accepted_of sys' p). x \<le> now)
     \<and> filter (\<lambda>x. now - x < WINDOW) (accepted_of sys' p) = filter (\<lambda>x. now - x < WINDOW) (recorded st' p)
     \<and> (\<forall>t. length (filter (in_window t) (accepted_of sys' p)) \<le> ATTEMPTS)" for p
  proof -
    let ?q = "recorded (sources sys) p" and ?l = "accepted_of sys p"
    from f have p: "sorted ?q" "\<forall>x \<in> set ?q. x \<le> T" "length ?q \<le> ATTEMPTS" "\<forall>x \<in> set ?l. x \<le> T"
      "filter (\<lambda>x. T - x < WINDOW) ?l = filter (\<lambda>x. T - x < WINDOW) ?q"
      "\<And>t. length (filter (in_window t) ?l) \<le> ATTEMPTS"
      by (simp_all add: auth_faithful_def)
    have ex: "expire ?q now = filter (\<lambda>x. now - x < WINDOW) ?q" using p(1) by (rule expire_sorted)
    have same: "filter (\<lambda>x. now - x < WINDOW) ?l = filter (\<lambda>x. now - x < WINDOW) ?q"
      using filter_recent_later[OF t p(4)] filter_recent_later[OF t p(2)] p(5) by metis
    have len: "length (expire ?q now) \<le> ATTEMPTS" using length_expire_le p(3) order_trans by blast
    show ?thesis
    proof (cases "r = Inr () \<and> p = auth_peer peer")
      case True
      with attempt_at_recorded[OF a(1) srt le, of p] have new: "recorded st' p = expire ?q now @ [now]"
        "length (expire ?q now) < ATTEMPTS" using len by auto
      have "length (filter (in_window u) (?l @ [now])) \<le> ATTEMPTS" for u
        using window_recent[of u now ?l] same new(2) ex p(6)[of u] by auto
      then have "\<forall>u. length (filter (in_window u) (accepted_of sys' p)) \<le> ATTEMPTS"
        using True acc[of p] by simp
      moreover have "sorted (recorded st' p) \<and> (\<forall>x \<in> set (recorded st' p). x \<le> now)
          \<and> length (recorded st' p) \<le> ATTEMPTS \<and> (\<forall>x \<in> set (accepted_of sys' p). x \<le> now)"
        using True new acc[of p] p(1,2,4) t ex
        by (auto simp: sorted_append sorted_filter[where f = id, simplified] intro: order_trans)
      moreover have "filter (\<lambda>x. now - x < WINDOW) (accepted_of sys' p) = filter (\<lambda>x. now - x < WINDOW) (recorded st' p)"
        using True new acc[of p] same ex by simp
      ultimately show ?thesis by blast
    next
      case False
      with attempt_at_recorded[OF a(1) srt le, of p] have "recorded st' p = ?q \<or> recorded st' p = expire ?q now" by auto
      with False acc[of p] p t same ex len show ?thesis
        by (auto simp: sorted_filter[where f = id, simplified] intro: order_trans)
    qed
  qed
  with a show ?thesis by (simp add: auth_faithful_def)
qed

lemma auth_run_faithful:
  "auth_faithful T sys \<Longrightarrow> sorted (T # map snd evs) \<Longrightarrow> run_steps auth_exec sys evs = Some sys' \<Longrightarrow>
     \<exists>T'. auth_faithful T' sys'"
proof (induction evs arbitrary: sys T)
  case Nil
  then show ?case by auto
next
  case (Cons e evs)
  from Cons.prems(3) obtain sys1 where s1: "auth_exec sys e = Some sys1" "run_steps auth_exec sys1 evs = Some sys'"
    by (auto split: option.splits)
  with Cons.prems auth_exec_faithful[of T sys "snd e" "fst e" sys1] have "auth_faithful (snd e) sys1" by simp
  with Cons.prems s1 Cons.IH[of "snd e" sys1] show ?case by simp
qed

subsection \<open>Properties\<close>


definition demo_attempts :: "(ip_addr \<times> instant) list" where
  "demo_attempts = [(V4 1, 0), (V6 0xffff00000001, 1), (V4 1, 2), (V4 1, 3), (V4 1, 4), (V4 1, 5)]"

lemma demo_attempts_run:
  "map_option accepted (run_steps auth_exec auth_init demo_attempts)
     = Some [(V4 1, 0), (V4 1, 1), (V4 1, 2), (V4 1, 3), (V4 1, 4)]"
  by (simp add: demo_attempts_def auth_exec_def auth_init_def auth_new_def attempt_at_def Let_def
      AUTH_RECLAIM_SCAN_def MAX_SOURCES_def ATTEMPTS_def WINDOW_def from_secs_def to_ipv4_mapped_def
      saturating_duration_since_def eval_simps)


text \<open>C4. The table of sign-in sources never panics, never exceeds 1024 sources and never holds
  more than five stamps per source, for any order of timestamps.\<close>

theorem auth_run_safe:
  "\<exists>sys. run_steps auth_exec auth_init evs = Some sys \<and> fmsize (auth_entries (sources sys)) \<le> MAX_SOURCES
     \<and> fmpred (\<lambda>_ ats. length ats \<le> ATTEMPTS) (auth_entries (sources sys))"
proof -
  obtain sys where "run_steps auth_exec auth_init evs = Some sys" and inv: "auth_inv (sources sys)"
    using auth.run_ok[OF auth_inv_init] by blast
  with auth_inv_size[OF inv] show ?thesis by (simp add: auth_inv_def)
qed

end
