(* ===== verification/Dns.thy ===== *)
theory Dns
  imports Net
begin

text \<open>
  DNS messages as the sources see them. \<open>hickory_proto\<close> is a third-party crate: its public
  data (questions, records, the message header, EDNS with its options) are records and
  datatypes with the fields the sources read and write, and the functions the sources call
  are the fields of \<open>dns_ops\<close>, with their documented behaviour in the locale \<open>dns_library\<close>.

  Names are a type parameter \<open>'n\<close>. Equality of names is HOL equality: it stands for
  \<open>Name::eq\<close>, which compares labels without regard to case. Record types and EDNS option
  codes are their numbers on the wire where a variant has no other use.
\<close>

datatype record_type = A | AAAA | CNAME | SOA | SIG | TSIG | OPT | AXFR | IXFR | ANY | OtherType nat

datatype dns_class = IN | OtherClass nat

record 'n soa =
  mname :: 'n
  rname :: 'n
  serial :: nat
  soa_refresh :: nat
  soa_retry :: nat
  soa_expire :: nat
  minimum :: nat

datatype 'n rdata =
    RA "32 word"
  | RAAAA "128 word"
  | RCNAME 'n
  | RSOA "'n soa"
  | ROther record_type bytes

fun rdata_type :: "'n rdata \<Rightarrow> record_type" where
  "rdata_type (RA _) = A"
| "rdata_type (RAAAA _) = AAAA"
| "rdata_type (RCNAME _) = CNAME"
| "rdata_type (RSOA _) = SOA"
| "rdata_type (ROther t _) = t"

record 'n rr =
  rr_name :: 'n
  dns_class :: dns_class
  ttl :: nat
  data :: "'n rdata"

abbreviation rr_type :: "'n rr \<Rightarrow> record_type" where
  "rr_type r \<equiv> rdata_type (data r)"

record 'n question =
  q_name :: 'n
  query_type :: record_type
  query_class :: dns_class

subsection \<open>EDNS\<close>

record client_subnet =
  cs_addr :: ip_addr
  source_prefix :: nat
  scope_prefix :: nat

type_synonym edns_code = nat

definition code_Subnet :: edns_code where "code_Subnet = 8"
definition code_Cookie :: edns_code where "code_Cookie = 10"
definition code_Keepalive :: edns_code where "code_Keepalive = 11"
definition code_Padding :: edns_code where "code_Padding = 12"
definition code_Ede :: edns_code where "code_Ede = 15"

lemmas edns_codes = code_Subnet_def code_Cookie_def code_Keepalive_def code_Padding_def code_Ede_def

datatype edns_option = Subnet client_subnet | Unknown edns_code bytes

fun option_code :: "edns_option \<Rightarrow> edns_code" where
  "option_code (Subnet _) = code_Subnet"
| "option_code (Unknown c _) = c"

type_synonym edns_options = "(edns_code \<times> edns_option) list"

record edns =
  version :: nat
  max_payload :: nat
  dnssec_ok :: bool
  options :: edns_options

subsection \<open>Messages\<close>

datatype message_type = MQuery | MResponse

datatype op_code = OpQuery | OtherOp nat

datatype response_code =
  NoError | FormErr | ServFail | NXDomain | NotImp | Refused | BADVERS | OtherCode nat

record 'n message =
  id :: nat
  message_type :: message_type
  op_code :: op_code
  response_code :: response_code
  truncation :: bool
  recursion_desired :: bool
  recursion_available :: bool
  authentic_data :: bool
  checking_disabled :: bool
  queries :: "'n question list"
  answers :: "'n rr list"
  authorities :: "'n rr list"
  additionals :: "'n rr list"
  edns :: "edns option"
  signature :: "bytes option"

subsection \<open>The library interface\<close>

text \<open>Encoded messages are a type parameter \<open>'w\<close> too; the sources only store them, measure
  them and hand them to the decoder, which also returns the bytes it did not consume.\<close>

record ('n, 'w) dns_ops =
  to_lowercase :: "'n \<Rightarrow> 'n"
  set_fqdn :: "'n \<Rightarrow> 'n"
  zone_of :: "'n \<Rightarrow> 'n \<Rightarrow> bool"
  label_count :: "'n \<Rightarrow> nat"
  name_len :: "'n \<Rightarrow> nat"
  edns_new :: edns
  opt_get :: "edns_code \<Rightarrow> edns_options \<Rightarrow> edns_option option"
  opt_insert :: "edns_option \<Rightarrow> edns_options \<Rightarrow> edns_options"
  opt_remove :: "edns_code \<Rightarrow> edns_options \<Rightarrow> edns_options"
  error_msg :: "nat \<Rightarrow> op_code \<Rightarrow> response_code \<Rightarrow> 'n message"
  to_vec :: "'n message \<Rightarrow> 'w option"
  read_message :: "'w \<Rightarrow> ('n message \<times> bytes) option"
  read_header :: "'w \<Rightarrow> (nat \<times> message_type \<times> op_code) option"
  wire_bytes :: "'w \<Rightarrow> bytes"
  from_ascii :: "string \<Rightarrow> 'n option"
  parse_type :: "string \<Rightarrow> record_type option"

abbreviation wire_len :: "('n, 'w) dns_ops \<Rightarrow> 'w \<Rightarrow> nat" where
  "wire_len D w \<equiv> length (wire_bytes D w)"

text \<open>
  What the sources rely on. Names: lower-casing does not change a name up to \<open>Name::eq\<close>, and
  \<open>zone_of\<close> is a preorder (a zone contains itself and the zones of its subzones). EDNS options:
  the laws of insertion, removal and lookup by code; an option with a code that is already
  present may be hidden by the earlier one. \<open>error_msg\<close> builds an empty response with the
  given identity. An encoded message decodes to itself and leaves nothing behind.
\<close>

locale dns_library =
  fixes D :: "('n, 'w) dns_ops"
  assumes to_lowercase_eq: "to_lowercase D n = n"
    and set_fqdn_idem: "set_fqdn D (set_fqdn D n) = set_fqdn D n"
    and zone_of_refl: "zone_of D n n"
    and zone_of_trans: "zone_of D n m \<Longrightarrow> zone_of D m k \<Longrightarrow> zone_of D n k"
    and edns_new_eq: "version (edns_new D) = 0" "options (edns_new D) = []" "dnssec_ok (edns_new D) = False"
    and opt_get_insert: "opt_get D (option_code opt) os = None \<Longrightarrow>
      opt_get D (option_code opt) (opt_insert D opt os) = Some opt"
    and opt_get_insert_other: "c \<noteq> option_code opt \<Longrightarrow> opt_get D c (opt_insert D opt os) = opt_get D c os"
    and opt_get_remove: "opt_get D c (opt_remove D c' os) = (if c = c' then None else opt_get D c os)"
    and opt_get_mem: "opt_get D c os = None \<longleftrightarrow> c \<notin> fst ` set os"
    and opt_codes_insert: "fst ` set (opt_insert D opt os) = insert (option_code opt) (fst ` set os)"
    and opt_codes_remove: "fst ` set (opt_remove D c os) = fst ` set os - {c}"
    and error_msg_eq: "error_msg D i op rc = \<lparr>id = i, message_type = MResponse, op_code = op, response_code = rc,
       truncation = False, recursion_desired = False, recursion_available = False, authentic_data = False,
       checking_disabled = False, queries = [], answers = [], authorities = [], additionals = [],
       edns = None, signature = None\<rparr>"
    and read_to_vec: "to_vec D msg = Some w \<Longrightarrow> read_message D w = Some (msg, [])"

subsection \<open>An instance\<close>

text \<open>Names as lists of lower-case labels, options as a list searched from the front, and
  messages that are their own encoding, with a size that grows with every record and option.\<close>

type_synonym ref_name = "string list"

fun option_len :: "edns_option \<Rightarrow> nat" where
  "option_len (Subnet cs) = 4 + (source_prefix cs + 7) div 8"
| "option_len (Unknown _ bs) = length bs"

definition ref_wire_len :: "ref_name message \<Rightarrow> nat" where
  "ref_wire_len m = 12 + 8 * length (queries m)
     + 16 * (length (answers m) + length (authorities m) + length (additionals m))
     + (case edns m of None \<Rightarrow> 0 | Some e \<Rightarrow> 11 + sum_list (map (\<lambda>p. 4 + option_len (snd p)) (options e)))"

fun split_dots :: "string \<Rightarrow> string list" where
  "split_dots [] = []"
| "split_dots (c # s) =
     (if c = CHR ''.'' then [] # split_dots s
      else case split_dots s of [] \<Rightarrow> [[c]] | l # ls \<Rightarrow> (c # l) # ls)"

definition ref_dns :: "(ref_name, ref_name message) dns_ops" where
  "ref_dns = \<lparr>
     to_lowercase = (\<lambda>n. n), set_fqdn = (\<lambda>n. n),
     zone_of = (\<lambda>z n. drop (length n - length z) n = z),
     label_count = length, name_len = (\<lambda>n. sum_list (map length n) + length n),
     edns_new = \<lparr>version = 0, max_payload = 512, dnssec_ok = False, options = []\<rparr>,
     opt_get = (\<lambda>c os. map_of os c),
     opt_insert = (\<lambda>opt os. os @ [(option_code opt, opt)]),
     opt_remove = (\<lambda>c os. filter (\<lambda>p. fst p \<noteq> c) os),
     error_msg = (\<lambda>i op rc. \<lparr>id = i, message_type = MResponse, op_code = op, response_code = rc,
       truncation = False, recursion_desired = False, recursion_available = False, authentic_data = False,
       checking_disabled = False, queries = [], answers = [], authorities = [], additionals = [],
       edns = None, signature = None\<rparr>),
     to_vec = Some, read_message = (\<lambda>m. Some (m, [])),
     read_header = (\<lambda>m. Some (id m, message_type m, op_code m)),
     wire_bytes = (\<lambda>m. replicate (ref_wire_len m) 0),
     from_ascii = (\<lambda>s. Some (split_dots s)),
     parse_type = (\<lambda>s. if s = ''A'' then Some A else if s = ''AAAA'' then Some AAAA else None)\<rparr>"

lemma ref_dns_sel [simp]:
  "to_lowercase ref_dns n = n" "set_fqdn ref_dns n = n"
  "zone_of ref_dns z n = (drop (length n - length z) n = z)"
  "label_count ref_dns n = length n" "name_len ref_dns n = sum_list (map length n) + length n"
  "edns_new ref_dns = \<lparr>version = 0, max_payload = 512, dnssec_ok = False, options = []\<rparr>"
  "opt_get ref_dns c os = map_of os c"
  "opt_insert ref_dns opt os = os @ [(option_code opt, opt)]"
  "opt_remove ref_dns c os = filter (\<lambda>p. fst p \<noteq> c) os"
  "to_vec ref_dns m = Some m" "read_message ref_dns m = Some (m, [])"
  "read_header ref_dns m = Some (id m, message_type m, op_code m)"
  "wire_bytes ref_dns m = replicate (ref_wire_len m) 0"
  "from_ascii ref_dns s = Some (split_dots s)"
  "parse_type ref_dns s = (if s = ''A'' then Some A else if s = ''AAAA'' then Some AAAA else None)"
  "error_msg ref_dns i op rc = \<lparr>id = i, message_type = MResponse, op_code = op, response_code = rc,
       truncation = False, recursion_desired = False, recursion_available = False, authentic_data = False,
       checking_disabled = False, queries = [], answers = [], authorities = [], additionals = [],
       edns = None, signature = None\<rparr>"
  by (simp_all add: ref_dns_def)

lemma drop_suffix_trans:
  assumes "drop (length m - length n) m = n" and "drop (length k - length m) k = m"
  shows "drop (length k - length n) k = n"
proof -
  from assms(2) have "length m \<le> length k" by (metis length_drop diff_le_self)
  moreover from assms(1) have "length n \<le> length m" by (metis length_drop diff_le_self)
  moreover have "drop (length m - length n) (drop (length k - length m) k) = n" using assms by simp
  ultimately show ?thesis by (simp add: drop_drop add.commute)
qed

lemma map_of_filter_key: "map_of (filter (\<lambda>p. fst p \<noteq> k) xs) c = (if c = k then None else map_of xs c)"
  by (induction xs) auto

interpretation ref_lib: dns_library ref_dns
proof unfold_locales
  fix c os
  show "opt_get ref_dns c os = None \<longleftrightarrow> c \<notin> fst ` set os"
    by (simp add: map_of_eq_None_iff)
qed (auto simp: map_add_def map_of_filter_key drop_suffix_trans split: option.splits)

end
