(* ===== verification/Ecs.thy ===== *)
theory Ecs
  imports Dns
begin

text \<open>
  EDNS Client Subnet, \<open>src/src/ecs.rs\<close>: what a forwarded query says about the client
  (\<open>prepare\<close>), which cache namespace an answer belongs to (\<open>source_scope\<close>,
  \<open>response_scope\<close>), which clients a namespace serves (\<open>matches\<close>), the reply's option
  (\<open>finish\<close>) and the textual form of a namespace (\<open>tag\<close>, \<open>parse_tag\<close>).
\<close>

definition MAX_UDP_PAYLOAD :: nat where
  "MAX_UDP_PAYLOAD = 1232"

datatype scope =
    NoEcs
  | Privacy bool
  | Network ip_net
  | ExactSource ip_net
  | Learned bool

record scope_pair =
  rs_cache :: "scope option"
  rs_reply :: "nat option"

record ecs_context =
  outgoing :: "client_subnet option"
  incoming :: "client_subnet option"

record ecs_config =
  ecs_enabled :: bool
  ipv4_prefix :: nat
  ipv6_prefix :: nat

definition ecs_config_default :: ecs_config where
  "ecs_config_default = \<lparr>ecs_enabled = False, ipv4_prefix = 24, ipv6_prefix = 56\<rparr>"

definition subnet :: "('n, 'w) dns_ops \<Rightarrow> 'n message \<Rightarrow> client_subnet option" where
  "subnet D m = (case edns m of
     None \<Rightarrow> None
   | Some e \<Rightarrow> (case opt_get D code_Subnet (options e) of Some (Subnet s) \<Rightarrow> Some s | _ \<Rightarrow> None))"

text \<open>An edit of a message's OPT record, when it has one.\<close>

definition map_edns :: "(edns \<Rightarrow> edns) \<Rightarrow> 'n message \<Rightarrow> 'n message" where
  "map_edns f m = m\<lparr>edns := map_option f (edns m)\<rparr>"

definition edns_remove :: "('n, 'w) dns_ops \<Rightarrow> edns_code \<Rightarrow> edns \<Rightarrow> edns" where
  "edns_remove D c e = e\<lparr>options := opt_remove D c (options e)\<rparr>"

definition edns_insert :: "('n, 'w) dns_ops \<Rightarrow> edns_option \<Rightarrow> edns \<Rightarrow> edns" where
  "edns_insert D opt e = e\<lparr>options := opt_insert D opt (options e)\<rparr>"

definition set_subnet :: "('n, 'w) dns_ops \<Rightarrow> 'n message \<Rightarrow> client_subnet option \<Rightarrow> 'n message" where
  "set_subnet D m sub =
     (let m1 = map_edns (edns_remove D code_Subnet) m in
      case sub of
        None \<Rightarrow> m1
      | Some s \<Rightarrow>
          (let e = (case edns m1 of
                      Some e \<Rightarrow> e
                    | None \<Rightarrow> (edns_new D)\<lparr>max_payload := MAX_UDP_PAYLOAD\<rparr>)
           in m1\<lparr>edns := Some (edns_insert D (Subnet s) e)\<rparr>))"

definition client_subnet_new :: "ip_addr \<Rightarrow> nat \<Rightarrow> nat \<Rightarrow> client_subnet" where
  "client_subnet_new a source sc = \<lparr>cs_addr = a, source_prefix = source, scope_prefix = sc\<rparr>"

definition ecs_cap :: "ecs_config \<Rightarrow> ip_addr \<Rightarrow> nat" where
  "ecs_cap cfg a = (if is_ipv4 a then ipv4_prefix cfg else ipv6_prefix cfg)"

text \<open>The address and the prefix length to send: the client's own option when it is for a
  network that contains the client, or a request for privacy; the peer's network otherwise.\<close>

definition choose_subnet ::
  "net_ops \<Rightarrow> ecs_config \<Rightarrow> client_subnet option \<Rightarrow> ip_addr \<Rightarrow> response_code + (ip_addr \<times> nat)" where
  "choose_subnet N cfg inc peer =
     (case inc of
        Some e \<Rightarrow>
          (case net_new N (cs_addr e) (source_prefix e) of
             None \<Rightarrow> Inl FormErr
           | Some network \<Rightarrow>
               if 0 < source_prefix e \<and> \<not> contains N network peer then Inl Refused
               else Inr (cs_addr e, min (source_prefix e) (ecs_cap cfg (cs_addr e))))
      | None \<Rightarrow> Inr (peer, ecs_cap cfg peer))"

text \<open>\<open>Context::prepare\<close>; the outer option is the panic of indexing a missing question.\<close>

definition prepare ::
  "net_ops \<Rightarrow> ('n, 'w) dns_ops \<Rightarrow> 'n message \<Rightarrow> ip_addr \<Rightarrow> ecs_config \<Rightarrow>
   (response_code + ('n message \<times> ecs_context)) option" where
  "prepare N D query peer cfg =
     (let inc = subnet D query in
      if (case inc of Some e \<Rightarrow> scope_prefix e \<noteq> 0 | None \<Rightarrow> False) then Some (Inl FormErr) else
      (let oq = map_edns (\<lambda>e. e\<lparr>max_payload := min (max_payload e) MAX_UDP_PAYLOAD\<rparr>) query in
       if \<not> ecs_enabled cfg then
         Some (Inr (set_subnet D oq None, \<lparr>outgoing = None, incoming = None\<rparr>))
       else case queries query of
         [] \<Rightarrow> None
       | q # _ \<Rightarrow>
         if query_class q \<noteq> IN then
           Some (Inr (set_subnet D oq None, \<lparr>outgoing = None, incoming = None\<rparr>))
         else
           (case choose_subnet N cfg inc (unmap_peer peer) of
              Inl err \<Rightarrow> Some (Inl err)
            | Inr (address, source) \<Rightarrow>
                (case net_new N address source of
                   None \<Rightarrow> Some (Inl FormErr)
                 | Some network \<Rightarrow>
                     (let out = client_subnet_new (net_addr (trunc N network)) source 0
                      in Some (Inr (set_subnet D oq (Some out),
                                    \<lparr>outgoing = Some out, incoming = inc\<rparr>)))))))"

definition source_scope :: "net_ops \<Rightarrow> ecs_context \<Rightarrow> scope option" where
  "source_scope N ctx = (case outgoing ctx of
     None \<Rightarrow> Some NoEcs
   | Some sent \<Rightarrow>
       if source_prefix sent = 0 then Some (Privacy (is_ipv4 (cs_addr sent)))
       else map_option (\<lambda>n. ExactSource (trunc N n)) (net_new N (cs_addr sent) (source_prefix sent)))"

fun scope_prefix_len :: "scope \<Rightarrow> nat" where
  "scope_prefix_len (Network n) = prefix_len n"
| "scope_prefix_len (ExactSource n) = prefix_len n"
| "scope_prefix_len _ = 0"

fun reply_scope :: "scope \<Rightarrow> client_subnet option \<Rightarrow> nat option" where
  "reply_scope NoEcs _ = None"
| "reply_scope (Learned _) out = map_option source_prefix out"
| "reply_scope s _ = Some (scope_prefix_len s)"

definition response_scope :: "net_ops \<Rightarrow> ('n, 'w) dns_ops \<Rightarrow> ecs_context \<Rightarrow> 'n message \<Rightarrow> scope_pair" where
  "response_scope N D ctx response =
     (let received = subnet D response;
          cache =
            (case (outgoing ctx, received) of
               (_, None) \<Rightarrow> source_scope N ctx
             | (Some sent, Some rec) \<Rightarrow>
                 if cs_addr rec = cs_addr sent \<and> source_prefix rec = source_prefix sent
                    \<and> scope_prefix rec \<le> source_prefix sent
                 then (if source_prefix sent = 0 then Some (Privacy (is_ipv4 (cs_addr sent)))
                       else map_option (\<lambda>n. Network (trunc N n)) (net_new N (cs_addr sent) (scope_prefix rec)))
                 else None
             | (None, Some _) \<Rightarrow> None);
          reply = (case cache of Some s \<Rightarrow> reply_scope s (outgoing ctx) | None \<Rightarrow> None)
      in \<lparr>rs_cache = cache,
          rs_reply = (case reply of Some r \<Rightarrow> Some r | None \<Rightarrow> map_option scope_prefix received)\<rparr>)"

definition finish ::
  "('n, 'w) dns_ops \<Rightarrow> ecs_context \<Rightarrow> 'n message \<Rightarrow> 'n message \<Rightarrow> nat option \<Rightarrow> 'n message" where
  "finish D ctx query response sc =
     (let r1 = response\<lparr>id := id query, recursion_desired := recursion_desired query,
                 checking_disabled := checking_disabled query, authentic_data := False,
                 queries := queries query\<rparr>;
          r2 = set_subnet D r1 None;
          r3 = (case edns query of
                  Some client \<Rightarrow>
                    (let e = (case edns r2 of Some e \<Rightarrow> e | None \<Rightarrow> edns_new D);
                         e = e\<lparr>max_payload := MAX_UDP_PAYLOAD, dnssec_ok := dnssec_ok client\<rparr>;
                         e = (if opt_get D code_Cookie (options client) = None
                              then edns_remove D code_Cookie e else e)
                     in r2\<lparr>edns := Some e\<rparr>)
                | None \<Rightarrow> r2\<lparr>edns := None\<rparr>)
      in case incoming ctx of
           Some original \<Rightarrow>
             set_subnet D r3 (Some (client_subnet_new (cs_addr original) (source_prefix original)
               (case sc of Some s \<Rightarrow> s | None \<Rightarrow> source_prefix original)))
         | None \<Rightarrow> r3)"

definition response_matches :: "('n, 'w) dns_ops \<Rightarrow> 'n message \<Rightarrow> 'n message \<Rightarrow> bool" where
  "response_matches D query response =
     (case (subnet D query, subnet D response) of
        (_, None) \<Rightarrow> True
      | (Some sent, Some rec) \<Rightarrow> cs_addr sent = cs_addr rec \<and> source_prefix sent = source_prefix rec
      | (None, Some _) \<Rightarrow> False)"

fun matches :: "net_ops \<Rightarrow> scope \<Rightarrow> client_subnet option \<Rightarrow> bool" where
  "matches N NoEcs None = True"
| "matches N (Privacy v4) (Some e) = (source_prefix e = 0 \<and> v4 = is_ipv4 (cs_addr e))"
| "matches N (Network n) (Some e) =
     (0 < source_prefix e \<and> prefix_len n \<le> source_prefix e \<and> contains N n (cs_addr e))"
| "matches N (ExactSource n) (Some e) =
     (0 < source_prefix e \<and> prefix_len n = source_prefix e \<and>
      (case net_new N (cs_addr e) (source_prefix e) of None \<Rightarrow> False | Some sent \<Rightarrow> trunc N sent = n))"
| "matches N (Learned v4) (Some e) = (0 < source_prefix e \<and> v4 = is_ipv4 (cs_addr e))"
| "matches N _ _ = False"

subsection \<open>Textual namespaces\<close>

text \<open>Printing and parsing of networks is \<open>ipnet\<close>'s: printed networks parse back and use only
  hexadecimal digits, colons, dots and a slash.\<close>

record net_text =
  net_show :: "ip_net \<Rightarrow> string"
  net_parse :: "string \<Rightarrow> ip_net option"

definition cidr_chars :: "char set" where
  "cidr_chars = set ''0123456789abcdef:./''"

locale network_text =
  fixes T :: net_text
  assumes parse_show: "net_parse T (net_show T n) = Some n"
    and show_chars: "set (net_show T n) \<subseteq> cidr_chars"
    and show_slash: "CHR ''/'' \<in> set (net_show T n)"

definition EXACT_TAG :: string where
  "EXACT_TAG = ''exact_ecs:''"

fun tag :: "net_text \<Rightarrow> scope \<Rightarrow> string" where
  "tag T NoEcs = ''no_ecs''"
| "tag T (Privacy v4) = (if v4 then ''privacy_v4'' else ''privacy_v6'')"
| "tag T (Network n) = net_show T n"
| "tag T (ExactSource n) = EXACT_TAG @ net_show T n"
| "tag T (Learned v4) = (if v4 then ''learned_v4'' else ''learned_v6'')"

definition strip_prefix :: "string \<Rightarrow> string \<Rightarrow> string option" where
  "strip_prefix p s = (if take (length p) s = p then Some (drop (length p) s) else None)"

definition parse_tag :: "net_ops \<Rightarrow> net_text \<Rightarrow> string \<Rightarrow> string + scope" where
  "parse_tag N T text =
     (if text = ''no_ecs'' then Inr NoEcs
      else if text = ''privacy_v4'' then Inr (Privacy True)
      else if text = ''privacy_v6'' then Inr (Privacy False)
      else if text = ''learned_v4'' then Inr (Learned True)
      else if text = ''learned_v6'' then Inr (Learned False)
      else case strip_prefix EXACT_TAG text of
        Some network \<Rightarrow>
          (case net_parse T network of
             None \<Rightarrow> Inl ''invalid network''
           | Some parsed \<Rightarrow>
               if 0 < prefix_len parsed \<and> parsed = trunc N parsed \<and> network = net_show T parsed
               then Inr (ExactSource parsed)
               else Inl ''exact ECS scope requires a nonzero canonical CIDR'')
      | None \<Rightarrow>
          (case net_parse T text of
             None \<Rightarrow> Inl ''invalid network''
           | Some parsed \<Rightarrow> Inr (Network (trunc N parsed))))"

subsection \<open>Options of edited messages\<close>

lemma edns_map_edns [simp]: "edns (map_edns f m) = map_option f (edns m)"
  by (simp add: map_edns_def)

lemma map_edns_fields [simp]:
  "queries (map_edns f m) = queries m" "id (map_edns f m) = id m"
  "authentic_data (map_edns f m) = authentic_data m"
  by (simp_all add: map_edns_def)

context dns_library
begin

lemma subnet_remove [simp]: "subnet D (map_edns (edns_remove D code_Subnet) m) = None"
  by (simp add: subnet_def edns_remove_def opt_get_remove split: option.splits)

lemma subnet_set_subnet [simp]: "subnet D (set_subnet D m sub) = sub"
proof (cases sub)
  case None
  then show ?thesis by (simp add: set_subnet_def)
next
  case (Some s)
  have "opt_get D (option_code (Subnet s)) [] = None" by (simp add: opt_get_mem)
  then have "opt_get D code_Subnet (opt_insert D (Subnet s) []) = Some (Subnet s)"
    using opt_get_insert[of "Subnet s" "[]"] by simp
  moreover have "opt_get D code_Subnet (opt_insert D (Subnet s) (opt_remove D code_Subnet os)) = Some (Subnet s)" for os
    using opt_get_insert[of "Subnet s"] by (simp add: opt_get_remove)
  ultimately show ?thesis using Some
    by (simp add: set_subnet_def subnet_def edns_insert_def edns_remove_def edns_new_eq split: option.splits)
qed

lemma set_subnet_fields [simp]:
  "queries (set_subnet D m sub) = queries m" "id (set_subnet D m sub) = id m"
  "authentic_data (set_subnet D m sub) = authentic_data m"
  by (simp_all add: set_subnet_def Let_def split: option.splits)

end

text \<open>An instance: addresses as their bits, prefix lengths in unary.\<close>

fun bits_show :: "ip_net \<Rightarrow> string" where
  "bits_show n = (case net_addr n of
     V4 w \<Rightarrow> CHR ''.'' # map (\<lambda>i. if bit w i then CHR ''1'' else CHR ''0'') [0..<32]
   | V6 w \<Rightarrow> CHR '':'' # map (\<lambda>i. if bit w i then CHR ''1'' else CHR ''0'') [0..<128])
   @ CHR ''/'' # replicate (prefix_len n) (CHR ''1'')"

definition bits_value :: "string \<Rightarrow> 'a::len word" where
  "bits_value s = horner_sum of_bool 2 (map (\<lambda>c. c = CHR ''1'') s)"

fun bits_parse :: "string \<Rightarrow> ip_net option" where
  "bits_parse [] = None"
| "bits_parse (c # s) =
     (let p = length (dropWhile (\<lambda>c. c \<noteq> CHR ''/'') s) - 1;
          b = takeWhile (\<lambda>c. c \<noteq> CHR ''/'') s
      in if c = CHR ''.'' then Some \<lparr>net_addr = V4 (bits_value b), prefix_len = p\<rparr>
         else if c = CHR '':'' then Some \<lparr>net_addr = V6 (bits_value b), prefix_len = p\<rparr>
         else None)"

definition bits_text :: net_text where
  "bits_text = \<lparr>net_show = bits_show, net_parse = bits_parse\<rparr>"

lemma bits_value_bits:
  "bits_value (map (\<lambda>i. if bit (w :: 'a::len word) i then CHR ''1'' else CHR ''0'') [0..<LENGTH('a)]) = w"
proof -
  have "map ((\<lambda>c. c = CHR ''1'') \<circ> (\<lambda>i. if bit w i then CHR ''1'' else CHR ''0'')) [0..<LENGTH('a)]
      = map (bit w) [0..<LENGTH('a)]" by simp
  then show ?thesis
    unfolding bits_value_def map_map by (simp only: horner_sum_bit_eq_take_bit) simp
qed

lemmas bits_value_V4 = bits_value_bits[where 'a=32, simplified]
lemmas bits_value_V6 = bits_value_bits[where 'a=128, simplified]

lemma takeWhile_bits:
  "takeWhile (\<lambda>c. c \<noteq> CHR ''/'') (map (\<lambda>i. if P i then CHR ''1'' else CHR ''0'') is @ CHR ''/'' # s)
     = map (\<lambda>i. if P i then CHR ''1'' else CHR ''0'') is"
  "dropWhile (\<lambda>c. c \<noteq> CHR ''/'') (map (\<lambda>i. if P i then CHR ''1'' else CHR ''0'') is @ CHR ''/'' # s)
     = CHR ''/'' # s"
  by (induction "is") auto

interpretation bits_net: network_text bits_text
proof unfold_locales
  fix n :: ip_net
  show "net_parse bits_text (net_show bits_text n) = Some n"
    by (cases n; cases "net_addr n")
      (simp_all add: bits_text_def takeWhile_bits bits_value_V4 bits_value_V6 del: upt_conv_Cons upt_rec_numeral)
  show "set (net_show bits_text n) \<subseteq> cidr_chars"
    by (cases "net_addr n") (auto simp: bits_text_def cidr_chars_def split: if_splits)
  show "CHR ''/'' \<in> set (net_show bits_text n)"
    by (cases "net_addr n") (auto simp: bits_text_def)
qed

definition scope_wf :: "net_ops \<Rightarrow> scope \<Rightarrow> bool" where
  "scope_wf N s = (case s of
     Network n \<Rightarrow> trunc N n = n
   | ExactSource n \<Rightarrow> trunc N n = n \<and> 0 < prefix_len n
   | _ \<Rightarrow> True)"

lemma strip_prefix_append [simp]: "strip_prefix p (p @ s) = Some s"
  by (simp add: strip_prefix_def)


lemma strip_EXACT_None:
  assumes "set s \<subseteq> cidr_chars"
  shows "strip_prefix EXACT_TAG s = None"
proof (rule ccontr)
  assume "strip_prefix EXACT_TAG s \<noteq> None"
  then have "take (length EXACT_TAG) s = EXACT_TAG" by (auto simp: strip_prefix_def split: if_splits)
  then have "set EXACT_TAG \<subseteq> cidr_chars" using assms set_take_subset[of "length EXACT_TAG" s] by auto
  then show False by (simp add: EXACT_TAG_def cidr_chars_def)
qed

context network_text
begin

lemma show_not_tag [simp]:
  "net_show T n \<noteq> ''no_ecs''" "net_show T n \<noteq> ''privacy_v4''" "net_show T n \<noteq> ''privacy_v6''"
  "net_show T n \<noteq> ''learned_v4''" "net_show T n \<noteq> ''learned_v6''"
  using show_slash[of n] by auto

lemma exact_not_tag [simp]:
  "EXACT_TAG @ s \<noteq> ''no_ecs''" "EXACT_TAG @ s \<noteq> ''privacy_v4''" "EXACT_TAG @ s \<noteq> ''privacy_v6''"
  "EXACT_TAG @ s \<noteq> ''learned_v4''" "EXACT_TAG @ s \<noteq> ''learned_v6''"
  by (simp_all add: EXACT_TAG_def)

lemma strip_show [simp]: "strip_prefix EXACT_TAG (net_show T n) = None"
  using show_chars by (rule strip_EXACT_None)

lemma tag_roundtrip: "scope_wf N s \<Longrightarrow> parse_tag N T (tag T s) = Inr s"
  by (cases s) (auto simp: parse_tag_def scope_wf_def parse_show)

end

text \<open>C8. The textual form of a cache namespace parses back to it.\<close>

theorem parse_tag_tag:
  assumes "network_text T" and "scope_wf N s"
  shows "parse_tag N T (tag T s) = Inr s"
  using assms by (rule network_text.tag_roundtrip)

theorem parse_tag_tag_witness:
  "parse_tag cidr bits_text (tag bits_text (ExactSource \<lparr>net_addr = V4 0xC0000200, prefix_len = 24\<rparr>)) =
     Inr (ExactSource \<lparr>net_addr = V4 0xC0000200, prefix_len = 24\<rparr>)"
  by (rule parse_tag_tag[OF bits_net.network_text_axioms]) (simp add: scope_wf_def keep_high_def mask_eq_exp_minus_1)

subsection \<open>Which clients a namespace serves\<close>

context ip_network
begin

lemma source_scope_matches: "source_scope N ctx = Some s \<Longrightarrow> matches N s (outgoing ctx)"
  by (auto simp: source_scope_def new_Some_iff split: option.splits if_splits)

lemma source_scope_wf: "source_scope N ctx = Some s \<Longrightarrow> scope_wf N s"
  by (auto simp: source_scope_def scope_wf_def new_Some_iff split: option.splits if_splits)

lemma contains_own [simp]: "contains N \<lparr>net_addr = a, prefix_len = p\<rparr> a"
  by (simp add: contains_iff)

lemma response_scope_cases:
  assumes "rs_cache (response_scope N D ctx r) = Some s"
  obtains (unscoped) "subnet D r = None" "source_scope N ctx = Some s"
  | (privacy) sent rec where "subnet D r = Some rec" "outgoing ctx = Some sent" "source_prefix sent = 0"
      "scope_prefix rec = 0" "s = Privacy (is_ipv4 (cs_addr sent))"
  | (scoped) sent rec where "subnet D r = Some rec" "outgoing ctx = Some sent" "0 < source_prefix sent"
      "scope_prefix rec \<le> source_prefix sent" "scope_prefix rec \<le> addr_bits (cs_addr sent)"
      "s = Network \<lparr>net_addr = mask_addr (scope_prefix rec) (cs_addr sent), prefix_len = scope_prefix rec\<rparr>"
  using assms by (auto simp: response_scope_def Let_def new_Some_iff trunc_eq split: option.splits if_splits)

lemma response_scope_matches: "rs_cache (response_scope N D ctx r) = Some s \<Longrightarrow> matches N s (outgoing ctx)"
  by (erule response_scope_cases) (auto simp: source_scope_matches contains_iff)

lemma response_scope_wf: "rs_cache (response_scope N D ctx r) = Some s \<Longrightarrow> scope_wf N s"
  by (erule response_scope_cases) (simp_all add: source_scope_wf, simp_all add: scope_wf_def trunc_eq)

lemma exact_matches_iff:
  "matches N (ExactSource n) (Some c) \<longleftrightarrow>
     0 < source_prefix c \<and> source_prefix c \<le> addr_bits (cs_addr c) \<and>
     n = \<lparr>net_addr = mask_addr (source_prefix c) (cs_addr c), prefix_len = source_prefix c\<rparr>"
  by (cases "source_prefix c \<le> addr_bits (cs_addr c)") (auto simp: new_ok new_err trunc_eq)


lemma source_scope_only:
  assumes "source_scope N ctx = Some s" and "matches N s c" and "outgoing ctx = Some sent"
  shows "\<exists>c'. c = Some c' \<and> source_prefix c' = source_prefix sent \<and>
    mask_addr (source_prefix sent) (cs_addr c') = mask_addr (source_prefix sent) (cs_addr sent)"
proof -
  obtain c' where [simp]: "c = Some c'"
    using assms by (cases c) (auto simp: source_scope_def split: if_splits option.splits)
  show ?thesis
  proof (cases "source_prefix sent = 0")
    case True
    with assms show ?thesis 
      by (cases "cs_addr c'"; cases "cs_addr sent") (auto simp: source_scope_def)
  next
    case False
    with assms obtain n where "s = ExactSource n" "n = trunc N \<lparr>net_addr = cs_addr sent, prefix_len = source_prefix sent\<rparr>"
      by (auto simp: source_scope_def new_Some_iff)
    with assms(2) show ?thesis by (auto simp: exact_matches_iff trunc_eq simp del: matches.simps)
  qed
qed

lemma response_scope_only:
  assumes "rs_cache (response_scope N D ctx r) = Some s" and "matches N s c" and "outgoing ctx = Some sent"
    and "p = (case subnet D r of None \<Rightarrow> source_prefix sent | Some rec \<Rightarrow> scope_prefix rec)"
  shows "\<exists>c'. c = Some c' \<and> (source_prefix c' = 0 \<longleftrightarrow> source_prefix sent = 0) \<and> p \<le> source_prefix c' \<and>
    mask_addr p (cs_addr c') = mask_addr p (cs_addr sent)"
  using assms(1)
proof (cases rule: response_scope_cases)
  case unscoped
  with source_scope_only[OF unscoped(2) assms(2,3)] assms(4) show ?thesis by auto
next
  case (privacy sent' rec)
  with assms show ?thesis by (cases c; cases "cs_addr sent"; cases "cs_addr (the c)") auto
next
  case (scoped sent' rec)
  with assms show ?thesis by (cases c) (auto simp: contains_iff)
qed

end

text \<open>C6. An answer is stored in a namespace that serves the client it was fetched for, and no
  client outside the network the upstream answered for: every client it serves agrees with
  the sent address on the bits of the response scope (all the sent bits when the upstream
  gave no scope), a privacy request only shares with privacy requests of its family, and a
  query without a subnet only with queries without one.\<close>

theorem ecs_scope_sound:
  assumes "ip_network N" and "rs_cache (response_scope N D ctx r) = Some s"
  shows "matches N s (outgoing ctx) \<and> scope_wf N s \<and>
    (\<forall>c. matches N s c \<longrightarrow>
      (case outgoing ctx of
         None \<Rightarrow> c = None
       | Some sent \<Rightarrow>
           (let p = (case subnet D r of None \<Rightarrow> source_prefix sent | Some rec \<Rightarrow> scope_prefix rec) in
            \<exists>c'. c = Some c' \<and> (source_prefix c' = 0 \<longleftrightarrow> source_prefix sent = 0) \<and> p \<le> source_prefix c' \<and>
              mask_addr p (cs_addr c') = mask_addr p (cs_addr sent))))"
proof -
  have "c = None" if "matches N s c" "outgoing ctx = None" for c
    by (rule ip_network.response_scope_cases[OF assms]; use that in \<open>cases c; auto simp: source_scope_def\<close>)
  with assms show ?thesis
    by (auto simp: ip_network.response_scope_matches ip_network.response_scope_wf Let_def 
        ip_network.response_scope_only[OF assms] split: option.splits)
qed

subsection \<open>Forwarded queries\<close>

context ip_network
begin

lemma choose_subnet_ok:
  assumes "choose_subnet N cfg inc peer = Inr (a, p)"
  shows "p \<le> ecs_cap cfg a"
    and "0 < p \<Longrightarrow> mask_addr p a = mask_addr p peer"
    and "inc = Some e \<Longrightarrow> p \<le> source_prefix e"
proof -
  have "mask_addr (min p k) a = mask_addr (min p k) b" if "mask_addr p b = mask_addr p a" for p k a b
    using mask_addr_mono[OF that, of "min p k"] by simp
  with assms show "p \<le> ecs_cap cfg a" "0 < p \<Longrightarrow> mask_addr p a = mask_addr p peer"
    "inc = Some e \<Longrightarrow> p \<le> source_prefix e"
    by (auto simp: choose_subnet_def new_Some_iff contains_iff split: option.splits if_splits)
qed

lemma prepare_cases:
  assumes "prepare N D q peer cfg = Some (Inr (oq, ctx))"
  obtains (none) m where "oq = set_subnet D m None" "queries m = queries q" "outgoing ctx = None" "incoming ctx = None"
      "\<not> ecs_enabled cfg \<or> query_class (hd (queries q)) \<noteq> IN"
  | (sent) m a p out where "oq = set_subnet D m (Some out)" "queries m = queries q" "outgoing ctx = Some out" "incoming ctx = subnet D q"
      "ecs_enabled cfg" "query_class (hd (queries q)) = IN" "choose_subnet N cfg (subnet D q) (unmap_peer peer) = Inr (a, p)" "p \<le> addr_bits a"
      "out = \<lparr>cs_addr = mask_addr p a, source_prefix = p, scope_prefix = 0\<rparr>"
  using assms unfolding prepare_def Let_def
  by (auto simp: client_subnet_new_def new_Some_iff trunc_eq
      split: option.splits if_splits list.splits sum.splits)

end

text \<open>C5. A forwarded query tells the upstream no more about the client than the configuration
  allows: the option is absent when client subnets are disabled or the question is not for
  class IN; otherwise it carries at most the configured number of address bits and at most
  as many as the client itself asked for, all further bits zero, and a nonempty prefix is
  the prefix of the very peer that asked.\<close>

theorem ecs_forward_privacy:
  assumes "ip_network N" and "dns_library D" and "prepare N D q peer cfg = Some (Inr (oq, ctx))"
  shows "queries oq = queries q \<and> subnet D oq = outgoing ctx \<and>
    (outgoing ctx = None \<longleftrightarrow> \<not> ecs_enabled cfg \<or> query_class (hd (queries q)) \<noteq> IN) \<and>
    (\<forall>s. outgoing ctx = Some s \<longrightarrow>
       scope_prefix s = 0 \<and> source_prefix s \<le> ecs_cap cfg (cs_addr s) \<and>
       (\<forall>e. subnet D q = Some e \<longrightarrow> source_prefix s \<le> source_prefix e) \<and>
       mask_addr (source_prefix s) (cs_addr s) = cs_addr s \<and>
       (0 < source_prefix s \<longrightarrow> cs_addr s = mask_addr (source_prefix s) (unmap_peer peer)))"
proof -
  note lib = dns_library.subnet_set_subnet[OF assms(2)] dns_library.set_subnet_fields[OF assms(2)]
  from assms(3) show ?thesis
  proof (cases rule: ip_network.prepare_cases[OF assms(1), consumes 1, case_names none sent])
    case none
    then show ?thesis by (simp add: lib)
  next
    case (sent m a p out)
    note ch = ip_network.choose_subnet_ok[OF assms(1) sent(7)]
    from ch(1) have "p \<le> ecs_cap cfg (mask_addr p a)" by (simp add: ecs_cap_def)
    with sent ch(2,3) show ?thesis by (auto simp: lib)
  qed
qed

definition demo_question :: "ref_name question" where
  "demo_question = \<lparr>q_name = [''example'', ''test''], query_type = A, query_class = IN\<rparr>"

definition demo_edns :: edns where
  "demo_edns = \<lparr>version = 0, max_payload = 4096, dnssec_ok = True,
     options = [(8, Subnet \<lparr>cs_addr = V4 0xC0000280, source_prefix = 32, scope_prefix = 0\<rparr>)]\<rparr>"

definition demo_query :: "ref_name message" where
  "demo_query = \<lparr>id = 7, message_type = MQuery, op_code = OpQuery, response_code = NoError,
     truncation = False, recursion_desired = True, recursion_available = False, authentic_data = False,
     checking_disabled = False, queries = [demo_question], answers = [], authorities = [], additionals = [],
     edns = Some demo_edns, signature = None\<rparr>"

definition demo_ecs :: ecs_config where
  "demo_ecs = \<lparr>ecs_enabled = True, ipv4_prefix = 24, ipv6_prefix = 56\<rparr>"

definition demo_sent :: client_subnet where
  "demo_sent = \<lparr>cs_addr = V4 0xC0000200, source_prefix = 24, scope_prefix = 0\<rparr>"

definition demo_context :: ecs_context where
  "demo_context = \<lparr>outgoing = Some demo_sent,
     incoming = Some \<lparr>cs_addr = V4 0xC0000280, source_prefix = 32, scope_prefix = 0\<rparr>\<rparr>"

definition demo_forward :: "ref_name message" where
  "demo_forward = demo_query\<lparr>edns := Some \<lparr>version = 0, max_payload = 1232, dnssec_ok = True,
     options = [(8, Subnet demo_sent)]\<rparr>\<rparr>"

lemmas demo_defs = demo_question_def demo_edns_def demo_query_def demo_ecs_def demo_sent_def demo_context_def
  demo_forward_def

lemma subnet_demo [simp]:
  "subnet ref_dns demo_query = Some \<lparr>cs_addr = V4 0xC0000280, source_prefix = 32, scope_prefix = 0\<rparr>"
  "subnet ref_dns demo_forward = Some demo_sent"
  by (simp_all add: subnet_def demo_defs edns_codes)

lemma prepare_demo:
  "prepare cidr ref_dns demo_query (V4 0xC0000280) demo_ecs = Some (Inr (demo_forward, demo_context))"
  by (simp add: prepare_def Let_def subnet_def choose_subnet_def ecs_cap_def demo_defs set_subnet_def map_edns_def edns_remove_def edns_insert_def edns_codes
      MAX_UDP_PAYLOAD_def client_subnet_new_def keep_high_def mask_eq_exp_minus_1)

theorem ecs_forward_privacy_witness:
  "subnet ref_dns demo_forward = Some demo_sent \<and>
   cs_addr demo_sent = mask_addr 24 (unmap_peer (V4 0xC0000280))"
  using ecs_forward_privacy[OF cidr_net.ip_network_axioms ref_lib.dns_library_axioms prepare_demo]
  by (simp add: demo_context_def demo_sent_def)

definition demo_answer :: "ref_name message" where
  "demo_answer = demo_forward\<lparr>message_type := MResponse, edns := Some \<lparr>version = 0, max_payload = 1232,
     dnssec_ok = True, options = [(8, Subnet (demo_sent\<lparr>scope_prefix := 16\<rparr>)), (10, Unknown 10 [1])]\<rparr>\<rparr>"

lemma response_scope_demo:
  "rs_cache (response_scope cidr ref_dns demo_context demo_answer) =
     Some (Network \<lparr>net_addr = V4 0xC0000000, prefix_len = 16\<rparr>)"
  by (simp add: response_scope_def subnet_def demo_answer_def demo_defs edns_codes keep_high_def mask_eq_exp_minus_1)

theorem ecs_scope_sound_witness:
  "matches cidr (Network \<lparr>net_addr = V4 0xC0000000, prefix_len = 16\<rparr>) (Some demo_sent)"
  using ecs_scope_sound[OF cidr_net.ip_network_axioms response_scope_demo]
  by (simp add: demo_context_def del: matches.simps)

context dns_library
begin

lemma opt_get_Nil [simp]: "opt_get D c [] = None"
  by (simp add: opt_get_mem)

lemma opt_get_set_subnet_other:
  "c \<noteq> code_Subnet \<Longrightarrow> edns m = Some e \<Longrightarrow> \<exists>e'. edns (set_subnet D m sub) = Some e' \<and>
     opt_get D c (options e') = opt_get D c (options e) \<and> max_payload e' = max_payload e \<and> dnssec_ok e' = dnssec_ok e"
  by (cases sub) (auto simp: set_subnet_def edns_remove_def edns_insert_def opt_get_remove opt_get_insert_other)

lemma edns_set_subnet_None [simp]: "edns (set_subnet D m None) = map_option (edns_remove D code_Subnet) (edns m)"
  by (simp add: set_subnet_def)

lemma subnet_no_edns: "edns m = None \<Longrightarrow> subnet D m = None"
  by (simp add: subnet_def)

lemma subnet_with_edns: "edns m = Some e \<Longrightarrow> subnet D m = subnet D (m'\<lparr>edns := Some e\<rparr>)"
  by (simp add: subnet_def)

text \<open>The OPT record a reply has before the client's own option is echoed.\<close>

lemma reply_opt:
  assumes "e = (let e = (case e0 of Some e \<Rightarrow> edns_remove D code_Subnet e | None \<Rightarrow> edns_new D);
                    e = e\<lparr>max_payload := MAX_UDP_PAYLOAD, dnssec_ok := dnssec_ok client\<rparr>
                in if opt_get D code_Cookie (options client) = None then edns_remove D code_Cookie e else e)"
  shows "opt_get D code_Subnet (options e) = None" "max_payload e = MAX_UDP_PAYLOAD" "dnssec_ok e = dnssec_ok client"
    "opt_get D code_Cookie (options client) = None \<Longrightarrow> opt_get D code_Cookie (options e) = None"
  using assms
  by (auto simp: Let_def edns_remove_def opt_get_remove edns_new_eq split: option.splits)

lemma finish_without_edns:
  assumes "edns query = None" and "incoming ctx = None"
  shows "edns (finish D ctx query response sc) = None"
  using assms by (simp add: finish_def Let_def)

lemma finish_header:
  "id (finish D ctx query response sc) = id query \<and> queries (finish D ctx query response sc) = queries query \<and>
   authentic_data (finish D ctx query response sc) = False"
  by (simp add: finish_def Let_def split: option.splits)

lemma finish_with_edns:
  assumes "edns query = Some client"
  shows "\<exists>e. edns (finish D ctx query response sc) = Some e \<and> max_payload e = MAX_UDP_PAYLOAD \<and>
     dnssec_ok e = dnssec_ok client \<and>
     (opt_get D code_Cookie (options client) = None \<longrightarrow> opt_get D code_Cookie (options e) = None)"
    and "subnet D (finish D ctx query response sc) = map_option (\<lambda>original.
       client_subnet_new (cs_addr original) (source_prefix original)
         (case sc of Some s \<Rightarrow> s | None \<Rightarrow> source_prefix original)) (incoming ctx)"
proof -
  define e where "e = (let e = (case edns response of Some e \<Rightarrow> edns_remove D code_Subnet e | None \<Rightarrow> edns_new D);
                    e = e\<lparr>max_payload := MAX_UDP_PAYLOAD, dnssec_ok := dnssec_ok client\<rparr>
                in if opt_get D code_Cookie (options client) = None then edns_remove D code_Cookie e else e)"
  define r where "r = (set_subnet D (response\<lparr>id := id query, recursion_desired := recursion_desired query,
                 checking_disabled := checking_disabled query, authentic_data := False,
                 queries := queries query\<rparr>) None)\<lparr>edns := Some e\<rparr>"
  have fin: "finish D ctx query response sc = (case incoming ctx of None \<Rightarrow> r | Some original \<Rightarrow>
      set_subnet D r (Some (client_subnet_new (cs_addr original) (source_prefix original)
         (case sc of Some s \<Rightarrow> s | None \<Rightarrow> source_prefix original))))"
    using assms by (simp add: finish_def r_def e_def Let_def split: option.splits)
  note e = reply_opt[OF e_def]
  have r: "edns r = Some e" by (simp add: r_def)
  have cookie: "code_Cookie \<noteq> code_Subnet" by (simp add: edns_codes)
  show "\<exists>e. edns (finish D ctx query response sc) = Some e \<and> max_payload e = MAX_UDP_PAYLOAD \<and>
     dnssec_ok e = dnssec_ok client \<and>
     (opt_get D code_Cookie (options client) = None \<longrightarrow> opt_get D code_Cookie (options e) = None)"
  proof (cases "incoming ctx")
    case None
    with e r show ?thesis by (auto simp: fin)
  next
    case (Some original)
    show ?thesis using e opt_get_set_subnet_other[OF cookie r] by (simp add: fin Some) metis
  qed
  have "subnet D r = None" using e(1) by (simp add: subnet_def r)
  then show "subnet D (finish D ctx query response sc) = map_option (\<lambda>original.
       client_subnet_new (cs_addr original) (source_prefix original)
         (case sc of Some s \<Rightarrow> s | None \<Rightarrow> source_prefix original)) (incoming ctx)"
    by (simp add: fin split: option.splits)
qed

end

text \<open>C7. The reply handed to a client answers that client's own query: it carries the query's
  identity and question, never the authentic-data bit, an OPT record exactly when the query
  had one (with this server's payload size and the client's DO bit), no upstream cookie the
  client did not ask for, and the client's own subnet option with the answer's scope.\<close>

theorem ecs_reply_owned:
  assumes "dns_library D" and "incoming ctx = None \<or> incoming ctx = subnet D query"
  shows "let reply = finish D ctx query response sc in
     id reply = id query \<and> queries reply = queries query \<and> \<not> authentic_data reply \<and>
     subnet D reply = map_option (\<lambda>original. client_subnet_new (cs_addr original) (source_prefix original)
         (case sc of Some s \<Rightarrow> s | None \<Rightarrow> source_prefix original)) (incoming ctx) \<and>
     (case edns query of
        None \<Rightarrow> edns reply = None
      | Some client \<Rightarrow> (\<exists>e. edns reply = Some e \<and> max_payload e = MAX_UDP_PAYLOAD \<and>
          dnssec_ok e = dnssec_ok client \<and>
          (opt_get D code_Cookie (options client) = None \<longrightarrow> opt_get D code_Cookie (options e) = None)))"
proof (cases "edns query")
  case None
  with assms(2) have "incoming ctx = None" by (auto simp: dns_library.subnet_no_edns[OF assms(1)])
  with None show ?thesis
    by (simp add: Let_def dns_library.finish_header[OF assms(1)] dns_library.finish_without_edns[OF assms(1)]
        dns_library.subnet_no_edns[OF assms(1)])
next
  case (Some client)
  with dns_library.finish_with_edns[OF assms(1) Some] show ?thesis
    by (simp add: Let_def dns_library.finish_header[OF assms(1)])
qed

theorem ecs_reply_owned_witness:
  "subnet ref_dns (finish ref_dns demo_context demo_query demo_answer (Some 16)) =
     Some \<lparr>cs_addr = V4 0xC0000280, source_prefix = 32, scope_prefix = 16\<rparr>"
  using ecs_reply_owned[OF ref_lib.dns_library_axioms, of demo_context demo_query demo_answer "Some 16"]
  by (simp add: Let_def client_subnet_new_def demo_context_def)

end
