(* ===== verification/Wire.thy ===== *)
theory Wire
  imports Prelude
begin

unbundle bit_operations_syntax

text \<open>
  \<open>validate_wire\<close> of \<open>src/src/ecs.rs\<close>: the check of the original OPT envelope that the typed
  decoder does not make. It walks the records with the decoder of \<open>hickory_proto\<close>, a
  third-party crate: the decoder's operations are the fields of \<open>dec_ops\<close>, and the locale
  \<open>decoder\<close> says that integers are read in network order and slices are cut off the rest of
  the input. The characterisation of the accepted option lists is proved for every such
  decoder.
\<close>

record 'd dec_ops =
  dec_new :: "bytes \<Rightarrow> 'd"
  dec_empty :: "'d \<Rightarrow> bool"
  dec_u16 :: "'d \<Rightarrow> (nat \<times> 'd) option"
  dec_u32 :: "'d \<Rightarrow> (nat \<times> 'd) option"
  dec_slice :: "nat \<Rightarrow> 'd \<Rightarrow> (bytes \<times> 'd) option"
  dec_header :: "'d \<Rightarrow> ((nat \<times> nat \<times> nat \<times> nat) \<times> 'd) option"
  dec_query :: "'d \<Rightarrow> 'd option"
  dec_name :: "'d \<Rightarrow> 'd option"

definition be16 :: "8 word \<Rightarrow> 8 word \<Rightarrow> nat" where
  "be16 a b = 256 * unat a + unat b"

locale decoder =
  fixes R :: "'d dec_ops" and rest :: "'d \<Rightarrow> bytes"
  assumes rest_new: "rest (dec_new R bs) = bs"
    and empty_iff: "dec_empty R d \<longleftrightarrow> rest d = []"
    and u16_ok: "rest d = a # b # r \<Longrightarrow> \<exists>d'. dec_u16 R d = Some (be16 a b, d') \<and> rest d' = r"
    and u16_short: "length (rest d) < 2 \<Longrightarrow> dec_u16 R d = None"
    and slice_ok: "n \<le> length (rest d) \<Longrightarrow>
      \<exists>d'. dec_slice R n d = Some (take n (rest d), d') \<and> rest d' = drop n (rest d)"
    and slice_short: "length (rest d) < n \<Longrightarrow> dec_slice R n d = None"

subsection \<open>The check\<close>

definition RT_OPT :: nat where
  "RT_OPT = 41"

text \<open>One client-subnet option.\<close>

definition ecs_data_check :: "bytes \<Rightarrow> string + unit" where
  "ecs_data_check data =
     (if \<not> 4 \<le> length data then Inl ''invalid or duplicate ECS'' else
      (let family = be16 (data ! 0) (data ! 1) in
       if family \<noteq> 1 \<and> family \<noteq> 2 then Inl ''invalid ECS family'' else
       (let bits = (if family = 1 then 32 else 128); source = unat (data ! 2) in
        if \<not> (source \<le> bits \<and> unat (data ! 3) \<le> bits) then Inl ''invalid ECS prefix''
        else if length data \<noteq> 4 + div_ceil source 8 then Inl ''invalid ECS address length''
        else if source mod 8 \<noteq> 0 \<and> (data ! (length data - 1)) AND (2 ^ (8 - source mod 8) - 1) \<noteq> 0
          then Inl ''nonzero ECS padding bits''
        else Inr ())))"

text \<open>The loop over the options of one OPT record; \<open>None\<close> means that the fuel ran out. The
  two counters run through the whole message.\<close>

fun validate_options :: "'d dec_ops \<Rightarrow> nat \<Rightarrow> 'd \<Rightarrow> nat \<Rightarrow> nat \<Rightarrow> (string + nat \<times> nat) option" where
  "validate_options R 0 d ecs_count padding_count = None"
| "validate_options R (Suc fuel) d ecs_count padding_count =
     (if dec_empty R d then Some (Inr (ecs_count, padding_count)) else
      case dec_u16 R d of
        None \<Rightarrow> Some (Inl ''short option'')
      | Some (code, d1) \<Rightarrow>
      (case dec_u16 R d1 of
         None \<Rightarrow> Some (Inl ''short option'')
       | Some (len, d2) \<Rightarrow>
      (case dec_slice R len d2 of
         None \<Rightarrow> Some (Inl ''short option'')
       | Some (data, d3) \<Rightarrow>
          (let padding = (if code = 12 then padding_count + 1 else padding_count) in
           if code = 12 \<and> padding \<noteq> 1 then Some (Inl ''duplicate EDNS Padding'')
           else if code \<noteq> 8 then validate_options R fuel d3 ecs_count padding
           else if ecs_count + 1 \<noteq> 1 then Some (Inl ''invalid or duplicate ECS'')
           else case ecs_data_check data of
             Inl e \<Rightarrow> Some (Inl e)
           | Inr _ \<Rightarrow> validate_options R fuel d3 (ecs_count + 1) padding))))"

fun read_queries :: "'d dec_ops \<Rightarrow> nat \<Rightarrow> 'd \<Rightarrow> 'd option" where
  "read_queries R 0 d = Some d"
| "read_queries R (Suc n) d = (case dec_query R d of None \<Rightarrow> None | Some d' \<Rightarrow> read_queries R n d')"

fun validate_records :: "'d dec_ops \<Rightarrow> nat \<Rightarrow> 'd \<Rightarrow> nat \<Rightarrow> nat \<Rightarrow> (string + unit) option" where
  "validate_records R 0 d ecs_count padding_count = Some (Inr ())"
| "validate_records R (Suc n) d ecs_count padding_count =
     (case dec_name R d of None \<Rightarrow> Some (Inl ''short record'') | Some d1 \<Rightarrow>
     (case dec_u16 R d1 of None \<Rightarrow> Some (Inl ''short record'') | Some (kind, d2) \<Rightarrow>
     (case dec_u16 R d2 of None \<Rightarrow> Some (Inl ''short record'') | Some (_, d3) \<Rightarrow>
     (case dec_u32 R d3 of None \<Rightarrow> Some (Inl ''short record'') | Some (_, d4) \<Rightarrow>
     (case dec_u16 R d4 of None \<Rightarrow> Some (Inl ''short record'') | Some (len, d5) \<Rightarrow>
     (case dec_slice R len d5 of None \<Rightarrow> Some (Inl ''short record'') | Some (data, d6) \<Rightarrow>
        if kind \<noteq> RT_OPT then validate_records R n d6 ecs_count padding_count
        else case validate_options R (Suc (length data)) (dec_new R data) ecs_count padding_count of
          None \<Rightarrow> None
        | Some (Inl e) \<Rightarrow> Some (Inl e)
        | Some (Inr (e, p)) \<Rightarrow> validate_records R n d6 e p))))))"

definition validate_wire :: "'d dec_ops \<Rightarrow> bytes \<Rightarrow> (string + unit) option" where
  "validate_wire R bs =
     (case dec_header R (dec_new R bs) of
        None \<Rightarrow> Some (Inl ''short header'')
      | Some ((nqueries, nanswers, nauthorities, nadditionals), d) \<Rightarrow>
          (case read_queries R nqueries d of
             None \<Rightarrow> Some (Inl ''short question'')
           | Some d' \<Rightarrow> validate_records R (nanswers + nauthorities + nadditionals) d' 0 0))"

subsection \<open>What it accepts\<close>

text \<open>The encoding of an option list, and the lists the check accepts: at most one padding
  option and one well-formed client subnet in the message.\<close>

definition split16 :: "nat \<Rightarrow> bytes" where
  "split16 n = [word_of_nat (n div 256), word_of_nat (n mod 256)]"

fun enc_options :: "(nat \<times> bytes) list \<Rightarrow> bytes" where
  "enc_options [] = []"
| "enc_options ((code, data) # os) = split16 code @ split16 (length data) @ data @ enc_options os"

definition opt_count :: "nat \<Rightarrow> (nat \<times> bytes) list \<Rightarrow> nat" where
  "opt_count c os = length (filter (\<lambda>p. fst p = c) os)"

definition options_ok :: "nat \<Rightarrow> nat \<Rightarrow> (nat \<times> bytes) list \<Rightarrow> bool" where
  "options_ok ecs_count padding_count os \<longleftrightarrow>
     (\<forall>(c, data) \<in> set os. c < 65536 \<and> length data < 65536 \<and> (c = 8 \<longrightarrow> ecs_data_check data = Inr ())) \<and>
     (opt_count 8 os = 0 \<or> ecs_count + opt_count 8 os \<le> 1) \<and>
     (opt_count 12 os = 0 \<or> padding_count + opt_count 12 os \<le> 1)"

lemma unat_byte_lt [simp]: "unat (a :: 8 word) < 256"
  using unsigned_less[of a, where 'a=nat] by simp

lemma split16_be16 [simp]: "split16 (be16 a b) = [a, b]"
  by (simp add: split16_def be16_def)

lemma be16_split16: "n < 65536 \<Longrightarrow> split16 n = [a, b] \<Longrightarrow> be16 a b = n"
  by (auto simp: split16_def be16_def unat_of_nat)

lemma be16_lt [simp]: "be16 a b < 65536"
  using unat_byte_lt[of a] unat_byte_lt[of b] unfolding be16_def by linarith

lemma opt_count_simps [simp]:
  "opt_count c [] = 0" "opt_count c ((k, d) # os) = (if k = c then Suc (opt_count c os) else opt_count c os)"
  by (simp_all add: opt_count_def)

lemma options_ok_Nil [simp]: "options_ok e p []"
  by (simp add: options_ok_def)

lemma options_ok_Cons:
  "options_ok e p ((c, data) # os) \<longleftrightarrow> c < 65536 \<and> length data < 65536 \<and>
     (c = 8 \<longrightarrow> e = 0 \<and> ecs_data_check data = Inr () \<and> options_ok 1 p os) \<and>
     (c = 12 \<longrightarrow> p = 0 \<and> options_ok e 1 os) \<and>
     (c \<noteq> 8 \<and> c \<noteq> 12 \<longrightarrow> options_ok e p os)"
  by (auto simp: options_ok_def)

context decoder
begin

text \<open>One option off the front of the input.\<close>

lemma read_option:
  assumes "rest d = split16 c @ split16 (length data) @ data @ r" "c < 65536" "length data < 65536"
  shows "\<exists>d1 d2 d3. dec_u16 R d = Some (c, d1) \<and> dec_u16 R d1 = Some (length data, d2) \<and>
    dec_slice R (length data) d2 = Some (data, d3) \<and> rest d3 = r"
proof -
  obtain a b a' b' where s: "split16 c = [a, b]" "split16 (length data) = [a', b']"
    by (simp add: split16_def)
  then have n: "be16 a b = c" "be16 a' b' = length data" using assms be16_split16 by auto
  from u16_ok[of d a b] assms(1) s n obtain d1 where
    d1: "dec_u16 R d = Some (c, d1)" "rest d1 = a' # b' # data @ r" by auto
  from u16_ok[OF d1(2)] n obtain d2 where d2: "dec_u16 R d1 = Some (length data, d2)" "rest d2 = data @ r" by auto
  from slice_ok[of "length data" d2] d2(2) d1(1) d2(1) show ?thesis by auto
qed

lemma split_option:
  assumes "dec_u16 R d = Some (c, d1)" and "dec_u16 R d1 = Some (n, d2)" and "dec_slice R n d2 = Some (data, d3)"
  shows "rest d = split16 c @ split16 (length data) @ data @ rest d3 \<and> c < 65536 \<and> length data < 65536"
proof -
  have two: "\<exists>a b. rest d = a # b # rest d' \<and> n = be16 a b" if "dec_u16 R d = Some (n, d')" for d n d'
  proof -
    from that u16_short[of d] have "\<not> length (rest d) < 2" by auto
    then obtain a b r where r: "rest d = a # b # r"
      by (cases "rest d"; cases "tl (rest d)") auto
    from u16_ok[OF r] that r show ?thesis by auto
  qed
  from slice_short[of d2 n] assms(3) have "n \<le> length (rest d2)" by fastforce
  from slice_ok[OF this] assms(3) have "data = take n (rest d2)" "rest d3 = drop n (rest d2)" by auto
  with \<open>n \<le> length (rest d2)\<close> have "rest d2 = data @ rest d3" "length data = n" by auto
  with two[OF assms(1)] two[OF assms(2)] show ?thesis by auto
qed

lemma validate_options_total:
  "length (rest d) < fuel \<Longrightarrow> validate_options R fuel d e p \<noteq> None"
proof (induction fuel arbitrary: d e p)
  case (Suc fuel)
  have "length (rest d3) < fuel"
    if "dec_u16 R d = Some (c, d1)" "dec_u16 R d1 = Some (n, d2)" "dec_slice R n d2 = Some (data, d3)"
    for c d1 n d2 data d3
    using split_option[OF that] Suc.prems by (auto simp: split16_def)
  with Suc.IH show ?case by (auto simp: Let_def split: option.splits prod.splits sum.splits)
qed simp

lemma validate_options_sound:
  "validate_options R fuel d e p = Some (Inr r) \<Longrightarrow>
   \<exists>os. rest d = enc_options os \<and> options_ok e p os"
proof (induction fuel arbitrary: d e p)
  case (Suc fuel)
  show ?case
  proof (cases "dec_empty R d")
    case True
    then show ?thesis by (intro exI[of _ "[]"]) (simp add: empty_iff)
  next
    case False
    with Suc.prems obtain c d1 n d2 data d3 where
      rd: "dec_u16 R d = Some (c, d1)" "dec_u16 R d1 = Some (n, d2)" "dec_slice R n d2 = Some (data, d3)"
      by (auto split: option.splits prod.splits)
    note sp = split_option[OF rd]
    have "\<exists>os. rest d3 = enc_options os \<and> options_ok e p ((c, data) # os)"
      using Suc.prems False rd Suc.IH sp by (auto simp: Let_def options_ok_Cons split: if_splits sum.splits) 
    then obtain os where "rest d3 = enc_options os" "options_ok e p ((c, data) # os)" by blast
    with sp show ?thesis by (intro exI[of _ "(c, data) # os"]) simp
  qed
qed simp

lemma validate_options_complete:
  "rest d = enc_options os \<Longrightarrow> options_ok e p os \<Longrightarrow> length (rest d) < fuel \<Longrightarrow>
   validate_options R fuel d e p = Some (Inr (e + opt_count 8 os, p + opt_count 12 os))"
proof (induction os arbitrary: fuel d e p)
  case Nil
  then show ?case by (cases fuel) (auto simp: empty_iff)
next
  case (Cons o1 os)
  obtain c data where [simp]: "o1 = (c, data)" by (cases o1)
  from Cons.prems obtain f where [simp]: "fuel = Suc f" by (cases fuel) auto
  from Cons.prems(2) have lt: "c < 65536" "length data < 65536" by (auto simp: options_ok_Cons)
  from Cons.prems(1) obtain d1 d2 d3 where rd: "dec_u16 R d = Some (c, d1)" "dec_u16 R d1 = Some (length data, d2)"
    "dec_slice R (length data) d2 = Some (data, d3)" "rest d3 = enc_options os"
    using read_option[of d c data "enc_options os"] lt by auto
  have "length (rest d3) < f" using split_option[OF rd(1-3)] Cons.prems(3) by (auto simp: split16_def)
  note IH = Cons.IH[OF rd(4) _ this]
  have "\<not> dec_empty R d" using split_option[OF rd(1-3)] by (auto simp: empty_iff split16_def)
  with rd(1-3) Cons.prems(2) IH show ?case
    by (auto simp: Let_def options_ok_Cons)
qed

lemma validate_records_total: "validate_records R n d e p \<noteq> None"
proof (induction n arbitrary: d e p)
  case (Suc n)
  have "validate_options R (Suc (length data)) (dec_new R data) e p \<noteq> None" for data e p
    by (rule validate_options_total) (simp add: rest_new)
  with Suc.IH show ?case
    by (auto split: option.splits prod.splits sum.splits simp del: validate_options.simps not_None_eq)
qed simp

lemma validate_wire_total: "validate_wire R bs \<noteq> None"
  using validate_records_total by (auto simp: validate_wire_def split: option.splits prod.splits simp del: not_None_eq)

lemma options_exact:
  "(\<exists>r. validate_options R (Suc (length data)) (dec_new R data) e p = Some (Inr r)) \<longleftrightarrow>
   (\<exists>os. data = enc_options os \<and> options_ok e p os)"
  using validate_options_sound[of "Suc (length data)" "dec_new R data" e p]
    validate_options_complete[of "dec_new R data" _ e p "Suc (length data)"]
  by (auto simp: rest_new simp del: validate_options.simps)

end

subsection \<open>An instance\<close>

text \<open>A decoder on the list of the remaining bytes.\<close>

fun list_u16 :: "bytes \<Rightarrow> (nat \<times> bytes) option" where
  "list_u16 (a # b # r) = Some (be16 a b, r)"
| "list_u16 _ = None"

definition list_slice :: "nat \<Rightarrow> bytes \<Rightarrow> (bytes \<times> bytes) option" where
  "list_slice n d = (if n \<le> length d then Some (take n d, drop n d) else None)"

fun list_header :: "bytes \<Rightarrow> ((nat \<times> nat \<times> nat \<times> nat) \<times> bytes) option" where
  "list_header (_ # _ # _ # _ # q1 # q2 # n1 # n2 # u1 # u2 # d1 # d2 # r) =
     Some ((be16 q1 q2, be16 n1 n2, be16 u1 u2, be16 d1 d2), r)"
| "list_header _ = None"

function list_name :: "bytes \<Rightarrow> bytes option" where
  "list_name [] = None"
| "list_name (n # d) =
     (if n = 0 then Some d
      else if 192 \<le> n then (case d of [] \<Rightarrow> None | _ # d' \<Rightarrow> Some d')
      else if unat n \<le> length d then list_name (drop (unat n) d) else None)"
  by pat_completeness auto
termination by (relation "measure length") auto

definition list_dec :: "bytes dec_ops" where
  "list_dec = \<lparr>dec_new = (\<lambda>bs. bs), dec_empty = (\<lambda>d. d = []), dec_u16 = list_u16,
     dec_u32 = (\<lambda>d. if 4 \<le> length d then Some (0, drop 4 d) else None), dec_slice = list_slice,
     dec_header = list_header,
     dec_query = (\<lambda>d. case list_name d of None \<Rightarrow> None
                        | Some r \<Rightarrow> if 4 \<le> length r then Some (drop 4 r) else None),
     dec_name = list_name\<rparr>"

interpretation list_decoder: decoder list_dec "\<lambda>d. d"
proof unfold_locales
  fix d :: bytes
  assume "length d < 2"
  then show "dec_u16 list_dec d = None" by (cases d rule: list_u16.cases) (auto simp: list_dec_def)
qed (auto simp: list_dec_def list_slice_def)



end
