(* ===== verification/Protocol.thy ===== *)
theory Protocol
  imports Ecs Wire
begin

text \<open>
  Message admission, error responses and per-hop encoding, \<open>src/src/protocol.rs\<close>. Fallible
  functions return \<open>None\<close> for \<open>Err\<close> when the caller only looks at success.
\<close>

definition MAX_MESSAGE :: nat where
  "MAX_MESSAGE = 65535"

definition has_padding :: "('n, 'w) dns_ops \<Rightarrow> 'n message \<Rightarrow> bool" where
  "has_padding D m = (case edns m of None \<Rightarrow> False | Some e \<Rightarrow> opt_get D code_Padding (options e) \<noteq> None)"

definition strip_padding :: "('n, 'w) dns_ops \<Rightarrow> 'n message \<Rightarrow> 'n message" where
  "strip_padding D m = map_edns (edns_remove D code_Padding) m"

definition edns_within :: "'n message \<Rightarrow> edns_code list \<Rightarrow> bool" where
  "edns_within m allowed = (case edns m of
     None \<Rightarrow> True
   | Some e \<Rightarrow> version e = 0 \<and> list_all (\<lambda>(code, _). code \<in> set allowed) (options e))"

definition reply_edns :: "('n, 'w) dns_ops \<Rightarrow> 'n message \<Rightarrow> edns option" where
  "reply_edns D query = map_option (\<lambda>client.
     (edns_new D)\<lparr>max_payload := MAX_UDP_PAYLOAD, dnssec_ok := dnssec_ok client\<rparr>) (edns query)"

definition extended_errors :: "'n message \<Rightarrow> edns_option list" where
  "extended_errors m = (case edns m of
     None \<Rightarrow> []
   | Some e \<Rightarrow> map snd (filter (\<lambda>(code, _). code = code_Ede) (options e)))"

definition strip_tcp_keepalive :: "('n, 'w) dns_ops \<Rightarrow> 'n message \<Rightarrow> 'n message" where
  "strip_tcp_keepalive D m = map_edns (edns_remove D code_Keepalive) m"

definition encode_hop ::
  "('n, 'w) dns_ops \<Rightarrow> 'n message \<Rightarrow> bool \<Rightarrow> bool \<Rightarrow> nat \<Rightarrow> nat \<Rightarrow> 'w option" where
  "encode_hop D m encrypted requested block limit =
     (let pad = (encrypted \<and> requested \<and> edns m \<noteq> None) in
      if \<not> pad \<and> \<not> has_padding D m then to_vec D m else
      (let normalized = strip_padding D m in
       case to_vec D normalized of
         None \<Rightarrow> None
       | Some bytes \<Rightarrow>
           if \<not> pad \<or> saturating_add (wire_len D bytes) 4 > limit then Some bytes
           else
             (let with_header = wire_len D bytes + 4;
                  len = min ((block - with_header mod block) mod block) (limit - with_header)
              in to_vec D (map_edns (edns_insert D (Unknown code_Padding (replicate len 0))) normalized))))"

record padding =
  requested :: bool

definition padding_default :: padding where
  "padding_default = \<lparr>requested = False\<rparr>"

definition from_query :: "('n, 'w) dns_ops \<Rightarrow> 'n message \<Rightarrow> padding" where
  "from_query D query = \<lparr>requested = has_padding D query\<rparr>"

definition encode_response :: "('n, 'w) dns_ops \<Rightarrow> padding \<Rightarrow> 'n message \<Rightarrow> bool \<Rightarrow> 'w option" where
  "encode_response D p m encrypted = encode_hop D m encrypted (requested p) 468 MAX_MESSAGE"

definition encode_upstream :: "('n, 'w) dns_ops \<Rightarrow> 'n message \<Rightarrow> bool \<Rightarrow> 'w option" where
  "encode_upstream D m encrypted = encode_hop D m encrypted (has_padding D m) 128 MAX_MESSAGE"

definition canonical_work_key :: "('n, 'w) dns_ops \<Rightarrow> 'n message \<Rightarrow> 'w option" where
  "canonical_work_key D query = (case queries query of
     [q] \<Rightarrow>
       if query_class q \<noteq> IN \<or> signature query \<noteq> None \<or>
          \<not> edns_within query [code_Subnet, code_Padding] then None
       else
         (let normalized = query\<lparr>id := 0, queries := [q\<lparr>q_name := to_lowercase D (q_name q)\<rparr>]\<rparr>;
              normalized =
                (if has_padding D normalized
                 then map_edns (edns_insert D (Unknown code_Padding [])) (strip_padding D normalized)
                 else normalized)
          in to_vec D normalized)
   | _ \<Rightarrow> None)"

datatype 'n request_class = Forward "'n message" | Reply "'n message" padding | Drop

definition decode :: "('n, 'w) dns_ops \<Rightarrow> 'd dec_ops \<Rightarrow> 'w \<Rightarrow> 'n message option" where
  "decode D R w =
     (if \<not> wire_len D w \<le> MAX_MESSAGE then None else
      case read_message D w of
        None \<Rightarrow> None
      | Some (m, trailing) \<Rightarrow>
          if trailing \<noteq> [] then None
          else if edns m \<noteq> None then
            (case validate_wire R (wire_bytes D w) of Some (Inr _) \<Rightarrow> Some m | _ \<Rightarrow> None)
          else Some m)"

definition error_response :: "('n, 'w) dns_ops \<Rightarrow> 'n message \<Rightarrow> response_code \<Rightarrow> 'n message" where
  "error_response D query code =
     (let r = error_msg D (id query) (op_code query) code in
      r\<lparr>queries := queries r @ take 1 (queries query),
        recursion_desired := recursion_desired query,
        checking_disabled := checking_disabled query,
        recursion_available := True,
        edns := reply_edns D query\<rparr>)"

definition request_error :: "'n message \<Rightarrow> response_code option" where
  "request_error query =
     (if op_code query \<noteq> OpQuery then Some NotImp
      else if length (queries query) \<noteq> 1 \<or> truncation query \<or> response_code query \<noteq> NoError then Some FormErr
      else if signature query \<noteq> None \<or> list_ex (\<lambda>rr. rr_type rr = SIG) (additionals query)
           \<or> query_type (queries query ! 0) \<in> {AXFR, IXFR, ANY} then Some Refused
      else if answers query \<noteq> [] \<or> authorities query \<noteq> [] \<or> additionals query \<noteq> [] then Some FormErr
      else if (case edns query of None \<Rightarrow> False | Some e \<Rightarrow> version e \<noteq> 0) then Some BADVERS
      else None)"

definition request_from_decoded :: "('n, 'w) dns_ops \<Rightarrow> 'w \<Rightarrow> 'n message option \<Rightarrow> 'n request_class" where
  "request_from_decoded D w decoded = (case decoded of
     None \<Rightarrow>
       (case read_header D w of
          None \<Rightarrow> Drop
        | Some (hid, htype, hop) \<Rightarrow>
            if htype = MResponse then Drop else Reply (error_msg D hid hop FormErr) padding_default)
   | Some query \<Rightarrow>
       if message_type query \<noteq> MQuery then Drop
       else case request_error query of
         Some code \<Rightarrow> Reply (error_response D query code) (from_query D query)
       | None \<Rightarrow> Forward (strip_tcp_keepalive D query))"

definition request :: "('n, 'w) dns_ops \<Rightarrow> 'd dec_ops \<Rightarrow> 'w \<Rightarrow> 'n request_class" where
  "request D R w = request_from_decoded D w (decode D R w)"

definition matches_response :: "('n, 'w) dns_ops \<Rightarrow> 'n message \<Rightarrow> 'n message \<Rightarrow> bool" where
  "matches_response D query response \<longleftrightarrow>
     message_type response = MResponse \<and> id response = id query \<and> op_code response = op_code query \<and>
     queries response = queries query \<and> signature response = None \<and> response_matches D query response"

definition udp_limit :: "'n message \<Rightarrow> nat" where
  "udp_limit query = (case edns query of None \<Rightarrow> 512 | Some e \<Rightarrow> clamp 512 MAX_UDP_PAYLOAD (max_payload e))"

definition insert_all :: "('n, 'w) dns_ops \<Rightarrow> edns_option list \<Rightarrow> edns \<Rightarrow> edns" where
  "insert_all D os e = fold (edns_insert D) os e"

definition encode_udp :: "('n, 'w) dns_ops \<Rightarrow> 'n message \<Rightarrow> nat \<Rightarrow> 'w option" where
  "encode_udp D response limit = (case encode_hop D response False False 468 limit of
     None \<Rightarrow> None
   | Some bytes \<Rightarrow>
       if wire_len D bytes \<le> limit then Some bytes else
       (let t0 = set_subnet D (error_response D response (response_code response)) (subnet D response);
            t = map_edns (insert_all D (extended_errors response)) (t0\<lparr>truncation := True\<rparr>)
        in case to_vec D t of
             None \<Rightarrow> None
           | Some bytes \<Rightarrow>
               (case (if wire_len D bytes > limit \<and> edns t \<noteq> None
                      then to_vec D (map_edns (edns_remove D code_Ede) t) else Some bytes) of
                  None \<Rightarrow> None
                | Some bytes \<Rightarrow> if wire_len D bytes \<le> limit then Some bytes else None)))"

subsection \<open>Admission\<close>

lemma strip_tcp_keepalive_fields [simp]:
  "queries (strip_tcp_keepalive D m) = queries m" "op_code (strip_tcp_keepalive D m) = op_code m"
  "message_type (strip_tcp_keepalive D m) = message_type m" "truncation (strip_tcp_keepalive D m) = truncation m"
  "signature (strip_tcp_keepalive D m) = signature m" "answers (strip_tcp_keepalive D m) = answers m"
  "authorities (strip_tcp_keepalive D m) = authorities m" "additionals (strip_tcp_keepalive D m) = additionals m"
  "id (strip_tcp_keepalive D m) = id m" "edns (strip_tcp_keepalive D m) = map_option (edns_remove D code_Keepalive) (edns m)"
  by (simp_all add: strip_tcp_keepalive_def map_edns_def)

lemma request_error_None:
  "request_error q = None \<Longrightarrow> op_code q = OpQuery \<and> length (queries q) = 1 \<and> \<not> truncation q \<and> signature q = None \<and>
     query_type (queries q ! 0) \<notin> {AXFR, IXFR, ANY} \<and> answers q = [] \<and> authorities q = [] \<and> additionals q = [] \<and>
     (\<forall>e. edns q = Some e \<longrightarrow> version e = 0)"
  by (auto simp: request_error_def split: if_splits option.splits)

lemma request_error_code: "request_error q = Some c \<Longrightarrow> c \<noteq> NoError"
  by (auto simp: request_error_def split: if_splits option.splits)

context dns_library
begin

lemma error_response_fields:
  "message_type (error_response D q c) = MResponse" "response_code (error_response D q c) = c"
  "id (error_response D q c) = id q" "queries (error_response D q c) = take 1 (queries q)"
  "answers (error_response D q c) = []" "authorities (error_response D q c) = []"
  "additionals (error_response D q c) = []" "edns (error_response D q c) = reply_edns D q"
  "op_code (error_response D q c) = op_code q" "signature (error_response D q c) = None"
  by (simp_all add: error_response_def error_msg_eq Let_def)

lemma request_total:
  "case request_from_decoded D w decoded of
     Forward m \<Rightarrow> message_type m = MQuery \<and> op_code m = OpQuery \<and> length (queries m) = 1 \<and> \<not> truncation m \<and>
       signature m = None \<and> query_type (queries m ! 0) \<notin> {AXFR, IXFR, ANY} \<and>
       answers m = [] \<and> authorities m = [] \<and> additionals m = [] \<and>
       (\<forall>e. edns m = Some e \<longrightarrow> version e = 0 \<and> opt_get D code_Keepalive (options e) = None) \<and>
       (\<exists>q. decoded = Some q \<and> id m = id q \<and> queries m = queries q \<and> subnet D m = subnet D q)
   | Reply r p \<Rightarrow> message_type r = MResponse \<and> response_code r \<noteq> NoError \<and> length (queries r) \<le> 1 \<and>
       answers r = [] \<and> authorities r = [] \<and> additionals r = [] \<and>
       (case decoded of
          Some q \<Rightarrow> message_type q = MQuery \<and> id r = id q
        | None \<Rightarrow> (\<exists>op. read_header D w = Some (id r, MQuery, op)))
   | Drop \<Rightarrow> (case decoded of Some q \<Rightarrow> message_type q = MResponse
               | None \<Rightarrow> \<forall>i op. read_header D w \<noteq> Some (i, MQuery, op))"
proof (cases decoded)
  case None
  have "t = MResponse \<or> t = MQuery" for t by (cases t) auto
  with None show ?thesis
    by (auto simp: request_from_decoded_def error_msg_eq split: option.splits prod.splits)
next
  case (Some q)
  have sub: "subnet D (strip_tcp_keepalive D q) = subnet D q"
    by (simp add: subnet_def edns_remove_def opt_get_remove edns_codes split: option.splits)
  have ty: "message_type q \<noteq> MQuery \<Longrightarrow> message_type q = MResponse" by (cases "message_type q") auto
  show ?thesis
  proof (cases "message_type q = MQuery")
    case True
    show ?thesis
    proof (cases "request_error q")
      case None
      note ok = request_error_None[OF None]
      have "\<forall>e. edns (strip_tcp_keepalive D q) = Some e \<longrightarrow> version e = 0 \<and> opt_get D code_Keepalive (options e) = None"
        using ok by (auto simp: edns_remove_def opt_get_remove)
      moreover have "request_from_decoded D w decoded = Forward (strip_tcp_keepalive D q)"
        using True Some None by (simp add: request_from_decoded_def)
      ultimately show ?thesis using True Some ok sub by (simp del: strip_tcp_keepalive_fields(10) not_None_eq)
    next
      case (Some c)
      with request_error_code[OF Some] True \<open>decoded = Some q\<close> show ?thesis
        by (simp add: request_from_decoded_def error_response_fields)
    qed
  qed (use Some ty in \<open>simp add: request_from_decoded_def\<close>)
qed

end

text \<open>C12. Every datagram is forwarded, answered with an error or dropped for a reason: what is
  forwarded is a well-formed single-question query without a hop-specific keepalive option;
  an error reply is an empty response that names the offending query and answers queries
  only; a response is never answered, and only responses and unreadable input are dropped.\<close>

theorem request_classified:
  assumes "dns_library D"
  shows "case request D R w of
     Forward m \<Rightarrow> message_type m = MQuery \<and> op_code m = OpQuery \<and> length (queries m) = 1 \<and> \<not> truncation m \<and>
       signature m = None \<and> query_type (queries m ! 0) \<notin> {AXFR, IXFR, ANY} \<and>
       answers m = [] \<and> authorities m = [] \<and> additionals m = [] \<and>
       (\<forall>e. edns m = Some e \<longrightarrow> version e = 0 \<and> opt_get D code_Keepalive (options e) = None) \<and>
       (\<exists>q. decode D R w = Some q \<and> id m = id q \<and> queries m = queries q \<and> subnet D m = subnet D q)
   | Reply r p \<Rightarrow> message_type r = MResponse \<and> response_code r \<noteq> NoError \<and> length (queries r) \<le> 1 \<and>
       answers r = [] \<and> authorities r = [] \<and> additionals r = [] \<and>
       (case decode D R w of
          Some q \<Rightarrow> message_type q = MQuery \<and> id r = id q
        | None \<Rightarrow> (\<exists>op. read_header D w = Some (id r, MQuery, op)))
   | Drop \<Rightarrow> (case decode D R w of Some q \<Rightarrow> message_type q = MResponse
               | None \<Rightarrow> \<forall>i op. read_header D w \<noteq> Some (i, MQuery, op))"
  unfolding request_def using assms by (rule dns_library.request_total)

subsection \<open>UDP truncation\<close>

lemma encode_hop_plain:
  assumes "encode_hop D m False req block limit = Some w"
  shows "\<exists>m'. to_vec D m' = Some w \<and> (m' = m \<or> m' = strip_padding D m)"
  using assms by (auto simp: encode_hop_def Let_def split: if_splits option.splits)

context dns_library
begin

lemma set_subnet_sections:
  "answers (set_subnet D m s) = answers m" "authorities (set_subnet D m s) = authorities m"
  "additionals (set_subnet D m s) = additionals m" "response_code (set_subnet D m s) = response_code m"
  "message_type (set_subnet D m s) = message_type m"
  by (simp_all add: set_subnet_def map_edns_def Let_def split: option.splits)

lemma encode_udp_cases:
  assumes "encode_udp D r limit = Some w"
  shows "wire_len D w \<le> limit \<and>
    (\<exists>m. to_vec D m = Some w \<and>
      (m = r \<or> m = strip_padding D r \<or>
       (truncation m \<and> message_type m = MResponse \<and> id m = id r \<and> queries m = take 1 (queries r) \<and>
        response_code m = response_code r \<and> answers m = [] \<and> authorities m = [] \<and> additionals m = [])))"
proof -
  define t0 where "t0 = set_subnet D (error_response D r (response_code r)) (subnet D r)"
  define t where "t = map_edns (insert_all D (extended_errors r)) (t0\<lparr>truncation := True\<rparr>)"
  from assms consider (whole) "encode_hop D r False False 468 limit = Some w" "wire_len D w \<le> limit"
    | (cut) "to_vec D t = Some w" "wire_len D w \<le> limit"
    | (bare) "to_vec D (map_edns (edns_remove D code_Ede) t) = Some w" "wire_len D w \<le> limit"
    unfolding encode_udp_def Let_def t0_def[symmetric] t_def[symmetric]
    by (auto split: option.splits if_splits)
  then show ?thesis
  proof cases
    case whole
    with encode_hop_plain[OF whole(1)] show ?thesis by blast
  next
    case cut
    then show ?thesis
      by (intro conjI exI[of _ t]) (simp_all add: t_def t0_def map_edns_def error_response_fields set_subnet_sections)
  next
    case bare
    then show ?thesis
      by (intro conjI exI[of _ "map_edns (edns_remove D code_Ede) t"])
        (simp_all add: t_def t0_def map_edns_def error_response_fields set_subnet_sections)
  qed
qed

end

text \<open>C13. A UDP reply never exceeds the limit, and it never carries a partial answer: the bytes
  encode the whole response (without padding), or an empty response to the same question
  with the truncation bit set.\<close>

theorem udp_never_partial:
  assumes "dns_library D" and "encode_udp D r limit = Some w"
  shows "wire_len D w \<le> limit \<and>
    (\<exists>m. read_message D w = Some (m, []) \<and>
      (m = r \<or> m = strip_padding D r \<or>
       (truncation m \<and> message_type m = MResponse \<and> id m = id r \<and> queries m = take 1 (queries r) \<and>
        response_code m = response_code r \<and> answers m = [] \<and> authorities m = [] \<and> additionals m = [])))"
proof -
  from dns_library.encode_udp_cases[OF assms] obtain m where m: "to_vec D m = Some w" "wire_len D w \<le> limit"
    and cases: "m = r \<or> m = strip_padding D r \<or>
       (truncation m \<and> message_type m = MResponse \<and> id m = id r \<and> queries m = take 1 (queries r) \<and>
        response_code m = response_code r \<and> answers m = [] \<and> authorities m = [] \<and> additionals m = [])"
    by blast
  from cases dns_library.read_to_vec[OF assms(1) m(1)] m(2) show ?thesis by (intro conjI exI[of _ m])
qed

lemma ref_wire_len_demo: "ref_wire_len demo_query = 43"
  by (simp add: ref_wire_len_def demo_defs)

lemma request_demo: "request ref_dns list_dec demo_query = Forward demo_query"
proof -
  have "replicate 43 (0 :: 8 word) = 0 # 0 # 0 # 0 # 0 # 0 # 0 # 0 # 0 # 0 # 0 # 0 # replicate 31 0"
    by (simp add: replicate_eq_replicate numeral_eq_Suc)
  then have "decode ref_dns list_dec demo_query = Some demo_query"
    by (simp add: decode_def MAX_MESSAGE_def ref_wire_len_demo validate_wire_def list_dec_def be16_def)
  then show ?thesis
    by (simp add: request_def request_from_decoded_def request_error_def demo_defs strip_tcp_keepalive_def
        map_edns_def edns_remove_def edns_codes)
qed

theorem request_classified_witness:
  "length (queries demo_query) = 1 \<and> (\<exists>q. decode ref_dns list_dec demo_query = Some q \<and> id q = 7)"
  using request_classified[OF ref_lib.dns_library_axioms, of list_dec demo_query]
  by (auto simp: request_demo) (auto simp: demo_defs)

definition demo_big :: "ref_name message" where
  "demo_big = demo_query\<lparr>message_type := MResponse, answers := replicate 40
     \<lparr>rr_name = [''example'', ''test''], dns_class = IN, ttl = 60, data = RA 0xC0000201\<rparr>\<rparr>"

lemma encode_udp_demo:
  "\<exists>w. encode_udp ref_dns demo_big 512 = Some w"
  by (simp add: encode_udp_def encode_hop_def has_padding_def demo_big_def demo_defs ref_wire_len_def edns_codes)
    (simp add: error_response_def reply_edns_def set_subnet_def subnet_def map_edns_def edns_insert_def edns_remove_def
      insert_all_def extended_errors_def ref_wire_len_def edns_codes)

theorem udp_never_partial_witness:
  "\<exists>w. encode_udp ref_dns demo_big 512 = Some w \<and> wire_len ref_dns w \<le> 512"
  using encode_udp_demo udp_never_partial[OF ref_lib.dns_library_axioms, of demo_big 512] by blast

subsection \<open>Padding\<close>

text \<open>The size of an encoded message with a padding option: an option takes four octets and its
  data, and encoding cannot fail for it within the message size.\<close>

locale dns_sizes = dns_library D for D :: "('n, 'w) dns_ops" +
  assumes padded: "to_vec D m = Some w \<Longrightarrow> edns m = Some e \<Longrightarrow> opt_get D code_Padding (options e) = None \<Longrightarrow>
    wire_len D w + 4 + n \<le> MAX_MESSAGE \<Longrightarrow>
    \<exists>w'. to_vec D (map_edns (edns_insert D (Unknown code_Padding (replicate n 0))) m) = Some w' \<and>
         wire_len D w' = wire_len D w + 4 + n"

lemma pad_to_block:
  assumes "0 < (block :: nat)" and "h \<le> limit" and "p = min ((block - h mod block) mod block) (limit - h)"
  shows "h + p \<le> limit \<and> (block dvd h + p \<or> h + p = limit)"
proof -
  have "block dvd h + (block - h mod block) mod block"
  proof (cases "h mod block = 0")
    case False
    then have "block - h mod block < block" using assms(1) by linarith
    then have "(block - h mod block) mod block = block - h mod block" using assms(1) by (simp add: mod_less)
    moreover have "h mod block < block" using assms(1) by simp
    ultimately have "h + (block - h mod block) mod block = block * (h div block) + block"
      by (metis add.assoc le_add_diff_inverse less_imp_le mult_div_mod_eq)
    then show ?thesis by simp
  qed auto
  with assms show ?thesis by (auto simp: min_def)
qed

context dns_sizes
begin

lemma encode_hop_padded:
  assumes "edns m = Some e" and "to_vec D (strip_padding D m) = Some w0" and "0 < block"
    and "wire_len D w0 + 4 \<le> limit" and "limit \<le> MAX_MESSAGE"
  shows "\<exists>w. encode_hop D m True True block limit = Some w \<and> wire_len D w \<le> limit \<and>
    (block dvd wire_len D w \<or> wire_len D w = limit)"
proof -
  let ?h = "wire_len D w0 + 4"
  let ?p = "min ((block - ?h mod block) mod block) (limit - ?h)"
  have ed: "edns (strip_padding D m) = Some (edns_remove D code_Padding e)"
    using assms(1) by (simp add: strip_padding_def)
  have "opt_get D code_Padding (options (edns_remove D code_Padding e)) = None"
    by (simp add: edns_remove_def opt_get_remove)
  note p = pad_to_block[OF assms(3,4) refl]
  have "wire_len D w0 + 4 + ?p \<le> MAX_MESSAGE" using p assms(5) by simp
  from padded[OF assms(2) ed _ this] obtain w' where
    w': "to_vec D (map_edns (edns_insert D (Unknown code_Padding (replicate ?p 0))) (strip_padding D m)) = Some w'"
      "wire_len D w' = ?h + ?p"
    by (auto simp: edns_remove_def opt_get_remove)
  have "saturating_add (wire_len D w0) 4 \<le> limit"
    using assms(4) by (simp add: saturating_add_def)
  with assms(1,2) w'(1) have "encode_hop D m True True block limit = Some w'"
    by (simp add: encode_hop_def Let_def)
  with p w'(2) show ?thesis by auto
qed

end

text \<open>C14. A padded reply or query on an encrypted hop is as long as promised: its length is a
  multiple of the block size or exactly the limit, and it never exceeds the limit, so padding
  never costs an answer.\<close>

theorem padding_length:
  assumes "dns_sizes D" and "edns m = Some e" and "to_vec D (strip_padding D m) = Some w0" and "0 < block"
    and "wire_len D w0 + 4 \<le> limit" and "limit \<le> MAX_MESSAGE"
  shows "\<exists>w. encode_hop D m True True block limit = Some w \<and> wire_len D w \<le> limit \<and>
    (block dvd wire_len D w \<or> wire_len D w = limit)"
  using assms by (rule dns_sizes.encode_hop_padded)

interpretation ref_sizes: dns_sizes ref_dns
  by unfold_locales (auto simp: map_edns_def edns_insert_def ref_wire_len_def)

theorem padding_length_witness:
  "\<exists>w. encode_hop ref_dns demo_query True True 128 MAX_MESSAGE = Some w \<and>
     wire_len ref_dns w \<le> MAX_MESSAGE \<and> (128 dvd wire_len ref_dns w \<or> wire_len ref_dns w = MAX_MESSAGE)"
proof (rule padding_length[OF ref_sizes.dns_sizes_axioms])
  show "edns demo_query = Some demo_edns" by (simp add: demo_query_def)
qed (auto simp: strip_padding_def map_edns_def edns_remove_def edns_codes demo_defs ref_wire_len_def MAX_MESSAGE_def)

subsection \<open>Work keys\<close>

text \<open>What is left of a query in its work key.\<close>

lemma canonical_work_key_cases:
  assumes "canonical_work_key D q = Some k"
  obtains qq n where "queries q = [qq]" "query_class qq = IN" "signature q = None"
    "edns_within q [code_Subnet, code_Padding]" "to_vec D n = Some k"
    "n = (let n = q\<lparr>id := 0, queries := [qq\<lparr>q_name := to_lowercase D (q_name qq)\<rparr>]\<rparr> in
          if has_padding D n then map_edns (edns_insert D (Unknown code_Padding [])) (strip_padding D n) else n)"
  using assms by (auto simp: canonical_work_key_def Let_def split: list.splits if_splits)

definition same_edns :: "('n, 'w) dns_ops \<Rightarrow> edns \<Rightarrow> edns \<Rightarrow> bool" where
  "same_edns D e f \<longleftrightarrow> version e = version f \<and> max_payload e = max_payload f \<and> dnssec_ok e = dnssec_ok f \<and>
     (\<forall>c. c \<noteq> code_Padding \<longrightarrow> opt_get D c (options e) = opt_get D c (options f)) \<and>
     (opt_get D code_Padding (options e) = None \<longleftrightarrow> opt_get D code_Padding (options f) = None)"

definition same_work :: "('n, 'w) dns_ops \<Rightarrow> 'n message \<Rightarrow> 'n message \<Rightarrow> bool" where
  "same_work D q r \<longleftrightarrow> q\<lparr>id := 0, edns := None\<rparr> = r\<lparr>id := 0, edns := None\<rparr> \<and>
     rel_option (same_edns D) (edns q) (edns r)"

lemma rel_option_refl: "(\<And>x. R x x) \<Longrightarrow> rel_option R x x"
  by (cases x) auto

context dns_library
begin

lemma same_work_equiv: "same_work D q r \<Longrightarrow> same_work D q' r \<Longrightarrow> same_work D q q'"
  by (cases "edns q"; cases "edns r"; cases "edns q'") (auto simp: same_work_def same_edns_def)

lemma work_key_same:
  assumes "canonical_work_key D q = Some k"
  shows "\<exists>n. to_vec D n = Some k \<and> same_work D q n"
  using assms
proof (cases rule: canonical_work_key_cases)
  case (1 qq n)
  define m where "m = q\<lparr>id := 0\<rparr>"
  from 1(1) have q: "q\<lparr>id := 0, queries := [qq]\<rparr> = q\<lparr>id := 0\<rparr>" by simp
  have n: "n = (if has_padding D m then map_edns (edns_insert D (Unknown code_Padding [])) (strip_padding D m) else m)"
    using 1(6) q by (simp add: m_def to_lowercase_eq Let_def)
  have "opt_get D code_Padding (opt_insert D (Unknown code_Padding []) (opt_remove D code_Padding os)) = Some (Unknown code_Padding [])"
    for os using opt_get_insert[of "Unknown code_Padding []"] by (simp add: opt_get_remove)
  then have "same_work D m n"
    unfolding n same_work_def same_edns_def strip_padding_def
    by (cases "edns m") (auto simp: has_padding_def map_edns_def edns_insert_def edns_remove_def opt_get_insert_other opt_get_remove)
  then have "same_work D q n" by (simp add: same_work_def m_def)
  with 1(5) show ?thesis by blast
qed

end

text \<open>C15. Queries are coalesced only when they ask the same thing: equal work keys mean equal
  header flags, question (up to the case of the name), DO bit, payload size and client
  subnet, and the same padding intent. The message ID and the padding octets are ignored.\<close>

theorem work_key_semantic:
  assumes "dns_library D" and "canonical_work_key D q = Some k" and "canonical_work_key D r = Some k"
  shows "same_work D q r"
proof -
  from dns_library.work_key_same[OF assms(1,2)] dns_library.work_key_same[OF assms(1,3)] obtain n n' where
    n: "to_vec D n = Some k" "same_work D q n" "to_vec D n' = Some k" "same_work D r n'" by blast
  then have "n = n'" using dns_library.read_to_vec[OF assms(1) n(1)] dns_library.read_to_vec[OF assms(1) n(3)] by simp
  with n dns_library.same_work_equiv[OF assms(1)] show ?thesis by blast
qed

lemma work_key_demo: "canonical_work_key ref_dns demo_query = Some (demo_query\<lparr>id := 0\<rparr>)"
  "canonical_work_key ref_dns (demo_query\<lparr>id := 9\<rparr>) = Some (demo_query\<lparr>id := 0\<rparr>)"
  by (simp_all add: canonical_work_key_def edns_within_def has_padding_def demo_defs edns_codes)

theorem work_key_semantic_witness: "same_work ref_dns demo_query (demo_query\<lparr>id := 9\<rparr>)"
  by (rule work_key_semantic[OF ref_lib.dns_library_axioms work_key_demo])

end
