(* ===== verification/Lru.thy ===== *)
theory Lru
  imports Main
begin

text \<open>
  The interface of \<open>lru::LruCache\<close>, a third-party crate, as the sources use it: the operations
  are the fields of \<open>lru_ops\<close>; the locale \<open>lru_cache\<close> states their documented behaviour on the
  sequence of entries \<open>lru_iter\<close> yields, most recently used first. A recency list is an
  instance.
\<close>

record ('l, 'k, 'v) lru_ops =
  lru_unbounded :: 'l
  lru_iter :: "'l \<Rightarrow> ('k \<times> 'v) list"
  lru_len :: "'l \<Rightarrow> nat"
  lru_peek :: "'k \<Rightarrow> 'l \<Rightarrow> 'v option"
  lru_get :: "'k \<Rightarrow> 'l \<Rightarrow> ('v \<times> 'l) option"
  lru_get_mut :: "'k \<Rightarrow> 'l \<Rightarrow> ('v \<times> ('v \<Rightarrow> 'l)) option"
  lru_put :: "'k \<Rightarrow> 'v \<Rightarrow> 'l \<Rightarrow> 'l"
  lru_pop :: "'k \<Rightarrow> 'l \<Rightarrow> ('v \<times> 'l) option"
  lru_peek_lru :: "'l \<Rightarrow> ('k \<times> 'v) option"
  lru_pop_lru :: "'l \<Rightarrow> (('k \<times> 'v) \<times> 'l) option"
  lru_demote :: "'k \<Rightarrow> 'l \<Rightarrow> 'l"
  lru_clear :: "'l \<Rightarrow> 'l"

definition del_key :: "'k \<Rightarrow> ('k \<times> 'v) list \<Rightarrow> ('k \<times> 'v) list" where
  "del_key k xs = filter (\<lambda>p. fst p \<noteq> k) xs"

lemma map_of_del_key [simp]: "map_of (del_key k xs) = (map_of xs)(k := None)"
  by (induction xs) (auto simp: del_key_def fun_eq_iff)

lemma map_of_filter_keys: "map_of (filter (\<lambda>p. fst p \<notin> K) xs) k = (if k \<in> K then None else map_of xs k)"
  by (induction xs) auto

lemma keys_del_key [simp]: "fst ` set (del_key k xs) = fst ` set xs - {k}"
  by (auto simp: del_key_def)

lemma set_del_key: "set (del_key k xs) = {p \<in> set xs. fst p \<noteq> k}"
  by (simp add: del_key_def)

lemma distinct_del_key: "distinct (map fst xs) \<Longrightarrow> distinct (map fst (del_key k xs))"
  by (simp add: del_key_def distinct_map_filter)

lemma del_key_absent: "k \<notin> fst ` set xs \<Longrightarrow> del_key k xs = xs"
  by (induction xs) (auto simp: del_key_def)

lemma length_del_key:
  "distinct (map fst xs) \<Longrightarrow> k \<in> fst ` set xs \<Longrightarrow> Suc (length (del_key k xs)) = length xs"
proof (induction xs)
  case (Cons p xs)
  show ?case
  proof (cases "fst p = k")
    case True
    then have "del_key k xs = xs" using Cons.prems by (intro del_key_absent) auto
    with True show ?thesis by (simp add: del_key_def)
  next
    case False
    with Cons show ?thesis by (auto simp: del_key_def)
  qed
qed simp

lemma length_del_key_le: "length (del_key k xs) \<le> length xs"
  by (simp add: del_key_def)

locale lru_cache =
  fixes L :: "('l, 'k, 'v) lru_ops"
  assumes iter_distinct: "distinct (map fst (lru_iter L l))"
    and iter_unbounded: "lru_iter L (lru_unbounded L) = []"
    and len_eq: "lru_len L l = length (lru_iter L l)"
    and peek_eq: "lru_peek L k l = map_of (lru_iter L l) k"
    and get_None: "map_of (lru_iter L l) k = None \<Longrightarrow> lru_get L k l = None"
    and get_Some: "map_of (lru_iter L l) k = Some v \<Longrightarrow>
      \<exists>l'. lru_get L k l = Some (v, l') \<and> lru_iter L l' = (k, v) # del_key k (lru_iter L l)"
    and get_mut_None: "map_of (lru_iter L l) k = None \<Longrightarrow> lru_get_mut L k l = None"
    and get_mut_Some: "map_of (lru_iter L l) k = Some v \<Longrightarrow>
      \<exists>w. lru_get_mut L k l = Some (v, w) \<and> (\<forall>v'. lru_iter L (w v') = (k, v') # del_key k (lru_iter L l))"
    and iter_put: "lru_iter L (lru_put L k v l) = (k, v) # del_key k (lru_iter L l)"
    and pop_None: "map_of (lru_iter L l) k = None \<Longrightarrow> lru_pop L k l = None"
    and pop_Some: "map_of (lru_iter L l) k = Some v \<Longrightarrow>
      \<exists>l'. lru_pop L k l = Some (v, l') \<and> lru_iter L l' = del_key k (lru_iter L l)"
    and peek_lru_eq: "lru_peek_lru L l = (if lru_iter L l = [] then None else Some (last (lru_iter L l)))"
    and pop_lru_None: "lru_iter L l = [] \<Longrightarrow> lru_pop_lru L l = None"
    and pop_lru_Some: "lru_iter L l = xs @ [p] \<Longrightarrow> \<exists>l'. lru_pop_lru L l = Some (p, l') \<and> lru_iter L l' = xs"
    and iter_demote: "map_of (lru_iter L l) k = Some v \<Longrightarrow>
      lru_iter L (lru_demote L k l) = del_key k (lru_iter L l) @ [(k, v)]"
    and iter_clear: "lru_iter L (lru_clear L l) = []"
begin

lemma get_iff:
  "lru_get L k l = Some (v, l') \<Longrightarrow>
   map_of (lru_iter L l) k = Some v \<and> lru_iter L l' = (k, v) # del_key k (lru_iter L l)"
  using get_None[of l k] get_Some[of l k] by (cases "map_of (lru_iter L l) k") auto

lemma pop_iff:
  "lru_pop L k l = Some (v, l') \<Longrightarrow>
   map_of (lru_iter L l) k = Some v \<and> lru_iter L l' = del_key k (lru_iter L l)"
  using pop_None[of l k] pop_Some[of l k] by (cases "map_of (lru_iter L l) k") auto

lemma pop_absent: "lru_pop L k l = None \<Longrightarrow> map_of (lru_iter L l) k = None"
  using pop_Some[of l k] by (cases "map_of (lru_iter L l) k") auto

lemma get_mut_iff:
  "lru_get_mut L k l = Some (v, w) \<Longrightarrow>
   map_of (lru_iter L l) k = Some v \<and> lru_iter L (w v') = (k, v') # del_key k (lru_iter L l)"
  using get_mut_None[of l k] get_mut_Some[of l k] by (cases "map_of (lru_iter L l) k") auto

lemma get_mut_absent: "lru_get_mut L k l = None \<Longrightarrow> map_of (lru_iter L l) k = None"
  using get_mut_Some[of l k] by (cases "map_of (lru_iter L l) k") auto

end

subsection \<open>An instance\<close>

text \<open>A recency list; only the first pair of a key counts.\<close>

fun first_pairs :: "('k \<times> 'v) list \<Rightarrow> ('k \<times> 'v) list" where
  "first_pairs [] = []"
| "first_pairs (p # xs) = p # del_key (fst p) (first_pairs xs)"

lemma del_key_commute: "del_key a (del_key b xs) = del_key b (del_key a xs)"
  by (auto simp: del_key_def intro!: filter_cong)

lemma del_key_idem [simp]: "del_key a (del_key a xs) = del_key a xs"
  by (auto simp: del_key_def intro!: filter_cong)

lemma distinct_first_pairs [simp]: "distinct (map fst (first_pairs xs))"
  by (induction xs) (auto simp: distinct_del_key)

lemma first_pairs_id: "distinct (map fst xs) \<Longrightarrow> first_pairs xs = xs"
  by (induction xs) (auto simp: del_key_absent)

lemma first_pairs_idem [simp]: "first_pairs (first_pairs xs) = first_pairs xs"
  by (rule first_pairs_id) simp

lemma first_pairs_del_key [simp]: "first_pairs (del_key k (first_pairs xs)) = del_key k (first_pairs xs)"
  by (rule first_pairs_id) (simp add: distinct_del_key)

lemma first_pairs_Cons_del [simp]:
  "first_pairs ((k, v) # del_key k (first_pairs xs)) = (k, v) # del_key k (first_pairs xs)"
  by simp

lemma first_pairs_eq_Nil [simp]: "first_pairs xs = [] \<longleftrightarrow> xs = []"
  by (cases xs) auto

definition recency_list :: "(('k \<times> 'v) list, 'k, 'v) lru_ops" where
  "recency_list = \<lparr>
     lru_unbounded = [], lru_iter = first_pairs, lru_len = (\<lambda>xs. length (first_pairs xs)),
     lru_peek = (\<lambda>k xs. map_of (first_pairs xs) k),
     lru_get = (\<lambda>k xs. map_option (\<lambda>v. (v, (k, v) # del_key k (first_pairs xs))) (map_of (first_pairs xs) k)),
     lru_get_mut = (\<lambda>k xs. map_option (\<lambda>v. (v, \<lambda>v'. (k, v') # del_key k (first_pairs xs))) (map_of (first_pairs xs) k)),
     lru_put = (\<lambda>k v xs. (k, v) # del_key k (first_pairs xs)),
     lru_pop = (\<lambda>k xs. map_option (\<lambda>v. (v, del_key k (first_pairs xs))) (map_of (first_pairs xs) k)),
     lru_peek_lru = (\<lambda>xs. if xs = [] then None else Some (last (first_pairs xs))),
     lru_pop_lru = (\<lambda>xs. if xs = [] then None else Some (last (first_pairs xs), butlast (first_pairs xs))),
     lru_demote = (\<lambda>k xs. case map_of (first_pairs xs) k of
        None \<Rightarrow> xs | Some v \<Rightarrow> del_key k (first_pairs xs) @ [(k, v)]),
     lru_clear = (\<lambda>_. [])\<rparr>"

lemma recency_list_sel [simp]:
  "lru_unbounded recency_list = []" "lru_iter recency_list = first_pairs"
  "lru_len recency_list xs = length (first_pairs xs)" "lru_peek recency_list k xs = map_of (first_pairs xs) k"
  "lru_get recency_list k xs = map_option (\<lambda>v. (v, (k, v) # del_key k (first_pairs xs))) (map_of (first_pairs xs) k)"
  "lru_get_mut recency_list k xs = map_option (\<lambda>v. (v, \<lambda>v'. (k, v') # del_key k (first_pairs xs))) (map_of (first_pairs xs) k)"
  "lru_put recency_list k v xs = (k, v) # del_key k (first_pairs xs)"
  "lru_pop recency_list k xs = map_option (\<lambda>v. (v, del_key k (first_pairs xs))) (map_of (first_pairs xs) k)"
  "lru_peek_lru recency_list xs = (if xs = [] then None else Some (last (first_pairs xs)))"
  "lru_pop_lru recency_list xs = (if xs = [] then None else Some (last (first_pairs xs), butlast (first_pairs xs)))"
  "lru_demote recency_list k xs = (case map_of (first_pairs xs) k of
        None \<Rightarrow> xs | Some v \<Rightarrow> del_key k (first_pairs xs) @ [(k, v)])"
  "lru_clear recency_list xs = []"
  by (simp_all add: recency_list_def)

lemma distinct_append_del:
  "distinct (map fst xs) \<Longrightarrow> distinct (map fst (del_key k xs @ [(k, v)]))"
  by (auto simp: distinct_del_key set_del_key)

interpretation recency: lru_cache recency_list
proof unfold_locales
  fix l :: "('a \<times> 'b) list" and k :: 'a and v :: 'b
  assume "map_of (lru_iter recency_list l) k = Some v"
  then show "lru_iter recency_list (lru_demote recency_list k l) = del_key k (lru_iter recency_list l) @ [(k, v)]"
    using first_pairs_id[OF distinct_append_del[of "first_pairs l" k v]] by simp
next
  fix l :: "('a \<times> 'b) list" and xs :: "('a \<times> 'b) list" and p :: "'a \<times> 'b"
  assume "lru_iter recency_list l = xs @ [p]"
  then have fp: "first_pairs l = xs @ [p]" by simp
  then have "distinct (map fst xs)" using distinct_first_pairs[of l] by simp
  moreover from fp have "l \<noteq> []" by auto
  ultimately show "\<exists>l'. lru_pop_lru recency_list l = Some (p, l') \<and> lru_iter recency_list l' = xs"
    using fp by (auto simp: first_pairs_id)
qed auto

end
