(* ===== verification/Sharing.thy ===== *)
theory Sharing
  imports Protocol Lru "HOL-Library.List_Lexorder" "HOL-Library.Sublist"
begin

text \<open>
  Learned sharing of answers that upstreams return without a client subnet,
  \<open>src/src/cache/sharing.rs\<close>, with the cache key and the positive/negative classification of
  \<open>src/src/cache.rs\<close> it is built on. The table of classification records is an LRU cache
  (parameter \<open>L\<close>). The main results: an answer is shared across a family only on the
  evidence the module promises (\<open>learned_evidence\<close>), and the fingerprint of an answer
  depends on exactly its normalised content (\<open>fingerprint_exact\<close>).
\<close>

subsection \<open>Cache keys\<close>

record 'n key =
  k_name :: 'n
  k_kind :: record_type
  k_class :: dns_class
  k_dnssec_ok :: bool
  k_checking_disabled :: bool
  k_recursion_desired :: bool
  k_edns :: bool

definition key_name :: "('n, 'w) dns_ops \<Rightarrow> 'n \<Rightarrow> 'n" where
  "key_name D n = set_fqdn D (to_lowercase D n)"

definition plain_edns :: "'n message \<Rightarrow> bool" where
  "plain_edns m = edns_within m [code_Subnet, code_Padding]"

text \<open>\<open>Key::of\<close>: the outer option is the panic of a message without a question.\<close>

definition key_of :: "('n, 'w) dns_ops \<Rightarrow> 'n message \<Rightarrow> 'n key option option" where
  "key_of D query = (case queries query of
     [] \<Rightarrow> None
   | q # _ \<Rightarrow> Some
      (if query_class q \<noteq> IN \<or> \<not> plain_edns query then None
       else Some \<lparr>k_name = key_name D (q_name q), k_kind = query_type q, k_class = query_class q,
         k_dnssec_ok = (case edns query of None \<Rightarrow> False | Some e \<Rightarrow> dnssec_ok e),
         k_checking_disabled = checking_disabled query, k_recursion_desired = recursion_desired query,
         k_edns = (edns query \<noteq> None)\<rparr>))"

definition is_negative :: "'n question \<Rightarrow> 'n message \<Rightarrow> bool" where
  "is_negative q response \<longleftrightarrow> response_code response = NXDomain \<or>
     \<not> list_ex (\<lambda>rr. rr_type rr = query_type q) (answers response)"

subsection \<open>The classification table\<close>

definition MAX_RECORDS :: nat where
  "MAX_RECORDS = 65536"

definition SHARED_MAX_AGE :: duration where
  "SHARED_MAX_AGE = from_secs 3600"

definition capacity_for :: "nat \<Rightarrow> nat \<Rightarrow> nat" where
  "capacity_for max_entries shards = div_ceil (clamp 1024 MAX_RECORDS (saturating_mul max_entries 2)) shards"

type_synonym fingerprint = bytes

datatype sh_state = SShared | SObserving | SRevoked

record sample =
  network :: ip_net
  expires :: instant

datatype phase = Observing fingerprint "sample list" | Shared fingerprint instant | Revoked instant

record 'n sh_class =
  cl_key :: "'n key"
  cl_ipv4 :: bool

record 'l table =
  records :: 'l
  capacity :: nat

record observation =
  ob_scope :: scope
  ob_revoked :: bool

record sharing_config =
  sharing_enabled :: bool
  min_networks :: nat
  revoke_cooldown_secs :: nat

type_synonym ('l, 'n) class_lru = "('l, 'n sh_class, phase) lru_ops"

definition table_new :: "('l, 'n) class_lru \<Rightarrow> nat \<Rightarrow> 'l table" where
  "table_new L cap = \<lparr>records = lru_unbounded L, capacity = max cap 1\<rparr>"

text \<open>The span of a network: its /16 (IPv6 /32), or the network itself when it is broader.\<close>

definition span_of :: "net_ops \<Rightarrow> ip_net \<Rightarrow> ip_net option" where
  "span_of N n = map_option (trunc N)
     (net_new N (net_addr n) (min (prefix_len n) (if is_ipv4 (net_addr n) then 16 else 32)))"

definition promotable :: "net_ops \<Rightarrow> sample list \<Rightarrow> nat \<Rightarrow> bool" where
  "promotable N samples m \<longleftrightarrow> m \<le> length samples \<and>
     (case samples of [] \<Rightarrow> False
      | s # _ \<Rightarrow> list_ex (\<lambda>t. span_of N (network t) \<noteq> span_of N (network s)) samples)"

fun shrink :: "('l, 'k, 'v) lru_ops \<Rightarrow> nat \<Rightarrow> nat \<Rightarrow> 'l \<Rightarrow> 'l option" where
  "shrink L cap 0 l = None"
| "shrink L cap (Suc fuel) l =
     (if cap < lru_len L l
      then shrink L cap fuel (case lru_pop_lru L l of None \<Rightarrow> l | Some (_, l') \<Rightarrow> l')
      else Some l)"

definition disjoint_nets :: "net_ops \<Rightarrow> ip_net \<Rightarrow> ip_net \<Rightarrow> bool" where
  "disjoint_nets N a b \<longleftrightarrow> \<not> contains N a (net_addr b) \<and> \<not> contains N b (net_addr a)"

text \<open>The index of the first sample that expires first.\<close>

definition oldest_sample :: "sample list \<Rightarrow> nat option" where
  "oldest_sample ss = map_option fst (min_by_key (\<lambda>p. expires (snd p)) (List.enumerate 0 ss))"

text \<open>A new answer for an observed class: the samples with it.\<close>

definition add_sample :: "net_ops \<Rightarrow> nat \<Rightarrow> sample list \<Rightarrow> sample \<Rightarrow> sample list" where
  "add_sample N m ss s =
     (let ss1 = filter (\<lambda>t. disjoint_nets N (network t) (network s)) ss;
          ss2 = (if m \<le> length ss1
                 then (case oldest_sample ss1 of Some i \<Rightarrow> swap_remove i ss1 | None \<Rightarrow> ss1)
                 else ss1)
      in ss2 @ [s])"

text \<open>The arms of the match on the phase of an existing record: the new phase and the
  observation.\<close>

definition observe_phase ::
  "net_ops \<Rightarrow> sharing_config \<Rightarrow> bool \<Rightarrow> scope \<Rightarrow> fingerprint option \<Rightarrow> sample option \<Rightarrow> instant \<Rightarrow>
   phase \<Rightarrow> phase \<times> observation" where
  "observe_phase N cfg v4 sc fp smp now ph =
     (let unchanged = \<lparr>ob_scope = sc, ob_revoked = False\<rparr>;
          learned = \<lparr>ob_scope = Learned v4, ob_revoked = False\<rparr>;
          revoke = (Revoked (now + from_secs (revoke_cooldown_secs cfg)), \<lparr>ob_scope = sc, ob_revoked = True\<rparr>);
          restart = (case fp of
                       Some f \<Rightarrow> (Observing f (case smp of Some s \<Rightarrow> [s] | None \<Rightarrow> []), unchanged)
                     | None \<Rightarrow> (ph, unchanged))
      in case ph of
           Revoked until \<Rightarrow> if now < until then (ph, unchanged) else restart
         | Shared shared since \<Rightarrow>
             if SHARED_MAX_AGE \<le> saturating_duration_since now since then restart
             else if fp = Some shared then (ph, learned)
             else revoke
         | Observing observed samples \<Rightarrow>
             (let samples = filter (\<lambda>s. now < expires s) samples in
              case fp of
                None \<Rightarrow> if samples = [] then (Observing observed samples, unchanged) else revoke
              | Some f \<Rightarrow>
                  if samples \<noteq> [] \<and> observed \<noteq> f then revoke
                  else (case smp of
                          None \<Rightarrow> (Observing f samples, unchanged)
                        | Some s \<Rightarrow>
                            (let samples = add_sample N (min_networks cfg) samples s in
                             if promotable N samples (min_networks cfg)
                             then (Shared f now, learned)
                             else (Observing f samples, unchanged)))))"

text \<open>\<open>Table::observe\<close>; \<open>None\<close> is a shrinking loop that ran out of fuel.\<close>

definition observe ::
  "net_ops \<Rightarrow> ('l, 'n) class_lru \<Rightarrow> 'l table \<Rightarrow> 'n key \<Rightarrow> scope \<Rightarrow> fingerprint option \<Rightarrow>
   duration option \<Rightarrow> instant \<Rightarrow> sharing_config \<Rightarrow> (observation \<times> 'l table) option" where
  "observe N L t key sc fp lifetime now cfg =
     (let unchanged = \<lparr>ob_scope = sc, ob_revoked = False\<rparr>;
          revoke_until = now + from_secs (revoke_cooldown_secs cfg)
      in case sc of
        ExactSource net \<Rightarrow>
          (let cls = \<lparr>cl_key = key, cl_ipv4 = is_ipv4 (net_addr net)\<rparr>;
               smp = map_option (\<lambda>d. \<lparr>network = net, expires = now + d\<rparr>) lifetime
           in case lru_get_mut L cls (records t) of
                None \<Rightarrow>
                  (case fp of
                     None \<Rightarrow> Some (unchanged, t)
                   | Some f \<Rightarrow>
                       (let l = lru_put L cls (Observing f (case smp of Some s \<Rightarrow> [s] | None \<Rightarrow> [])) (records t)
                        in map_option (\<lambda>l'. (unchanged, t\<lparr>records := l'\<rparr>))
                             (shrink L (capacity t) (Suc (lru_len L l)) l)))
              | Some (ph, write) \<Rightarrow>
                  (case observe_phase N cfg (cl_ipv4 cls) sc fp smp now ph of
                     (ph', ob) \<Rightarrow> Some (ob, t\<lparr>records := write ph'\<rparr>)))
      | Network net \<Rightarrow>
          if 0 < prefix_len net then
            (let cls = \<lparr>cl_key = key, cl_ipv4 = is_ipv4 (net_addr net)\<rparr> in
             case lru_get_mut L cls (records t) of
               None \<Rightarrow> Some (unchanged, t)
             | Some (ph, write) \<Rightarrow>
                 if \<not> (case ph of Revoked until \<Rightarrow> now < until | _ \<Rightarrow> False)
                 then Some (\<lparr>ob_scope = sc, ob_revoked = True\<rparr>, t\<lparr>records := write (Revoked revoke_until)\<rparr>)
                 else Some (unchanged, t\<lparr>records := write ph\<rparr>))
          else Some (unchanged, t)
      | _ \<Rightarrow> Some (unchanged, t))"

subsection \<open>Inspection and invalidation\<close>

text \<open>The states are ordered from least to most cautious.\<close>

fun sh_rank :: "sh_state \<Rightarrow> nat" where
  "sh_rank SShared = 0"
| "sh_rank SObserving = 1"
| "sh_rank SRevoked = 2"

lemma sh_rank_inj: "sh_rank a = sh_rank b \<Longrightarrow> a = b"
  by (cases a; cases b) auto

instantiation sh_state :: linorder
begin

definition less_eq_sh_state :: "sh_state \<Rightarrow> sh_state \<Rightarrow> bool" where
  "less_eq_sh_state a b \<longleftrightarrow> sh_rank a \<le> sh_rank b"

definition less_sh_state :: "sh_state \<Rightarrow> sh_state \<Rightarrow> bool" where
  "less_sh_state a b \<longleftrightarrow> sh_rank a < sh_rank b"

instance
  by standard (auto simp: less_eq_sh_state_def less_sh_state_def dest: sh_rank_inj)

end

definition phase_state :: "phase \<Rightarrow> instant \<Rightarrow> sh_state option" where
  "phase_state ph now = (case ph of
     Observing _ _ \<Rightarrow> Some SObserving
   | Shared _ since \<Rightarrow> if SHARED_MAX_AGE \<le> saturating_duration_since now since then Some SObserving else Some SShared
   | Revoked until \<Rightarrow> if now < until then Some SRevoked else None)"

definition states :: "('l, 'n) class_lru \<Rightarrow> 'l table \<Rightarrow> 'n \<Rightarrow> record_type option \<Rightarrow> instant \<Rightarrow> sh_state list" where
  "states L t name kind now = List.map_filter (\<lambda>(cls, ph).
     if k_name (cl_key cls) \<noteq> name \<or> (case kind of None \<Rightarrow> False | Some k \<Rightarrow> k \<noteq> k_kind (cl_key cls)) then None
     else phase_state ph now) (lru_iter L (records t))"

text \<open>The family a namespace filter is about; the outer \<open>None\<close> is the early return for the
  namespaces that never hold learned entries.\<close>

definition filter_family :: "scope option \<Rightarrow> bool option option" where
  "filter_family sc = (case sc of
     None \<Rightarrow> Some None
   | Some (Learned v4) \<Rightarrow> Some (Some v4)
   | Some (Network n) \<Rightarrow> if 0 < prefix_len n then Some (Some (is_ipv4 (net_addr n))) else None
   | Some (ExactSource n) \<Rightarrow> if 0 < prefix_len n then Some (Some (is_ipv4 (net_addr n))) else None
   | Some _ \<Rightarrow> None)"

definition class_matches :: "'n option \<Rightarrow> record_type option \<Rightarrow> bool option \<Rightarrow> 'n sh_class \<Rightarrow> bool" where
  "class_matches name kind family cls \<longleftrightarrow>
     (case name of None \<Rightarrow> True | Some n \<Rightarrow> k_name (cl_key cls) = n) \<and>
     (case kind of None \<Rightarrow> True | Some k \<Rightarrow> k_kind (cl_key cls) = k) \<and>
     (case family of None \<Rightarrow> True | Some v4 \<Rightarrow> cl_ipv4 cls = v4)"

fun pop_all :: "('l, 'k, 'v) lru_ops \<Rightarrow> 'k list \<Rightarrow> 'l \<Rightarrow> 'l" where
  "pop_all L [] l = l"
| "pop_all L (k # ks) l = pop_all L ks (case lru_pop L k l of None \<Rightarrow> l | Some (_, l') \<Rightarrow> l')"

definition invalidate_table ::
  "('l, 'n) class_lru \<Rightarrow> 'l table \<Rightarrow> 'n option \<Rightarrow> record_type option \<Rightarrow> scope option \<Rightarrow> 'l table" where
  "invalidate_table L t name kind sc = (case filter_family sc of
     None \<Rightarrow> t
   | Some family \<Rightarrow>
       if name = None \<and> kind = None \<and> family = None then t\<lparr>records := lru_clear L (records t)\<rparr>
       else t\<lparr>records := pop_all L
              (map fst (filter (\<lambda>(cls, _). class_matches name kind family cls) (lru_iter L (records t)))) (records t)\<rparr>)"

subsection \<open>The table stays bounded\<close>

context lru_cache
begin

lemma shrink_ok:
  "length (lru_iter L l) < fuel \<Longrightarrow>
   \<exists>l'. shrink L cap fuel l = Some l' \<and> length (lru_iter L l') \<le> cap \<and> prefix (lru_iter L l') (lru_iter L l)"
proof (induction fuel arbitrary: l)
  case (Suc fuel)
  show ?case
  proof (cases "cap < lru_len L l")
    case True
    then obtain xs p where it: "lru_iter L l = xs @ [p]"
      by (cases "lru_iter L l" rule: rev_cases) (auto simp: len_eq)
    from pop_lru_Some[OF it] obtain l' where l': "lru_pop_lru L l = Some (p, l')" "lru_iter L l' = xs" by blast
    from Suc.IH[of l'] Suc.prems it l' obtain l'' where
      "shrink L cap fuel l' = Some l''" "length (lru_iter L l'') \<le> cap" "prefix (lru_iter L l'') xs" by auto
    with True it l' show ?thesis by (auto intro: prefix_prefix)
  qed (auto simp: len_eq)
qed simp

lemma pop_all_iter:
  "lru_iter L (pop_all L ks l) = filter (\<lambda>p. fst p \<notin> set ks) (lru_iter L l)"
proof (induction ks arbitrary: l)
  case (Cons k ks)
  have "lru_iter L (case lru_pop L k l of None \<Rightarrow> l | Some (_, l') \<Rightarrow> l') = del_key k (lru_iter L l)"
    using pop_absent[of k l] pop_iff[of k l]
    by (auto split: option.splits intro!: del_key_absent[symmetric] simp: map_of_eq_None_iff)
  with Cons.IH show ?case by (auto simp: del_key_def intro!: filter_cong)
qed simp

end

text \<open>The phase a table holds for a class.\<close>

definition phase_of :: "('l, 'n) class_lru \<Rightarrow> 'l table \<Rightarrow> 'n sh_class \<Rightarrow> phase option" where
  "phase_of L t cls = map_of (lru_iter L (records t)) cls"

definition table_ok :: "('l, 'n) class_lru \<Rightarrow> 'l table \<Rightarrow> bool" where
  "table_ok L t \<longleftrightarrow> length (lru_iter L (records t)) \<le> capacity t"

subsection \<open>Samples\<close>

abbreviation disjoint_samples :: "net_ops \<Rightarrow> sample list \<Rightarrow> bool" where
  "disjoint_samples N ss \<equiv> sorted_wrt (\<lambda>a b. disjoint_nets N (network a) (network b)) ss"

lemma disjoint_nets_sym: "disjoint_nets N a b \<longleftrightarrow> disjoint_nets N b a"
  by (auto simp: disjoint_nets_def)

lemma nth_swap_remove:
  "k < length xs - 1 \<Longrightarrow> swap_remove i xs ! k = (if k = i then xs ! (length xs - 1) else xs ! k)"
  by (cases "xs = []") (auto simp: swap_remove_def nth_butlast last_conv_nth nth_list_update)

lemma swap_remove_sorted_wrt:
  assumes "sorted_wrt R xs" and "\<And>a b. R a b \<Longrightarrow> R b a" and "i < length xs"
  shows "sorted_wrt R (swap_remove i xs)"
  unfolding sorted_wrt_iff_nth_less
proof (intro allI impI)
  fix a b assume ab: "a < b" "b < length (swap_remove i xs)"
  have R: "R (xs ! x) (xs ! y)" if "x < length xs" "y < length xs" "x \<noteq> y" for x y
    using assms(1,2) that by (metis linorder_neqE_nat sorted_wrt_nth_less)
  from ab show "R (swap_remove i xs ! a) (swap_remove i xs ! b)"
    by (auto simp: nth_swap_remove intro!: R)
qed

lemma oldest_sample_lt: "oldest_sample ss = Some i \<Longrightarrow> i < length ss"
  by (auto simp: oldest_sample_def dest!: min_by_key_in simp: in_set_enumerate_eq)

lemma oldest_sample_None [simp]: "oldest_sample ss = None \<longleftrightarrow> ss = []"
  by (auto simp: oldest_sample_def simp flip: length_greater_0_conv dest: arg_cong[of _ _ length])

lemma add_sample_set: "t \<in> set (add_sample N m ss s) \<Longrightarrow> t = s \<or> t \<in> set ss"
  using set_swap_remove
  by (fastforce simp: add_sample_def Let_def dest: oldest_sample_lt split: if_splits option.splits)

lemma add_sample_mem [simp]: "s \<in> set (add_sample N m ss s)"
  by (simp add: add_sample_def Let_def)

lemma add_sample_disjoint:
  assumes "disjoint_samples N ss"
  shows "disjoint_samples N (add_sample N m ss s)"
proof -
  let ?f = "filter (\<lambda>t. disjoint_nets N (network t) (network s)) ss"
  have f: "disjoint_samples N ?f" using assms by (rule sorted_wrt_filter)
  have sym: "disjoint_nets N (network a) (network b) \<Longrightarrow> disjoint_nets N (network b) (network a)" for a b
    by (simp add: disjoint_nets_sym)
  define g where "g = (if m \<le> length ?f then (case oldest_sample ?f of Some i \<Rightarrow> swap_remove i ?f | None \<Rightarrow> ?f) else ?f)"
  have "disjoint_samples N g \<and> set g \<subseteq> set ?f"
    using f swap_remove_sorted_wrt[OF f sym] set_swap_remove[of _ ?f] oldest_sample_lt[of ?f]
    by (auto simp: g_def split: option.splits)
  moreover have "add_sample N m ss s = g @ [s]" by (simp add: add_sample_def g_def Let_def)
  ultimately show ?thesis by (auto simp: sorted_wrt_append)
qed

lemma add_sample_length: "length ss \<le> max 1 m \<Longrightarrow> length (add_sample N m ss s) \<le> max 1 m"
proof -
  assume "length ss \<le> max 1 m"
  moreover have "length (filter P ss) \<le> length ss" for P by simp
  ultimately have "length (filter (\<lambda>t. disjoint_nets N (network t) (network s)) ss) \<le> max 1 m"
    by (meson order_trans)
  then show ?thesis
    by (auto simp: add_sample_def Let_def split: option.splits)
qed

subsection \<open>Runs of the table\<close>

datatype 'n sh_op =
    Obs "'n key" scope "fingerprint option" "duration option" instant
  | Inval "'n option" "record_type option" "scope option"

record ('l, 'n) sh_sys =
  sh_table :: "'l table"
  sh_log :: "'n sh_op list"

definition sh_init :: "('l, 'n) class_lru \<Rightarrow> nat \<Rightarrow> ('l, 'n) sh_sys" where
  "sh_init L cap = \<lparr>sh_table = table_new L cap, sh_log = []\<rparr>"

fun sh_exec :: "net_ops \<Rightarrow> ('l, 'n) class_lru \<Rightarrow> sharing_config \<Rightarrow> ('l, 'n) sh_sys \<Rightarrow> 'n sh_op \<Rightarrow> ('l, 'n) sh_sys option" where
  "sh_exec N L cfg sys (Obs k sc fp d now) =
     map_option (\<lambda>(ob, t). \<lparr>sh_table = t, sh_log = Obs k sc fp d now # sh_log sys\<rparr>)
       (observe N L (sh_table sys) k sc fp d now cfg)"
| "sh_exec N L cfg sys (Inval name kind sc) =
     Some (sys\<lparr>sh_table := invalidate_table L (sh_table sys) name kind sc\<rparr>)"

fun op_time :: "'n sh_op \<Rightarrow> instant" where
  "op_time (Obs _ _ _ _ now) = now"
| "op_time (Inval _ _ _) = 0"

fun op_class :: "'n sh_op \<Rightarrow> 'n sh_class option" where
  "op_class (Obs k (ExactSource n) _ _ _) = Some \<lparr>cl_key = k, cl_ipv4 = is_ipv4 (net_addr n)\<rparr>"
| "op_class (Obs k (Network n) _ _ _) =
     (if 0 < prefix_len n then Some \<lparr>cl_key = k, cl_ipv4 = is_ipv4 (net_addr n)\<rparr> else None)"
| "op_class _ = None"

text \<open>The observations of one class, latest first.\<close>

definition class_log :: "'n sh_class \<Rightarrow> 'n sh_op list \<Rightarrow> 'n sh_op list" where
  "class_log c os = filter (\<lambda>p. op_class p = Some c) os"

fun agrees :: "fingerprint \<Rightarrow> 'n sh_op \<Rightarrow> bool" where
  "agrees f (Obs _ (ExactSource _) fp _ _) = (fp = Some f)"
| "agrees f _ = False"

text \<open>A sample is backed by an admitted answer that no later observation of the class
  contradicts.\<close>

definition evidence :: "fingerprint \<Rightarrow> sample \<Rightarrow> 'n sh_op list \<Rightarrow> bool" where
  "evidence f s h \<longleftrightarrow> (\<exists>newer k d now older.
     h = newer @ Obs k (ExactSource (network s)) (Some f) (Some d) now # older \<and>
     expires s = now + d \<and> (\<forall>p \<in> set newer. agrees f p))"

definition shared_evidence :: "net_ops \<Rightarrow> nat \<Rightarrow> fingerprint \<Rightarrow> instant \<Rightarrow> 'n sh_op list \<Rightarrow> bool" where
  "shared_evidence N m f since h \<longleftrightarrow> (\<exists>p \<in> set h. op_time p = since) \<and>
     (\<exists>ss. promotable N ss m \<and> disjoint_samples N ss \<and> (\<forall>s \<in> set ss. evidence f s h \<and> since \<le> expires s))"

definition phase_just :: "net_ops \<Rightarrow> nat \<Rightarrow> 'n sh_op list \<Rightarrow> phase \<Rightarrow> bool" where
  "phase_just N m h ph = (case ph of
     Observing f ss \<Rightarrow> (\<forall>s \<in> set ss. evidence f s h) \<and> disjoint_samples N ss \<and> length ss \<le> max 1 m
   | Shared f since \<Rightarrow> shared_evidence N m f since h \<or> (\<exists>p \<in> set h. since + SHARED_MAX_AGE \<le> op_time p)
   | Revoked _ \<Rightarrow> True)"

lemma evidence_now:
  "evidence f \<lparr>network = n, expires = now + d\<rparr> (Obs k (ExactSource n) (Some f) (Some d) now # h)"
  unfolding evidence_def by (rule exI[of _ "[]"]) auto

lemma evidence_later: "evidence f s h \<Longrightarrow> agrees f p \<Longrightarrow> evidence f s (p # h)"
  unfolding evidence_def by (metis append_Cons set_ConsD)

lemma shared_evidence_later: "shared_evidence N m f since h \<Longrightarrow> agrees f p \<Longrightarrow> shared_evidence N m f since (p # h)"
  unfolding shared_evidence_def using evidence_later by fastforce

text \<open>What one observation leaves behind: a justified phase, and evidence when it shares.\<close>

definition step_just ::
  "net_ops \<Rightarrow> nat \<Rightarrow> 'n sh_op list \<Rightarrow> fingerprint option \<Rightarrow> instant \<Rightarrow> phase \<Rightarrow> observation \<Rightarrow> bool" where
  "step_just N m h fp now ph ob \<longleftrightarrow> phase_just N m h ph \<and>
     ((\<exists>v4. ob_scope ob = Learned v4) \<longrightarrow>
       (\<exists>f since. fp = Some f \<and> now - since < SHARED_MAX_AGE \<and> shared_evidence N m f since h))"

lemma SHARED_MAX_AGE_pos: "0 < SHARED_MAX_AGE"
  by (simp add: SHARED_MAX_AGE_def from_secs_def)

lemma observe_shared_just:
  assumes "phase_just N (min_networks cfg) h (Shared shared since)"
    and "observe_phase N cfg v4 (ExactSource n) fp (map_option (\<lambda>d. \<lparr>network = n, expires = now + d\<rparr>) d) now
      (Shared shared since) = (ph', ob)"
    and "p = Obs k (ExactSource n) fp d now" and "\<forall>q \<in> set h. op_time q \<le> now"
    and start: "\<And>f. fp = Some f \<Longrightarrow> phase_just N (min_networks cfg) (p # h)
      (Observing f (case map_option (\<lambda>d. \<lparr>network = n, expires = now + d\<rparr>) d of Some s \<Rightarrow> [s] | None \<Rightarrow> []))"
  shows "step_just N (min_networks cfg) (p # h) fp now ph' ob"
proof (cases "now - since < SHARED_MAX_AGE")
  case True
  have "\<not> since + SHARED_MAX_AGE \<le> op_time q" if "q \<in> set h" for q
    using assms(4) that True SHARED_MAX_AGE_pos by fastforce
  with assms(1) have "shared_evidence N (min_networks cfg) shared since h" by (auto simp: phase_just_def)
  then have "shared_evidence N (min_networks cfg) shared since (p # h)" if "fp = Some shared"
    by (rule shared_evidence_later) (use that assms(3) in simp)
  with assms(2) True show ?thesis
    by (auto simp: step_just_def observe_phase_def Let_def phase_just_def saturating_duration_since_def split: if_splits)
next
  case False
  then have old: "phase_just N (min_networks cfg) (p # h) (Shared shared since)"
    using assms(3) SHARED_MAX_AGE_pos by (auto simp: phase_just_def)
  show ?thesis
  proof (cases fp)
    case None
    with assms(2) False old show ?thesis
      by (auto simp: step_just_def observe_phase_def Let_def saturating_duration_since_def)
  next
    case (Some f)
    with assms(2) False start show ?thesis
      by (auto simp: step_just_def observe_phase_def Let_def saturating_duration_since_def)
  qed
qed

lemma observe_observing_just:
  assumes "phase_just N (min_networks cfg) h (Observing observed samples)"
    and "observe_phase N cfg v4 (ExactSource n) fp (map_option (\<lambda>d. \<lparr>network = n, expires = now + d\<rparr>) d) now
      (Observing observed samples) = (ph', ob)"
    and "p = Obs k (ExactSource n) fp d now"
  shows "step_just N (min_networks cfg) (p # h) fp now ph' ob"
proof -
  let ?live = "filter (\<lambda>s. now < expires s) samples"
  have live: "disjoint_samples N ?live" "length ?live \<le> max 1 (min_networks cfg)" "\<forall>s \<in> set ?live. evidence observed s h"
    using assms(1) order_trans[OF length_filter_le] by (auto simp: phase_just_def sorted_wrt_filter)
  consider (revoke) "\<exists>u. ph' = Revoked u" "ob_scope ob = ExactSource n"
    | (empty) "ph' = Observing observed []" "ob_scope ob = ExactSource n"
    | (keep) f where "fp = Some f" "?live = [] \<or> observed = f" "ph' = Observing f ?live" "ob_scope ob = ExactSource n"
    | (add) f d' ss where "fp = Some f" "?live = [] \<or> observed = f" "d = Some d'"
        "ss = add_sample N (min_networks cfg) ?live \<lparr>network = n, expires = now + d'\<rparr>"
        "if promotable N ss (min_networks cfg) then ph' = Shared f now \<and> ob_scope ob = Learned v4
         else ph' = Observing f ss \<and> ob_scope ob = ExactSource n"
    using assms(2) by (auto simp: observe_phase_def Let_def split: option.splits if_splits)
  then show ?thesis
  proof cases
    case (keep f)
    have "evidence f s (p # h)" if "s \<in> set ?live" for s
    proof -
      from that keep(2) have "observed = f" by (metis empty_iff list.set(1))
      with live(3) that have "evidence f s h" by auto
      then show ?thesis by (rule evidence_later) (use keep assms(3) in simp)
    qed
    with live keep show ?thesis by (simp add: step_just_def phase_just_def)
  next
    case (add f d' ss)
    have "evidence f s (p # h)" if "s \<in> set ?live" for s
    proof -
      from that add(2) have "observed = f" by (metis empty_iff list.set(1))
      with live(3) that have "evidence f s h" by auto
      then show ?thesis by (rule evidence_later) (use add assms(3) in simp)
    qed
    moreover have "evidence f \<lparr>network = n, expires = now + d'\<rparr> (p # h)"
      using add assms(3) by (simp add: evidence_now)
    ultimately have ev: "\<forall>s \<in> set ss. evidence f s (p # h)" using add(4) add_sample_set by blast
    have dis: "disjoint_samples N ss" "length ss \<le> max 1 (min_networks cfg)"
      using add(4) add_sample_disjoint[OF live(1)] add_sample_length[OF live(2)] by simp_all
    have live_now: "now \<le> expires s" if "s \<in> set ss" for s
      using that add_sample_set[of s N "min_networks cfg" ?live] add(4) by fastforce
    have "shared_evidence N (min_networks cfg) f now (p # h)" if "promotable N ss (min_networks cfg)"
      using that dis(1) ev live_now assms(3) by (auto simp: shared_evidence_def)
    with add(1,5) ev dis SHARED_MAX_AGE_pos show ?thesis
      by (auto simp: step_just_def phase_just_def split: if_splits intro!: exI[of _ now])
  qed (auto simp: step_just_def phase_just_def)
qed

lemma start_just:
  "phase_just N m (Obs k (ExactSource n) (Some f) d now # h)
     (Observing f (case map_option (\<lambda>d. \<lparr>network = n, expires = now + d\<rparr>) d of Some s \<Rightarrow> [s] | None \<Rightarrow> []))"
  using evidence_now[of f n now] by (auto simp: phase_just_def split: option.splits)

lemma observe_phase_just:
  assumes "phase_just N (min_networks cfg) h ph"
    and "observe_phase N cfg v4 (ExactSource n) fp (map_option (\<lambda>d. \<lparr>network = n, expires = now + d\<rparr>) d) now ph = (ph', ob)"
    and "p = Obs k (ExactSource n) fp d now" and "\<forall>q \<in> set h. op_time q \<le> now"
  shows "step_just N (min_networks cfg) (p # h) fp now ph' ob"
proof -
  have start: "phase_just N (min_networks cfg) (p # h)
      (Observing f (case map_option (\<lambda>d. \<lparr>network = n, expires = now + d\<rparr>) d of Some s \<Rightarrow> [s] | None \<Rightarrow> []))"
    if "fp = Some f" for f
    using start_just that assms(3) by simp
  show ?thesis
  proof (cases ph)
    case (Revoked until)
    with assms(2) start show ?thesis
      by (auto simp: observe_phase_def Let_def step_just_def phase_just_def split: option.splits if_splits)
  qed (use assms observe_shared_just[OF _ _ assms(3,4) start] observe_observing_just[OF _ _ assms(3)] in auto)
qed

subsection \<open>Sharing rests on evidence\<close>

definition sh_inv :: "net_ops \<Rightarrow> ('l, 'n) class_lru \<Rightarrow> nat \<Rightarrow> ('l, 'n) sh_sys \<Rightarrow> bool" where
  "sh_inv N L m sys \<longleftrightarrow> table_ok L (sh_table sys) \<and>
     (\<forall>c ph. phase_of L (sh_table sys) c = Some ph \<longrightarrow> phase_just N m (class_log c (sh_log sys)) ph)"

lemma class_log_Cons: "class_log c (p # os) = (if op_class p = Some c then p # class_log c os else class_log c os)"
  by (simp add: class_log_def)

lemma set_class_log: "set (class_log c os) \<subseteq> set os"
  by (auto simp: class_log_def)

lemma map_of_prefix: "prefix xs ys \<Longrightarrow> map_of xs k = Some v \<Longrightarrow> map_of ys k = Some v"
  by (auto simp: prefix_def)

text \<open>The four things an observation can do to the table: nothing, revoke the record of its
  class, start a record, or move an existing record to its next phase.\<close>

abbreviation new_sample :: "ip_net \<Rightarrow> instant \<Rightarrow> duration option \<Rightarrow> sample option" where
  "new_sample n now d \<equiv> map_option (\<lambda>d. \<lparr>network = n, expires = now + d\<rparr>) d"

inductive table_step ::
  "net_ops \<Rightarrow> sharing_config \<Rightarrow> 'n sh_op \<Rightarrow> ('n sh_class \<Rightarrow> phase option) \<Rightarrow> observation \<Rightarrow>
   ('n sh_class \<Rightarrow> phase option) \<Rightarrow> bool" for N cfg where
  quiet: "(\<And>c ph. g' c = Some ph \<Longrightarrow> g c = Some ph \<and>
       (op_class (Obs k sc fp d now) = Some c \<longrightarrow> (\<exists>u. ph = Revoked u))) \<Longrightarrow>
     table_step N cfg (Obs k sc fp d now) g \<lparr>ob_scope = sc, ob_revoked = False\<rparr> g'"
| revoke: "op_class (Obs k (Network n) fp d now) = Some c \<Longrightarrow>
     table_step N cfg (Obs k (Network n) fp d now) g \<lparr>ob_scope = Network n, ob_revoked = True\<rparr> (g(c := Some (Revoked u)))"
| start: "op_class (Obs k (ExactSource n) (Some f) d now) = Some c \<Longrightarrow>
     (\<And>c' ph. g' c' = Some ph \<Longrightarrow>
       (if c' = c then ph = Observing f (case new_sample n now d of Some s \<Rightarrow> [s] | None \<Rightarrow> []) else g c' = Some ph)) \<Longrightarrow>
     table_step N cfg (Obs k (ExactSource n) (Some f) d now) g \<lparr>ob_scope = ExactSource n, ob_revoked = False\<rparr> g'"
| move: "op_class (Obs k (ExactSource n) fp d now) = Some c \<Longrightarrow> g c = Some ph \<Longrightarrow>
     observe_phase N cfg (is_ipv4 (net_addr n)) (ExactSource n) fp (new_sample n now d) now ph = (ph', ob) \<Longrightarrow>
     table_step N cfg (Obs k (ExactSource n) fp d now) g ob (g(c := Some ph'))"

locale class_table = lru_cache L for L :: "('l, 'n sh_class, phase) lru_ops"
begin

lemma write_table:
  assumes "lru_get_mut L c (records t) = Some (ph, w)"
  shows "phase_of L t c = Some ph"
    and "phase_of L (t\<lparr>records := w ph'\<rparr>) = (phase_of L t)(c := Some ph')"
    and "table_ok L t \<Longrightarrow> table_ok L (t\<lparr>records := w ph'\<rparr>)"
proof -
  note gm = get_mut_iff[OF assms]
  show "phase_of L t c = Some ph" using gm by (simp add: phase_of_def)
  show "phase_of L (t\<lparr>records := w ph'\<rparr>) = (phase_of L t)(c := Some ph')"
    using gm[of ph'] by (auto simp: phase_of_def fun_eq_iff)
  have "c \<in> fst ` set (lru_iter L (records t))" using gm by (force dest: map_of_SomeD)
  with length_del_key[OF iter_distinct] have "Suc (length (del_key c (lru_iter L (records t)))) = length (lru_iter L (records t))"
    by blast
  with gm[of ph'] show "table_ok L t \<Longrightarrow> table_ok L (t\<lparr>records := w ph'\<rparr>)"
    by (simp add: table_ok_def)
qed

lemma absent_phase: "lru_get_mut L c (records t) = None \<Longrightarrow> phase_of L t c = None"
  using get_mut_absent by (simp add: phase_of_def)

lemma observe_network:
  assumes "table_ok L t" and "0 < prefix_len n"
  shows "\<exists>ob t'. observe N L t k (Network n) fp d now cfg = Some (ob, t') \<and> table_ok L t' \<and> capacity t' = capacity t \<and>
    table_step N cfg (Obs k (Network n) fp d now) (phase_of L t) ob (phase_of L t')"
proof -
  let ?c = "\<lparr>cl_key = k, cl_ipv4 = is_ipv4 (net_addr n)\<rparr>"
  show ?thesis
  proof (cases "lru_get_mut L ?c (records t)")
    case None
    with assms absent_phase[OF None] show ?thesis by (auto simp: observe_def intro!: table_step.quiet)
  next
    case (Some pw)
    obtain ph w where pw: "pw = (ph, w)" by (cases pw)
    note wt = write_table[OF Some[unfolded pw]]
    show ?thesis
    proof (cases "case ph of Revoked until \<Rightarrow> now < until | _ \<Rightarrow> False")
      case True
      then have "table_step N cfg (Obs k (Network n) fp d now) (phase_of L t)
          \<lparr>ob_scope = Network n, ob_revoked = False\<rparr> (phase_of L (t\<lparr>records := w ph\<rparr>))"
        by (intro table_step.quiet) (auto simp: wt assms split: phase.splits if_splits)
      with True Some pw wt assms show ?thesis by (auto simp: observe_def)
    next
      case False
      have "table_step N cfg (Obs k (Network n) fp d now) (phase_of L t)
          \<lparr>ob_scope = Network n, ob_revoked = True\<rparr> ((phase_of L t)(?c := Some (Revoked (now + from_secs (revoke_cooldown_secs cfg)))))"
        by (intro table_step.revoke) (simp add: assms)
      with False Some pw wt assms show ?thesis by (simp add: observe_def Let_def)
    qed
  qed
qed

lemma observe_start:
  assumes "lru_get_mut L \<lparr>cl_key = k, cl_ipv4 = is_ipv4 (net_addr n)\<rparr> (records t) = None"
  shows "\<exists>ob t'. observe N L t k (ExactSource n) (Some f) d now cfg = Some (ob, t') \<and> table_ok L t' \<and> capacity t' = capacity t \<and>
    table_step N cfg (Obs k (ExactSource n) (Some f) d now) (phase_of L t) ob (phase_of L t')"
proof -
  let ?c = "\<lparr>cl_key = k, cl_ipv4 = is_ipv4 (net_addr n)\<rparr>"
  define l where "l = lru_put L ?c (Observing f (case new_sample n now d of Some s \<Rightarrow> [s] | None \<Rightarrow> [])) (records t)"
  from shrink_ok[of l "Suc (lru_len L l)" "capacity t"] obtain l' where l':
    "shrink L (capacity t) (Suc (lru_len L l)) l = Some l'" "length (lru_iter L l') \<le> capacity t"
    "prefix (lru_iter L l') (lru_iter L l)" by (auto simp: len_eq)
  have "table_step N cfg (Obs k (ExactSource n) (Some f) d now) (phase_of L t)
      \<lparr>ob_scope = ExactSource n, ob_revoked = False\<rparr> (phase_of L (t\<lparr>records := l'\<rparr>))"
    by (intro table_step.start[of _ _ _ _ _ ?c])
      (auto simp: phase_of_def l_def iter_put dest!: map_of_prefix[OF l'(3)] split: if_splits)
  with assms l'(1,2) show ?thesis by (simp add: observe_def Let_def l_def table_ok_def)
qed

lemma observe_step:
  assumes "table_ok L t"
  shows "\<exists>ob t'. observe N L t k sc fp d now cfg = Some (ob, t') \<and> table_ok L t' \<and> capacity t' = capacity t \<and>
    table_step N cfg (Obs k sc fp d now) (phase_of L t) ob (phase_of L t')"
proof -
  consider (other) "op_class (Obs k sc fp d now) = None"
    | (net) n where "sc = Network n" "0 < prefix_len n" | (exact) n where "sc = ExactSource n"
    by (cases "op_class (Obs k sc fp d now) = None"; cases sc) (auto split: if_splits)
  then show ?thesis
  proof cases
    case other
    then have "observe N L t k sc fp d now cfg = Some (\<lparr>ob_scope = sc, ob_revoked = False\<rparr>, t)"
      by (cases sc) (auto simp: observe_def split: if_splits)
    with other assms show ?thesis by (auto intro!: table_step.quiet)
  next
    case net
    with observe_network[OF assms] show ?thesis by blast
  next
    case (exact n)
    let ?c = "\<lparr>cl_key = k, cl_ipv4 = is_ipv4 (net_addr n)\<rparr>"
    show ?thesis
    proof (cases "lru_get_mut L ?c (records t)")
      case None
      with exact assms absent_phase[OF None] observe_start[OF None] show ?thesis
        by (cases fp) (auto simp: observe_def intro!: table_step.quiet)
    next
      case (Some pw)
      obtain ph w where pw: "pw = (ph, w)" by (cases pw)
      note wt = write_table[OF Some[unfolded pw]]
      obtain ph' ob where st:
        "observe_phase N cfg (is_ipv4 (net_addr n)) (ExactSource n) fp (new_sample n now d) now ph = (ph', ob)" by fastforce
      have "table_step N cfg (Obs k sc fp d now) (phase_of L t) ob ((phase_of L t)(?c := Some ph'))"
        using exact wt(1) st by (auto intro: table_step.move)
      with exact Some pw wt st assms show ?thesis by (auto simp: observe_def)
    qed
  qed
qed

end

lemma table_step_just:
  assumes "table_step N cfg p g ob g'" and "\<And>c ph. g c = Some ph \<Longrightarrow> phase_just N (min_networks cfg) (class_log c h) ph"
    and "\<forall>q \<in> set h. op_time q \<le> op_time p"
  shows "(\<forall>c ph. g' c = Some ph \<longrightarrow> phase_just N (min_networks cfg) (class_log c (p # h)) ph) \<and>
    (\<forall>k sc fp d now v4. p = Obs k sc fp d now \<longrightarrow> ob_scope ob = Learned v4 \<longrightarrow> sc \<noteq> Learned v4 \<longrightarrow>
      (\<exists>n f since. sc = ExactSource n \<and> fp = Some f \<and> now - since < SHARED_MAX_AGE \<and>
         shared_evidence N (min_networks cfg) f since (class_log \<lparr>cl_key = k, cl_ipv4 = is_ipv4 (net_addr n)\<rparr> (p # h))))"
  using assms
proof (induction rule: table_step.induct)
  case (start k' n f d' now' c' g' g)
  have "phase_just N (min_networks cfg) (class_log c (Obs k' (ExactSource n) (Some f) d' now' # h)) ph"
    if "g' c = Some ph" for c ph
    using start.hyps(2)[OF that] start.hyps(1) start.prems(1)
    by (cases "c = c'") (auto simp: class_log_Cons start_just simp del: case_map_option)
  then show ?case by auto
next
  case (move k' n fp' d' now' c' g ph0 ph' ob)
  let ?p = "Obs k' (ExactSource n) fp' d' now'"
  from move.hyps(1) have c': "c' = \<lparr>cl_key = k', cl_ipv4 = is_ipv4 (net_addr n)\<rparr>" by simp
  have "\<forall>q \<in> set (class_log c' h). op_time q \<le> now'" using move.prems(2) set_class_log[of c' h] by auto
  from observe_phase_just[OF move.prems(1)[OF move.hyps(2)] move.hyps(3) refl this]
  have "step_just N (min_networks cfg) (class_log c' (?p # h)) fp' now' ph' ob"
    using move.hyps(1) by (simp add: class_log_Cons)
  with move.prems(1) show ?case
    by (auto simp: step_just_def c' class_log_Cons)
qed (auto simp: class_log_Cons phase_just_def split: phase.splits if_splits)

fun in_order :: "instant \<Rightarrow> 'n sh_op list \<Rightarrow> bool" where
  "in_order t [] = True"
| "in_order t (Obs k sc fp d now # ps) = (t \<le> now \<and> in_order now ps)"
| "in_order t (Inval name kind sc # ps) = in_order t ps"

context class_table
begin

lemma invalidate_phase:
  "phase_of L (invalidate_table L t name kind sc) c = Some ph \<Longrightarrow> phase_of L t c = Some ph"
  by (auto simp: invalidate_table_def phase_of_def pop_all_iter iter_clear map_of_filter_keys
      split: option.splits if_splits)

lemma invalidate_ok:
  "table_ok L t \<Longrightarrow> table_ok L (invalidate_table L t name kind sc)"
  "capacity (invalidate_table L t name kind sc) = capacity t"
  using order_trans[OF length_filter_le]
  by (auto simp: invalidate_table_def table_ok_def pop_all_iter iter_clear split: option.splits)

lemma sh_exec_obs:
  assumes "sh_inv N L (min_networks cfg) sys" and "\<forall>q \<in> set (sh_log sys). op_time q \<le> now"
  shows "\<exists>ob tb. observe N L (sh_table sys) k sc fp d now cfg = Some (ob, tb) \<and>
    sh_inv N L (min_networks cfg) \<lparr>sh_table = tb, sh_log = Obs k sc fp d now # sh_log sys\<rparr> \<and>
    capacity tb = capacity (sh_table sys) \<and>
    (\<forall>v4. ob_scope ob = Learned v4 \<longrightarrow> sc \<noteq> Learned v4 \<longrightarrow>
      (\<exists>n f since. sc = ExactSource n \<and> fp = Some f \<and> now - since < SHARED_MAX_AGE \<and>
         shared_evidence N (min_networks cfg) f since
           (class_log \<lparr>cl_key = k, cl_ipv4 = is_ipv4 (net_addr n)\<rparr> (Obs k sc fp d now # sh_log sys))))"
proof -
  let ?p = "Obs k sc fp d now"
  from assms(1) have inv: "table_ok L (sh_table sys)"
    "\<And>c ph. phase_of L (sh_table sys) c = Some ph \<Longrightarrow> phase_just N (min_networks cfg) (class_log c (sh_log sys)) ph"
    by (auto simp: sh_inv_def)
  from observe_step[OF inv(1)] obtain ob tb where ob: "observe N L (sh_table sys) k sc fp d now cfg = Some (ob, tb)"
    "table_ok L tb" "capacity tb = capacity (sh_table sys)" "table_step N cfg ?p (phase_of L (sh_table sys)) ob (phase_of L tb)"
    by blast
  have le: "\<forall>q \<in> set (sh_log sys). op_time q \<le> op_time ?p" using assms(2) by simp
  note just = table_step_just[OF ob(4) inv(2) le]
  have "sh_inv N L (min_networks cfg) \<lparr>sh_table = tb, sh_log = ?p # sh_log sys\<rparr>"
    using ob(2) just by (simp add: sh_inv_def)
  with ob(1,3) just show ?thesis by (intro exI[of _ ob] exI[of _ tb]) auto
qed

lemma sh_run_inv:
  "sh_inv N L (min_networks cfg) sys \<Longrightarrow> \<forall>q \<in> set (sh_log sys). op_time q \<le> t \<Longrightarrow> in_order t (ps @ rs) \<Longrightarrow>
   \<exists>sys' t'. run_steps (sh_exec N L cfg) sys ps = Some sys' \<and> sh_inv N L (min_networks cfg) sys' \<and>
     (\<forall>q \<in> set (sh_log sys'). op_time q \<le> t') \<and> in_order t' rs \<and> capacity (sh_table sys') = capacity (sh_table sys)"
proof (induction ps arbitrary: sys t)
  case Nil
  then show ?case by (intro exI[of _ sys] exI[of _ t]) simp
next
  case (Cons p ps)
  show ?case
  proof (cases p)
    case (Obs k sc fp d now)
    with Cons.prems(2,3) have le: "\<forall>q \<in> set (sh_log sys). op_time q \<le> now" and ord: "in_order now (ps @ rs)" by auto
    from sh_exec_obs[OF Cons.prems(1) le, of k sc fp d] obtain ob tb where ob:
      "observe N L (sh_table sys) k sc fp d now cfg = Some (ob, tb)"
      "sh_inv N L (min_networks cfg) \<lparr>sh_table = tb, sh_log = p # sh_log sys\<rparr>" "capacity tb = capacity (sh_table sys)"
      unfolding Obs by metis
    have "\<forall>q \<in> set (sh_log \<lparr>sh_table = tb, sh_log = p # sh_log sys\<rparr>). op_time q \<le> now" using le Obs by simp
    from Cons.IH[OF ob(2) this ord] Obs ob(1,3) show ?thesis by simp
  next
    case (Inval name kind sc)
    let ?sys = "sys\<lparr>sh_table := invalidate_table L (sh_table sys) name kind sc\<rparr>"
    have "sh_inv N L (min_networks cfg) ?sys"
      using Cons.prems(1) by (auto simp: sh_inv_def invalidate_ok dest: invalidate_phase)
    from Cons.IH[OF this, of t] Cons.prems(2,3) Inval show ?thesis by (simp add: invalidate_ok)
  qed
qed

lemma sh_init_inv: "sh_inv N L m (sh_init L cap)"
  by (simp add: sh_inv_def sh_init_def table_new_def table_ok_def phase_of_def iter_unbounded)

end

text \<open>C10. Answers are shared only on evidence. In any run of observations in time order and
  invalidations, when an answer for one network is stored for its whole address family, then
  its fingerprint was seen for at least \<open>min_networks\<close> pairwise disjoint networks of the
  class that span two /16 (IPv6 /32) prefixes, each backed by an admitted answer that was
  still valid when the record was promoted, no later observation of the class contradicted
  any of them, and the promotion is less than \<open>SHARED_MAX_AGE\<close> ago.\<close>

theorem learned_evidence:
  assumes "lru_cache L" and "in_order 0 (ps @ [Obs k sc fp d now])"
    and "run_steps (sh_exec N L cfg) (sh_init L cap) ps = Some sys"
    and "observe N L (sh_table sys) k sc fp d now cfg = Some (ob, t')"
    and "ob_scope ob = Learned v4" and "sc \<noteq> Learned v4"
  shows "\<exists>n f since ss. sc = ExactSource n \<and> fp = Some f \<and> since \<le> now \<and> now - since < SHARED_MAX_AGE \<and>
     min_networks cfg \<le> length ss \<and> disjoint_samples N ss \<and>
     (\<exists>a \<in> set ss. \<exists>b \<in> set ss. span_of N (network a) \<noteq> span_of N (network b)) \<and>
     (\<forall>s \<in> set ss. since \<le> expires s \<and>
        evidence f s (class_log \<lparr>cl_key = k, cl_ipv4 = is_ipv4 (net_addr n)\<rparr> (Obs k sc fp d now # sh_log sys)))"
proof -
  have ct: "class_table L" using assms(1) by (simp add: class_table_def)
  from class_table.sh_run_inv[where N = N and cfg = cfg and sys = "sh_init L cap", OF ct class_table.sh_init_inv[OF ct] _ assms(2)] assms(3) obtain t where
    inv: "sh_inv N L (min_networks cfg) sys" "\<forall>q \<in> set (sh_log sys). op_time q \<le> t" "in_order t [Obs k sc fp d now]"
    by (auto simp: sh_init_def)
  then have le: "\<forall>q \<in> set (sh_log sys). op_time q \<le> now" by auto
  from class_table.sh_exec_obs[OF ct inv(1) le, of k sc fp d] assms(4-6) obtain n f since where
    ev: "sc = ExactSource n" "fp = Some f" "now - since < SHARED_MAX_AGE"
      "shared_evidence N (min_networks cfg) f since
        (class_log \<lparr>cl_key = k, cl_ipv4 = is_ipv4 (net_addr n)\<rparr> (Obs k sc fp d now # sh_log sys))"
    by auto
  then obtain p ss where p: "p \<in> set (Obs k sc fp d now # sh_log sys)" "op_time p = since" and
    ss: "promotable N ss (min_networks cfg)" "disjoint_samples N ss"
      "\<forall>s \<in> set ss. evidence f s (class_log \<lparr>cl_key = k, cl_ipv4 = is_ipv4 (net_addr n)\<rparr> (Obs k sc fp d now # sh_log sys)) \<and> since \<le> expires s"
    unfolding shared_evidence_def using set_class_log by blast
  have "since \<le> now" using p le by auto
  moreover from ss(1) have "min_networks cfg \<le> length ss"
    "\<exists>a \<in> set ss. \<exists>b \<in> set ss. span_of N (network a) \<noteq> span_of N (network b)"
    by (auto simp: promotable_def list_ex_iff split: list.splits)
  ultimately show ?thesis using ev ss by (intro exI[of _ n] exI[of _ f] exI[of _ since] exI[of _ ss]) auto
qed

definition demo_key :: "ref_name key" where
  "demo_key = \<lparr>k_name = [''example'', ''test''], k_kind = A, k_class = IN, k_dnssec_ok = False,
     k_checking_disabled = False, k_recursion_desired = True, k_edns = True\<rparr>"

definition demo_net :: "32 word \<Rightarrow> ip_net" where
  "demo_net w = \<lparr>net_addr = V4 w, prefix_len = 24\<rparr>"

definition demo_sharing :: sharing_config where
  "demo_sharing = \<lparr>sharing_enabled = True, min_networks = 2, revoke_cooldown_secs = 3600\<rparr>"

definition demo_obs :: "32 word \<Rightarrow> instant \<Rightarrow> ref_name sh_op" where
  "demo_obs w now = Obs demo_key (ExactSource (demo_net w)) (Some [1]) (Some 60000000000) now"

type_synonym demo_table = "(ref_name sh_class \<times> phase) list"

definition demo_sys :: "(demo_table, ref_name) sh_sys" where
  "demo_sys = \<lparr>sh_table = \<lparr>records = [(\<lparr>cl_key = demo_key, cl_ipv4 = True\<rparr>,
       Observing [1] [\<lparr>network = demo_net 0x0A000000, expires = 60000000000\<rparr>])], capacity = 1024\<rparr>,
     sh_log = [demo_obs 0x0A000000 0]\<rparr>"

lemma demo_sh_run:
  "run_steps (sh_exec cidr recency_list demo_sharing) (sh_init recency_list 1024) [demo_obs 0x0A000000 0] = Some demo_sys"
  by (simp add: demo_sys_def demo_obs_def demo_net_def sh_init_def table_new_def observe_def Let_def
      shrink.simps(2)[of _ _ 1] del_key_def)

lemma demo_learned:
  "\<exists>t'. observe cidr recency_list (sh_table demo_sys) demo_key (ExactSource (demo_net 0x0A010000)) (Some [1])
     (Some 60000000000) 1000000000 demo_sharing = Some (\<lparr>ob_scope = Learned True, ob_revoked = False\<rparr>, t')"
  by (simp add: demo_sys_def demo_net_def demo_sharing_def observe_def Let_def observe_phase_def add_sample_def
      disjoint_nets_def promotable_def span_of_def keep_high_def mask_eq_exp_minus_1)

theorem learned_evidence_witness:
  "\<exists>ss. 2 \<le> length ss \<and> disjoint_samples cidr ss \<and>
     (\<exists>a \<in> set ss. \<exists>b \<in> set ss. span_of cidr (network a) \<noteq> span_of cidr (network b))"
proof -
  from demo_learned obtain t' where t': "observe cidr recency_list (sh_table demo_sys) demo_key
     (ExactSource (demo_net 0x0A010000)) (Some [1]) (Some 60000000000) 1000000000 demo_sharing =
     Some (\<lparr>ob_scope = Learned True, ob_revoked = False\<rparr>, t')" ..
  have "in_order 0 ([demo_obs 0x0A000000 0] @
     [Obs demo_key (ExactSource (demo_net 0x0A010000)) (Some [1]) (Some 60000000000) 1000000000])"
    by (simp add: demo_obs_def)
  from learned_evidence[OF recency.lru_cache_axioms this demo_sh_run t', of True] obtain ss where
    "min_networks demo_sharing \<le> length ss" "disjoint_samples cidr ss"
    "\<exists>a \<in> set ss. \<exists>b \<in> set ss. span_of cidr (network a) \<noteq> span_of cidr (network b)"
    by (auto simp del: cidr_sel)
  then show ?thesis by (intro exI[of _ ss]) (simp add: demo_sharing_def)
qed

subsection \<open>Contradictions revoke\<close>

context class_table
begin

lemma observe_existing:
  assumes "table_ok L t" and "phase_of L t c = Some ph" and "op_class (Obs k sc fp d now) = Some c"
  shows "\<exists>t'. (case sc of
       ExactSource n \<Rightarrow> (\<exists>ph' ob. observe_phase N cfg (is_ipv4 (net_addr n)) sc fp (new_sample n now d) now ph = (ph', ob) \<and>
         observe N L t k sc fp d now cfg = Some (ob, t') \<and> phase_of L t' c = Some ph')
     | _ \<Rightarrow> (if (case ph of Revoked until \<Rightarrow> now < until | _ \<Rightarrow> False)
             then observe N L t k sc fp d now cfg = Some (\<lparr>ob_scope = sc, ob_revoked = False\<rparr>, t') \<and> phase_of L t' c = Some ph
             else observe N L t k sc fp d now cfg = Some (\<lparr>ob_scope = sc, ob_revoked = True\<rparr>, t') \<and>
               phase_of L t' c = Some (Revoked (now + from_secs (revoke_cooldown_secs cfg)))))"
proof -
  from assms(2) get_mut_Some[of "records t" c ph] obtain w where gm: "lru_get_mut L c (records t) = Some (ph, w)"
    by (auto simp: phase_of_def)
  note wt = write_table[OF gm]
  from assms(3) show ?thesis
    by (cases sc) (auto simp: observe_def Let_def gm wt split: prod.splits phase.splits if_splits)
qed

end

text \<open>C11. A contradiction ends sharing at once and keeps it ended: while a record is shared, an
  answer with another fingerprint, an answer that cannot be normalised, or an explicit
  nonzero response scope revokes it and is itself stored for its own network only; until
  the cooldown ends, every further observation leaves the record revoked and shares nothing.\<close>

theorem contradiction_revokes:
  assumes "lru_cache L" and "table_ok L t" and "op_class (Obs k sc fp d now) = Some c"
    and "phase_of L t c = Some ph"
    and "(\<exists>f since. ph = Shared f since \<and> now - since < SHARED_MAX_AGE \<and> \<not> agrees f (Obs k sc fp d now)) \<or>
         (\<exists>until. ph = Revoked until \<and> now < until)"
  shows "\<exists>ob t' until. observe N L t k sc fp d now cfg = Some (ob, t') \<and> ob_scope ob = sc \<and>
    phase_of L t' c = Some (Revoked until) \<and>
    (case ph of Revoked u \<Rightarrow> until = u \<and> \<not> ob_revoked ob
     | _ \<Rightarrow> until = now + from_secs (revoke_cooldown_secs cfg) \<and> ob_revoked ob)"
proof -
  have "class_table L" using assms(1) by (simp add: class_table_def)
  from class_table.observe_existing[OF this assms(2,4,3), of N cfg] assms(3,5) show ?thesis
    by (cases sc) (auto simp: observe_phase_def Let_def saturating_duration_since_def split: if_splits)
qed

definition demo_shared :: "demo_table table" where
  "demo_shared = \<lparr>records = [(\<lparr>cl_key = demo_key, cl_ipv4 = True\<rparr>, Shared [1] 0)], capacity = 1024\<rparr>"

theorem contradiction_revokes_witness:
  "\<exists>ob t' until. observe cidr recency_list demo_shared demo_key (ExactSource (demo_net 0x0A010000)) (Some [2]) None 5 demo_sharing
      = Some (ob, t') \<and> ob_scope ob = ExactSource (demo_net 0x0A010000) \<and>
    phase_of recency_list t' \<lparr>cl_key = demo_key, cl_ipv4 = True\<rparr> = Some (Revoked until)"
  using contradiction_revokes[OF recency.lru_cache_axioms, of demo_shared demo_key "ExactSource (demo_net 0x0A010000)"
      "Some [2]" None 5 "\<lparr>cl_key = demo_key, cl_ipv4 = True\<rparr>" "Shared [1] 0" cidr demo_sharing]
  by (auto simp: demo_shared_def table_ok_def phase_of_def demo_net_def SHARED_MAX_AGE_def from_secs_def del_key_def)

end
