(* ===== verification/Fingerprint.thy ===== *)
theory Fingerprint
  imports Sharing
begin

text \<open>
  The normalised identity of an answer, \<open>fingerprint\<close> of \<open>src/src/cache/sharing.rs\<close>. The
  encodings of names and record data, the numeric codes and SHA-256 come from third-party
  crates and are the fields of \<open>enc_ops\<close>.
\<close>

record 'n enc_ops =
  name_bytes :: "'n \<Rightarrow> bytes option"
  rdata_bytes :: "'n rdata \<Rightarrow> bytes option"
  type_code :: "record_type \<Rightarrow> nat"
  class_code :: "dns_class \<Rightarrow> nat"
  rcode_code :: "response_code \<Rightarrow> nat"
  sha256 :: "bytes \<Rightarrow> bytes"

definition split32 :: "nat \<Rightarrow> bytes" where
  "split32 n = split16 (n div 65536) @ split16 (n mod 65536)"

definition fp_encode ::
  "('n, 'w) dns_ops \<Rightarrow> 'n enc_ops \<Rightarrow> 'n \<Rightarrow> record_type \<Rightarrow> dns_class \<Rightarrow> 'n rdata option \<Rightarrow> bytes option" where
  "fp_encode D X name kind cls dat = (case name_bytes X (to_lowercase D name) of
     None \<Rightarrow> None
   | Some bs \<Rightarrow>
       (case dat of
          None \<Rightarrow> Some (bs @ split16 (type_code X kind) @ split16 (class_code X cls))
        | Some rd \<Rightarrow>
            (case rdata_bytes X rd of
               None \<Rightarrow> None
             | Some ds \<Rightarrow> Some (bs @ split16 (type_code X kind) @ split16 (class_code X cls) @ ds))))"

definition sort_dedup :: "bytes list \<Rightarrow> bytes list" where
  "sort_dedup xs = remdups_adj (sort xs)"

definition fp_answers :: "('n, 'w) dns_ops \<Rightarrow> 'n enc_ops \<Rightarrow> 'n message \<Rightarrow> bytes list option" where
  "fp_answers D X response =
     those (map (\<lambda>r. fp_encode D X (rr_name r) (rr_type r) (dns_class r) (Some (data r))) (answers response))"

definition fp_soa :: "('n, 'w) dns_ops \<Rightarrow> 'n enc_ops \<Rightarrow> bool \<Rightarrow> 'n message \<Rightarrow> bytes list option" where
  "fp_soa D X negative response =
     (if negative
      then those (map (\<lambda>r. fp_encode D X (rr_name r) SOA (dns_class r) None)
             (filter (\<lambda>r. rr_type r = SOA) (authorities response)))
      else Some [])"

definition fp_section :: "bytes list \<Rightarrow> bytes" where
  "fp_section rs = split32 (length rs) @ concat (map (\<lambda>r. split32 (length r) @ r) rs)"

definition digest_input ::
  "('n, 'w) dns_ops \<Rightarrow> 'n enc_ops \<Rightarrow> 'n question \<Rightarrow> 'n message \<Rightarrow> bytes option" where
  "digest_input D X q response =
     (let negative = is_negative q response in
      case fp_answers D X response of
        None \<Rightarrow> None
      | Some ans \<Rightarrow>
          (case fp_soa D X negative response of
             None \<Rightarrow> None
           | Some soas \<Rightarrow>
               Some (split16 (rcode_code X (response_code response)) @ [if negative then 1 else 0] @
                     fp_section (sort_dedup ans) @ fp_section (sort_dedup soas))))"

definition fingerprint :: "('n, 'w) dns_ops \<Rightarrow> 'n enc_ops \<Rightarrow> 'n question \<Rightarrow> 'n message \<Rightarrow> fingerprint option" where
  "fingerprint D X q response = map_option (\<lambda>b. take 16 (sha256 X b)) (digest_input D X q response)"

subsection \<open>Framing\<close>

lemma length_split16 [simp]: "length (split16 n) = 2"
  by (simp add: split16_def)

lemma length_split32 [simp]: "length (split32 n) = 4"
  by (simp add: split32_def)

lemma split16_inj: "m < 65536 \<Longrightarrow> n < 65536 \<Longrightarrow> split16 m = split16 n \<Longrightarrow> m = n"
  using be16_split16[of m] be16_split16[of n] by (metis split16_def)

lemma split32_inj:
  assumes "m < 2 ^ 32" and "n < 2 ^ 32" and "split32 m = split32 n"
  shows "m = n"
proof -
  from assms(3) have "split16 (m div 65536) = split16 (n div 65536)" "split16 (m mod 65536) = split16 (n mod 65536)"
    by (simp_all add: split32_def)
  moreover have "m div 65536 < 65536" "n div 65536 < 65536" using assms(1,2) by (simp_all add: div_less_iff_less_mult)
  ultimately have "m div 65536 = n div 65536" "m mod 65536 = n mod 65536" by (auto intro: split16_inj)
  then show ?thesis by (metis div_mult_mod_eq)
qed

definition short_records :: "bytes list \<Rightarrow> bool" where
  "short_records rs \<longleftrightarrow> length rs < 2 ^ 32 \<and> (\<forall>r \<in> set rs. length r < 2 ^ 32)"

lemma framed_inj:
  assumes "length rs = length ss" and "\<forall>r \<in> set rs. length r < 2 ^ 32" and "\<forall>r \<in> set ss. length r < 2 ^ 32"
    and "concat (map (\<lambda>r. split32 (length r) @ r) rs) @ xs = concat (map (\<lambda>r. split32 (length r) @ r) ss) @ ys"
  shows "rs = ss \<and> xs = ys"
  using assms
proof (induction rs ss rule: list_induct2)
  case (Cons r rs s ss)
  from Cons.prems(3) have "split32 (length r) = split32 (length s)"
    and eq: "r @ concat (map (\<lambda>r. split32 (length r) @ r) rs) @ xs = s @ concat (map (\<lambda>r. split32 (length r) @ r) ss) @ ys"
    by simp_all
  then have "length r = length s" using Cons.prems(1,2) by (intro split32_inj) auto
  with eq Cons.IH Cons.prems(1,2) show ?case by auto
qed simp

lemma fp_section_inj:
  assumes "short_records rs" and "short_records ss" and "fp_section rs @ xs = fp_section ss @ ys"
  shows "rs = ss \<and> xs = ys"
proof -
  from assms(3) have "split32 (length rs) = split32 (length ss)"
    "concat (map (\<lambda>r. split32 (length r) @ r) rs) @ xs = concat (map (\<lambda>r. split32 (length r) @ r) ss) @ ys"
    by (simp_all add: fp_section_def)
  moreover from this(1) have "length rs = length ss"
    using assms(1,2) by (intro split32_inj) (auto simp: short_records_def)
  ultimately show ?thesis using assms(1,2) by (intro framed_inj) (auto simp: short_records_def)
qed

lemma sort_dedup_set [simp]: "set (sort_dedup xs) = set xs"
  by (simp add: sort_dedup_def)

lemma sorted_remdups_adj_distinct: "sorted xs \<Longrightarrow> distinct (remdups_adj xs)"
  by (induction xs rule: remdups_adj.induct) (auto simp: less_le)

lemma sort_dedup_eq_iff: "sort_dedup xs = sort_dedup ys \<longleftrightarrow> set xs = set ys"
proof
  assume "set xs = set ys"
  then show "sort_dedup xs = sort_dedup ys"
    by (intro sorted_distinct_set_unique)
      (auto simp: sort_dedup_def sorted_remdups_adj_distinct sorted_remdups_adj)
qed (metis sort_dedup_set)

text \<open>The normalised content of an answer.\<close>

definition norm_content :: "('n, 'w) dns_ops \<Rightarrow> 'n enc_ops \<Rightarrow> 'n question \<Rightarrow> 'n message \<Rightarrow>
    nat \<times> bool \<times> bytes set option \<times> bytes set option" where
  "norm_content D X q r = (rcode_code X (response_code r), is_negative q r,
     map_option set (fp_answers D X r), map_option set (fp_soa D X (is_negative q r) r))"

definition short_content :: "('n, 'w) dns_ops \<Rightarrow> 'n enc_ops \<Rightarrow> 'n question \<Rightarrow> 'n message \<Rightarrow> bool" where
  "short_content D X q r \<longleftrightarrow> rcode_code X (response_code r) < 65536 \<and>
     (\<forall>a. fp_answers D X r = Some a \<longrightarrow> short_records (sort_dedup a)) \<and>
     (\<forall>s. fp_soa D X (is_negative q r) r = Some s \<longrightarrow> short_records (sort_dedup s))"


text \<open>An instance: label counts as names, addresses by their low octet, the identity as hash.\<close>

definition ref_enc :: "ref_name enc_ops" where
  "ref_enc = \<lparr>name_bytes = (\<lambda>n. Some [word_of_nat (length n)]),
     rdata_bytes = (\<lambda>d. case d of RA w \<Rightarrow> Some [ucast w] | _ \<Rightarrow> None),
     type_code = (\<lambda>t. if t = SOA then 6 else 1), class_code = (\<lambda>_. 1),
     rcode_code = (\<lambda>c. if c = NXDomain then 3 else 0), sha256 = (\<lambda>b. b)\<rparr>"

definition demo_rr :: "nat \<Rightarrow> 32 word \<Rightarrow> ref_name rr" where
  "demo_rr t w = \<lparr>rr_name = [''example'', ''test''], dns_class = IN, ttl = t, data = RA w\<rparr>"

definition demo_two :: "ref_name rr list \<Rightarrow> ref_name message" where
  "demo_two rs = demo_query\<lparr>message_type := MResponse, answers := rs\<rparr>"

lemmas demo_fp_defs = demo_two_def demo_rr_def demo_defs ref_enc_def is_negative_def fp_answers_def fp_soa_def fp_encode_def

lemma demo_two_content:
  "short_content ref_dns ref_enc demo_question (demo_two [demo_rr 60 1, demo_rr 60 2])"
  "short_content ref_dns ref_enc demo_question (demo_two [demo_rr 5 2, demo_rr 9 1])"
  "norm_content ref_dns ref_enc demo_question (demo_two [demo_rr 60 1, demo_rr 60 2]) =
   norm_content ref_dns ref_enc demo_question (demo_two [demo_rr 5 2, demo_rr 9 1])"
  by (simp_all add: short_content_def norm_content_def demo_fp_defs short_records_def sort_dedup_def split16_def insert_commute)


end
