(* ===== verification/Answer.thy ===== *)
theory Answer
  imports Fingerprint "HOL-Library.Product_Lexorder"
begin

text \<open>
  What the cache stores of an answer, from \<open>src/src/cache.rs\<close> and \<open>src/src/cache/decision.rs\<close>:
  the decisions, the per-name policy rules, the lifetime of positive and negative answers
  (\<open>prepare_response\<close>, \<open>cname_negative_ttl\<close>), the byte charge and the overlap of namespaces.
\<close>

subsection \<open>Decisions\<close>

datatype eviction_reason = Entries | Bytes | EntriesAndBytes | Variants
datatype eviction_state = EFresh | ERetained | EExpired

type_synonym evictions = "eviction_reason \<Rightarrow> eviction_state \<Rightarrow> nat"

definition evictions_default :: evictions where
  "evictions_default = (\<lambda>_ _. 0)"

definition evictions_record :: "evictions \<Rightarrow> eviction_reason \<Rightarrow> eviction_state \<Rightarrow> evictions" where
  "evictions_record ev r st = ev(r := (ev r)(st := ev r st + 1))"

datatype decision_reason =
    UnsupportedQuery | UnsupportedEdns | EcsUnusable | TtlZero | NegativeWithoutSoa
  | UncacheableResponse | PolicyDisabled | Capacity | VariantLimit | EpochChanged

datatype lookup_outcome = LFresh | LStale | LMiss | LBypass | LDisabled

record lookup_decision =
  lookup_outcome :: lookup_outcome
  lookup_reason :: "decision_reason option"

datatype store_outcome = Admitted | Replaced | Skipped | SupersededOnly

record store_decision =
  outcome :: store_outcome
  reason :: "decision_reason option"

definition admitted :: "store_decision \<Rightarrow> bool" where
  "admitted d \<longleftrightarrow> outcome d \<in> {Admitted, Replaced}"

definition skipped :: "decision_reason \<Rightarrow> store_decision" where
  "skipped r = \<lparr>outcome = Skipped, reason = Some r\<rparr>"

definition rejected :: "decision_reason \<Rightarrow> bool \<Rightarrow> store_decision" where
  "rejected r superseded = \<lparr>outcome = (if superseded then SupersededOnly else Skipped), reason = Some r\<rparr>"

record diagnostics =
  d_lookup :: "lookup_outcome \<Rightarrow> nat"
  d_store :: "store_outcome \<Rightarrow> nat"
  d_lookup_reasons :: "decision_reason \<Rightarrow> nat"
  d_store_reasons :: "decision_reason \<Rightarrow> nat"

definition diagnostics_default :: diagnostics where
  "diagnostics_default = \<lparr>d_lookup = (\<lambda>_. 0), d_store = (\<lambda>_. 0), d_lookup_reasons = (\<lambda>_. 0), d_store_reasons = (\<lambda>_. 0)\<rparr>"

definition bump :: "('a \<Rightarrow> nat) \<Rightarrow> 'a \<Rightarrow> 'a \<Rightarrow> nat" where
  "bump f x = f(x := f x + 1)"

definition diagnostics_lookup :: "diagnostics \<Rightarrow> lookup_decision \<Rightarrow> diagnostics" where
  "diagnostics_lookup dg d =
     dg\<lparr>d_lookup := bump (d_lookup dg) (lookup_outcome d),
        d_lookup_reasons := (case lookup_reason d of None \<Rightarrow> d_lookup_reasons dg | Some r \<Rightarrow> bump (d_lookup_reasons dg) r)\<rparr>"

definition diagnostics_store :: "diagnostics \<Rightarrow> store_decision \<Rightarrow> diagnostics" where
  "diagnostics_store dg d =
     dg\<lparr>d_store := bump (d_store dg) (outcome d),
        d_store_reasons := (case reason d of None \<Rightarrow> d_store_reasons dg | Some r \<Rightarrow> bump (d_store_reasons dg) r)\<rparr>"

subsection \<open>Configuration and policy\<close>

record prefetch_config =
  pf_enabled :: bool
  min_hits :: nat
  remaining_percent :: nat
  max_inflight :: nat
  rate_per_sec :: nat
  backoff_secs :: nat

record stale_config =
  st_enabled :: bool
  retention_secs :: nat
  reply_ttl_secs :: nat

record cache_rule =
  cr_name :: string
  cr_suffix :: bool
  cr_qtype :: "string option"
  cr_bypass :: bool
  cr_max_ttl_secs :: "nat option"
  cr_negative_ttl_cap_secs :: "nat option"
  cr_prefetch :: "bool option"
  cr_stale :: "bool option"

record cache_config =
  c_enabled :: bool
  c_max_entries :: nat
  c_max_bytes :: nat
  c_max_variants :: nat
  c_max_ttl_secs :: nat
  c_negative_ttl_cap_secs :: nat
  c_servfail_ttl_secs :: nat
  c_shards :: nat
  c_negative_percent :: nat
  c_prefetch :: prefetch_config
  c_stale :: stale_config
  c_sharing :: sharing_config
  c_rules :: "cache_rule list"

record 'n rule =
  r_name :: 'n
  r_qtype :: "record_type option"
  r_index :: nat

record policy =
  rule_index :: "nat option"
  bypass :: bool
  max_ttl_secs :: nat
  negative_ttl_cap_secs :: nat
  p_prefetch :: bool
  p_stale :: bool

text \<open>One configured rule with its name and type parsed; \<open>None\<close> is the panic of an invalid one.\<close>

definition parse_rule :: "('n, 'w) dns_ops \<Rightarrow> nat \<Rightarrow> cache_rule \<Rightarrow> 'n rule option" where
  "parse_rule D i c = (case from_ascii D (cr_name c) of
     None \<Rightarrow> None
   | Some n \<Rightarrow>
       (case cr_qtype c of
          None \<Rightarrow> Some \<lparr>r_name = to_lowercase D n, r_qtype = None, r_index = i\<rparr>
        | Some q \<Rightarrow> map_option (\<lambda>t. \<lparr>r_name = to_lowercase D n, r_qtype = Some t, r_index = i\<rparr>) (parse_type D q)))"

text \<open>Exact rules before suffix rules, longer names first, typed before untyped, then the
  configured order.\<close>

definition rule_order :: "('n, 'w) dns_ops \<Rightarrow> cache_config \<Rightarrow> 'n rule \<Rightarrow> bool \<times> int \<times> bool \<times> nat" where
  "rule_order D cfg r =
     (cr_suffix (c_rules cfg ! r_index r), - int (label_count D (r_name r)), r_qtype r = None, r_index r)"

definition compile_rules :: "('n, 'w) dns_ops \<Rightarrow> cache_config \<Rightarrow> 'n rule list option" where
  "compile_rules D cfg = map_option (sort_key (rule_order D cfg))
     (those (map (\<lambda>(i, c). parse_rule D i c) (List.enumerate 0 (c_rules cfg))))"

definition rule_matches :: "('n, 'w) dns_ops \<Rightarrow> cache_config \<Rightarrow> record_type \<Rightarrow> 'n \<Rightarrow> 'n rule \<Rightarrow> bool" where
  "rule_matches D cfg kind name r \<longleftrightarrow>
     (case r_qtype r of None \<Rightarrow> True | Some k \<Rightarrow> k = kind) \<and> zone_of D (r_name r) name \<and>
     (cr_suffix (c_rules cfg ! r_index r) \<or> label_count D (r_name r) = label_count D name)"

definition policy_for :: "('n, 'w) dns_ops \<Rightarrow> cache_config \<Rightarrow> 'n rule list \<Rightarrow> 'n key \<Rightarrow> 'n \<Rightarrow> policy" where
  "policy_for D cfg rules key name =
     (let matched = find (rule_matches D cfg (k_kind key) name) rules;
          rule = map_option (\<lambda>r. c_rules cfg ! r_index r) matched;
          pick = (\<lambda>f d. case rule of None \<Rightarrow> d | Some c \<Rightarrow> (case f c of None \<Rightarrow> d | Some v \<Rightarrow> v))
      in \<lparr>rule_index = map_option r_index matched,
          bypass = (\<not> c_enabled cfg \<or> (case rule of None \<Rightarrow> False | Some c \<Rightarrow> cr_bypass c)),
          max_ttl_secs = (case rule of None \<Rightarrow> c_max_ttl_secs cfg
            | Some c \<Rightarrow> (case cr_max_ttl_secs c of None \<Rightarrow> c_max_ttl_secs cfg | Some v \<Rightarrow> v)),
          negative_ttl_cap_secs = (case rule of None \<Rightarrow> c_negative_ttl_cap_secs cfg
            | Some c \<Rightarrow> (case cr_negative_ttl_cap_secs c of None \<Rightarrow> c_negative_ttl_cap_secs cfg | Some v \<Rightarrow> v)),
          p_prefetch = pick cr_prefetch (pf_enabled (c_prefetch cfg)),
          p_stale = pick cr_stale (st_enabled (c_stale cfg))\<rparr>)"

definition query_rejection :: "'n message \<Rightarrow> decision_reason" where
  "query_rejection q = (if plain_edns q then UnsupportedQuery else UnsupportedEdns)"

definition superseding_edns :: "'n message \<Rightarrow> bool" where
  "superseding_edns m = edns_within m [code_Subnet, code_Padding, code_Ede]"

subsection \<open>Lifetimes\<close>

text \<open>The owners and targets of the CNAME records, or the rejection of another record, another
  class or two targets for one owner.\<close>

fun cname_targets :: "dns_class \<Rightarrow> 'n rr list \<Rightarrow> ('n, 'n) fmap \<Rightarrow> decision_reason + ('n, 'n) fmap" where
  "cname_targets cls [] ts = Inr ts"
| "cname_targets cls (r # rs) ts = (case data r of
     RCNAME target \<Rightarrow>
       if dns_class r \<noteq> cls \<or> (case fmlookup ts (rr_name r) of None \<Rightarrow> False | Some prev \<Rightarrow> prev \<noteq> target)
       then Inl UncacheableResponse
       else cname_targets cls rs (fmupd (rr_name r) target ts)
   | _ \<Rightarrow> Inl UncacheableResponse)"

fun follow :: "nat \<Rightarrow> ('n, 'n) fmap \<Rightarrow> 'n \<Rightarrow> 'n option" where
  "follow 0 ts n = Some n"
| "follow (Suc i) ts n = (case fmlookup ts n of None \<Rightarrow> None | Some m \<Rightarrow> follow i ts m)"

fun soa_lifetime ::
  "('n, 'w) dns_ops \<Rightarrow> dns_class \<Rightarrow> 'n \<Rightarrow> 'n rr list \<Rightarrow> ('n \<times> 'n soa) option \<Rightarrow> nat option \<Rightarrow> decision_reason + nat option" where
  "soa_lifetime D cls terminal [] identity lifetime = Inr lifetime"
| "soa_lifetime D cls terminal (r # rs) identity lifetime = (case data r of
     RSOA soa \<Rightarrow>
       if dns_class r \<noteq> cls \<or> \<not> zone_of D (rr_name r) terminal then Inl NegativeWithoutSoa
       else if (case identity of None \<Rightarrow> False | Some (owner, d) \<Rightarrow> owner \<noteq> rr_name r \<or> d \<noteq> soa) then Inl UncacheableResponse
       else (let t = min (ttl r) (minimum soa) in
             soa_lifetime D cls terminal rs (Some (rr_name r, soa))
               (Some (case lifetime of None \<Rightarrow> t | Some current \<Rightarrow> min current t)))
   | _ \<Rightarrow> soa_lifetime D cls terminal rs identity lifetime)"

definition cname_negative_ttl :: "('n, 'w) dns_ops \<Rightarrow> 'n \<Rightarrow> dns_class \<Rightarrow> 'n message \<Rightarrow> decision_reason + nat" where
  "cname_negative_ttl D name cls response = (case cname_targets cls (answers response) fmempty of
     Inl e \<Rightarrow> Inl e
   | Inr ts \<Rightarrow>
       (case follow (fmsize ts) ts name of
          None \<Rightarrow> Inl UncacheableResponse
        | Some terminal \<Rightarrow>
            if terminal |\<in>| fmdom ts then Inl UncacheableResponse
            else (case soa_lifetime D cls terminal (authorities response) None None of
                    Inl e \<Rightarrow> Inl e
                  | Inr None \<Rightarrow> Inl NegativeWithoutSoa
                  | Inr (Some t) \<Rightarrow> Inr t)))"

definition soa_ttls :: "('n, 'w) dns_ops \<Rightarrow> 'n question \<Rightarrow> 'n message \<Rightarrow> nat list" where
  "soa_ttls D q response = List.map_filter (\<lambda>r. case data r of
     RSOA soa \<Rightarrow> if dns_class r = query_class q \<and> zone_of D (rr_name r) (q_name q)
                  then Some (min (ttl r) (minimum soa)) else None
   | _ \<Rightarrow> None) (authorities response)"

definition negative_ttl :: "('n, 'w) dns_ops \<Rightarrow> 'n question \<Rightarrow> 'n message \<Rightarrow> decision_reason + nat" where
  "negative_ttl D q response =
     (if answers response = [] then
        (case min_by_key (\<lambda>t. t) (soa_ttls D q response) of None \<Rightarrow> Inl NegativeWithoutSoa | Some t \<Rightarrow> Inr t)
      else if query_type q = CNAME then Inl UncacheableResponse
      else cname_negative_ttl D (q_name q) (query_class q) response)"

definition i32_max :: nat where
  "i32_max = 2 ^ 31 - 1"

text \<open>The loop over the stored records: caps every TTL and lowers the lifetime.\<close>

fun cap_records :: "nat \<Rightarrow> bool \<Rightarrow> 'n rr list \<Rightarrow> nat \<Rightarrow> decision_reason + ('n rr list \<times> nat)" where
  "cap_records max_ttl negative [] lifetime = Inr ([], lifetime)"
| "cap_records max_ttl negative (r # rs) lifetime =
     (if rr_type r \<in> {SIG, TSIG} then Inl UncacheableResponse
      else if i32_max < ttl r then Inl TtlZero
      else (let t = min (ttl r) max_ttl;
                t = (if negative \<and> rr_type r = SOA then min t lifetime else t)
            in case cap_records max_ttl negative rs (min lifetime t) of
                 Inl e \<Rightarrow> Inl e
               | Inr (rs', l) \<Rightarrow> Inr (r\<lparr>ttl := t\<rparr> # rs', l)))"

definition prepare_response ::
  "('n, 'w) dns_ops \<Rightarrow> 'n question \<Rightarrow> 'n message \<Rightarrow> policy \<Rightarrow> decision_reason + ('n message \<times> nat \<times> bool)" where
  "prepare_response D q response pol =
     (if \<not> plain_edns response then Inl UnsupportedEdns else
      (let negative = is_negative q response in
       case (if negative
             then (case negative_ttl D q response of
                     Inl e \<Rightarrow> Inl e
                   | Inr t \<Rightarrow> Inr (min (min (max_ttl_secs pol) (negative_ttl_cap_secs pol)) t))
             else Inr (max_ttl_secs pol)) of
         Inl e \<Rightarrow> Inl e
       | Inr l0 \<Rightarrow>
       (case cap_records (max_ttl_secs pol) negative (answers response) l0 of
          Inl e \<Rightarrow> Inl e
        | Inr (ans, l1) \<Rightarrow>
       (case cap_records (max_ttl_secs pol) negative (authorities response) l1 of
          Inl e \<Rightarrow> Inl e
        | Inr (auth, l2) \<Rightarrow>
       (case cap_records (max_ttl_secs pol) negative (additionals response) l2 of
          Inl e \<Rightarrow> Inl e
        | Inr (adds, l3) \<Rightarrow>
            if l3 = 0 then Inl TtlZero
            else Inr (response\<lparr>id := 0, edns := None, answers := ans, authorities := auth, additionals := adds\<rparr>,
                      l3, negative))))))"

subsection \<open>Charges and namespaces\<close>

text \<open>The sizes of the two Rust structures are the parameter \<open>overhead\<close>.\<close>

definition charge :: "('n, 'w) dns_ops \<Rightarrow> nat \<Rightarrow> 'w \<Rightarrow> 'n key \<Rightarrow> nat" where
  "charge D overhead w key = wire_len D w + name_len D (k_name key) + overhead + 192"

fun scopes_overlap :: "net_ops \<Rightarrow> scope \<Rightarrow> scope \<Rightarrow> bool" where
  "scopes_overlap N (Network a) (Network b) = (contains N a (net_addr b) \<or> contains N b (net_addr a))"
| "scopes_overlap N (Network a) (ExactSource b) = (contains N a (net_addr b) \<or> contains N b (net_addr a))"
| "scopes_overlap N (ExactSource a) (Network b) = (contains N a (net_addr b) \<or> contains N b (net_addr a))"
| "scopes_overlap N (ExactSource a) (ExactSource b) = (contains N a (net_addr b) \<or> contains N b (net_addr a))"
| "scopes_overlap N (Learned v4) (Network n) = (is_ipv4 (net_addr n) = v4)"
| "scopes_overlap N (Learned v4) (ExactSource n) = (is_ipv4 (net_addr n) = v4)"
| "scopes_overlap N (Network n) (Learned v4) = (is_ipv4 (net_addr n) = v4)"
| "scopes_overlap N (ExactSource n) (Learned v4) = (is_ipv4 (net_addr n) = v4)"
| "scopes_overlap N a b = (a = b)"

fun learned_serves :: "scope \<Rightarrow> scope \<Rightarrow> bool" where
  "learned_serves (Learned v4) (Network n) = (0 < prefix_len n \<and> is_ipv4 (net_addr n) = v4)"
| "learned_serves (Learned v4) (ExactSource n) = (0 < prefix_len n \<and> is_ipv4 (net_addr n) = v4)"
| "learned_serves _ _ = False"

lemma scopes_overlap_sym: "scopes_overlap N a b \<longleftrightarrow> scopes_overlap N b a"
  by (cases a; cases b) auto

context ip_network
begin

lemma exact_contains: "matches N (ExactSource n) (Some c) \<Longrightarrow> contains N n (cs_addr c)"
  unfolding exact_matches_iff by (simp add: contains_iff)

lemma matches_overlap:
  assumes "matches N a c" and "matches N b c"
  shows "scopes_overlap N a b"
proof (cases c)
  case None
  with assms show ?thesis by (cases a; cases b) auto
next
  case (Some e)
  have nested: "contains N m (net_addr n) \<or> contains N n (net_addr m)"
    if "contains N m (cs_addr e)" "contains N n (cs_addr e)" for m n
    using that by (rule common_nested)
  have exact: "contains N n (cs_addr e) \<and> 0 < source_prefix e" if "matches N (ExactSource n) (Some e)" for n
    using that exact_contains by simp
  have fam: "is_ipv4 (net_addr n) = is_ipv4 (cs_addr e)" if "contains N n (cs_addr e)" for n
    using contains_family[OF that] by simp
  from assms show ?thesis unfolding Some
    by (cases a; cases b) (auto simp: fam dest!: exact simp del: matches.simps(4), (use nested in blast)+)
qed

end

subsection \<open>The policy of a name\<close>

lemma find_sorted_least:
  assumes "sorted (map f xs)" and "find P xs = Some x" and "y \<in> set xs" and "P y"
  shows "f x \<le> f y"
  using assms
  by (induction xs) (auto split: if_splits)

lemma those_Some_set: "those xs = Some ys \<Longrightarrow> set xs = Some ` set ys"
  by (induction xs arbitrary: ys) (auto split: option.splits)


definition demo_rules :: "cache_rule list" where
  "demo_rules = [
     \<lparr>cr_name = ''test'', cr_suffix = True, cr_qtype = None, cr_bypass = True, cr_max_ttl_secs = None,
      cr_negative_ttl_cap_secs = None, cr_prefetch = None, cr_stale = None\<rparr>,
     \<lparr>cr_name = ''example.test'', cr_suffix = False, cr_qtype = Some ''A'', cr_bypass = False, cr_max_ttl_secs = Some 30,
      cr_negative_ttl_cap_secs = None, cr_prefetch = None, cr_stale = None\<rparr>]"

definition demo_cache_config :: cache_config where
  "demo_cache_config = \<lparr>c_enabled = True, c_max_entries = 100, c_max_bytes = 200000, c_max_variants = 4,
     c_max_ttl_secs = 86400, c_negative_ttl_cap_secs = 900, c_servfail_ttl_secs = 30, c_shards = 1,
     c_negative_percent = 20, c_prefetch = \<lparr>pf_enabled = False, min_hits = 1, remaining_percent = 25,
       max_inflight = 32, rate_per_sec = 100, backoff_secs = 5\<rparr>,
     c_stale = \<lparr>st_enabled = True, retention_secs = 300, reply_ttl_secs = 30\<rparr>, c_sharing = demo_sharing,
     c_rules = demo_rules\<rparr>"

definition demo_compiled :: "ref_name rule list" where
  "demo_compiled = [\<lparr>r_name = [''example'', ''test''], r_qtype = Some A, r_index = 1\<rparr>,
     \<lparr>r_name = [''test''], r_qtype = None, r_index = 0\<rparr>]"

lemma demo_compile: "compile_rules ref_dns demo_cache_config = Some demo_compiled"
  by (simp add: compile_rules_def demo_cache_config_def demo_rules_def parse_rule_def demo_compiled_def rule_order_def
      insort_key.simps sort_key_def)


subsection \<open>Lifetimes of stored answers\<close>

lemma cap_records_ok:
  "cap_records m negative rs l = Inr (rs', l') \<Longrightarrow>
   l' \<le> l \<and> (\<forall>r \<in> set rs'. l' \<le> ttl r \<and> ttl r \<le> m \<and> rr_type r \<notin> {SIG, TSIG}) \<and>
   list_all2 (\<lambda>r r'. ttl r' \<le> ttl r \<and> r' = r\<lparr>ttl := ttl r'\<rparr> \<and> ttl r \<le> i32_max) rs rs'"
proof (induction rs arbitrary: l rs' l')
  case (Cons r rs)
  define t where "t = (let t = min (ttl r) m in if negative \<and> rr_type r = SOA then min t l else t)"
  from Cons.prems obtain rs'' where c: "cap_records m negative rs (min l t) = Inr (rs'', l')" "rs' = r\<lparr>ttl := t\<rparr> # rs''"
    "rr_type r \<notin> {SIG, TSIG}" "ttl r \<le> i32_max"
    by (auto simp: t_def Let_def split: if_splits sum.splits prod.splits)
  have "t \<le> ttl r" "t \<le> m" by (auto simp: t_def Let_def)
  with Cons.IH[OF c(1)] c show ?case by auto
qed auto

lemma prepare_facts:
  assumes "prepare_response D q response pol = Inr (stored, lifetime, negative)"
  shows "0 < lifetime \<and> lifetime \<le> max_ttl_secs pol \<and> negative = is_negative q response \<and>
    (negative \<longrightarrow> lifetime \<le> negative_ttl_cap_secs pol \<and> (\<exists>t. negative_ttl D q response = Inr t \<and> lifetime \<le> t)) \<and>
    id stored = 0 \<and> edns stored = None \<and> response_code stored = response_code response \<and>
    (\<forall>r \<in> set (answers stored @ authorities stored @ additionals stored).
       lifetime \<le> ttl r \<and> ttl r \<le> max_ttl_secs pol \<and> rr_type r \<notin> {SIG, TSIG}) \<and>
    list_all2 (\<lambda>r r'. ttl r' \<le> ttl r \<and> r' = r\<lparr>ttl := ttl r'\<rparr> \<and> ttl r \<le> i32_max)
      (answers response @ authorities response @ additionals response)
      (answers stored @ authorities stored @ additionals stored)"
proof -
  define m where "m = max_ttl_secs pol"
  define neg where "neg = is_negative q response"
  from assms obtain l0 l1 l2 ans auth adds where
    l0: "(if neg then (case negative_ttl D q response of Inl e \<Rightarrow> Inl e
             | Inr t \<Rightarrow> Inr (min (min m (negative_ttl_cap_secs pol)) t)) else Inr m) = (Inr l0 :: decision_reason + nat)"
    and c: "cap_records m neg (answers response) l0 = Inr (ans, l1)"
      "cap_records m neg (authorities response) l1 = Inr (auth, l2)"
      "cap_records m neg (additionals response) l2 = Inr (adds, lifetime)"
    and st: "0 < lifetime" "negative = neg"
      "stored = response\<lparr>id := 0, edns := None, answers := ans, authorities := auth, additionals := adds\<rparr>"
    unfolding prepare_response_def Let_def m_def[symmetric] neg_def[symmetric]
    by (auto split: if_splits sum.splits prod.splits)
  note ok = c[THEN cap_records_ok]
  from l0 have "l0 \<le> m" "neg \<longrightarrow> l0 \<le> negative_ttl_cap_secs pol \<and> (\<exists>t. negative_ttl D q response = Inr t \<and> l0 \<le> t)"
    by (auto split: if_splits sum.splits)
  with ok st show ?thesis
    by (fastforce simp: m_def neg_def intro!: list_all2_appendI)
qed

text \<open>C18. What is stored of an answer outlives none of its records: the lifetime is positive, at
  most the policy's cap and at most every stored TTL, so a fresh reply never has an expired
  record; stored TTLs are never raised; negative answers also respect the negative cap and
  the SOA; answers with transaction signatures or TTLs beyond 31 bits are refused.\<close>

theorem stored_lifetime:
  assumes "prepare_response D q response pol = Inr (stored, lifetime, negative)"
  shows "0 < lifetime \<and> lifetime \<le> max_ttl_secs pol \<and> negative = is_negative q response \<and>
    (negative \<longrightarrow> lifetime \<le> negative_ttl_cap_secs pol \<and> (\<exists>t. negative_ttl D q response = Inr t \<and> lifetime \<le> t)) \<and>
    id stored = 0 \<and> edns stored = None \<and> response_code stored = response_code response \<and>
    (\<forall>r \<in> set (answers stored @ authorities stored @ additionals stored).
       lifetime \<le> ttl r \<and> ttl r \<le> max_ttl_secs pol \<and> rr_type r \<notin> {SIG, TSIG}) \<and>
    list_all2 (\<lambda>r r'. ttl r' \<le> ttl r \<and> r' = r\<lparr>ttl := ttl r'\<rparr> \<and> ttl r \<le> i32_max)
      (answers response @ authorities response @ additionals response)
      (answers stored @ authorities stored @ additionals stored)"
  using assms by (rule prepare_facts)

definition demo_policy :: policy where
  "demo_policy = \<lparr>rule_index = None, bypass = False, max_ttl_secs = 50, negative_ttl_cap_secs = 900,
     p_prefetch = False, p_stale = True\<rparr>"

definition demo_stored :: "ref_name message" where
  "demo_stored = (demo_two [demo_rr 50 1, demo_rr 7 2])\<lparr>id := 0, edns := None\<rparr>"

lemma demo_prepare:
  "prepare_response ref_dns demo_question (demo_two [demo_rr 60 1, demo_rr 7 2]) demo_policy = Inr (demo_stored, 7, False)"
  by (simp add: prepare_response_def plain_edns_def edns_within_def is_negative_def demo_two_def demo_rr_def demo_defs
      demo_policy_def demo_stored_def edns_codes i32_max_def)

theorem stored_lifetime_witness:
  "prepare_response ref_dns demo_question (demo_two [demo_rr 60 1, demo_rr 7 2]) demo_policy = Inr (demo_stored, 7, False) \<and>
   7 \<le> max_ttl_secs demo_policy \<and> edns demo_stored = None \<and>
   list_all (\<lambda>r. 7 \<le> ttl r) (answers demo_stored @ authorities demo_stored @ additionals demo_stored)"
  unfolding list_all_iff using stored_lifetime[OF demo_prepare] demo_prepare by blast

subsection \<open>Negative answers behind aliases\<close>

text \<open>A path along the alias links.\<close>

fun alias_path :: "('n, 'n) fmap \<Rightarrow> 'n \<Rightarrow> 'n list \<Rightarrow> 'n \<Rightarrow> bool" where
  "alias_path ts n [] t = (n = t)"
| "alias_path ts n (x # xs) t = (x = n \<and> (case fmlookup ts n of None \<Rightarrow> False | Some m \<Rightarrow> alias_path ts m xs t))"

lemma follow_path: "follow i ts n = Some t \<longleftrightarrow> (\<exists>xs. length xs = i \<and> alias_path ts n xs t)"
proof (induction i arbitrary: n)
  case (Suc i)
  have "(\<exists>xs. length xs = Suc i \<and> alias_path ts n xs t) \<longleftrightarrow>
      (\<exists>m xs. fmlookup ts n = Some m \<and> length xs = i \<and> alias_path ts m xs t)"
  proof
    assume "\<exists>m xs. fmlookup ts n = Some m \<and> length xs = i \<and> alias_path ts m xs t"
    then obtain m xs where "fmlookup ts n = Some m" "length xs = i" "alias_path ts m xs t" by blast
    then show "\<exists>xs. length xs = Suc i \<and> alias_path ts n xs t" by (intro exI[of _ "n # xs"]) simp
  qed (auto simp: length_Suc_conv split: option.splits)
  with Suc show ?case by (cases "fmlookup ts n") auto
qed auto

lemma alias_path_dom: "alias_path ts n xs t \<Longrightarrow> set xs \<subseteq> fset (fmdom ts)"
  by (induction xs arbitrary: n) (auto split: option.splits simp: fmlookup_dom_iff_Some)

lemma alias_path_unique:
  "alias_path ts n xs t \<Longrightarrow> alias_path ts n ys t' \<Longrightarrow> t |\<notin>| fmdom ts \<Longrightarrow> t' |\<notin>| fmdom ts \<Longrightarrow> xs = ys \<and> t = t'"
proof (induction xs arbitrary: n ys)
  case Nil
  then show ?case by (cases ys) (auto split: option.splits simp: fmlookup_dom_iff_Some)
next
  case (Cons x xs)
  then obtain m where m: "fmlookup ts n = Some m" "alias_path ts m xs t" "x = n" by (auto split: option.splits)
  with Cons.prems obtain ys' where "ys = n # ys'" "alias_path ts m ys' t'"
    by (cases ys) (auto simp: fmlookup_dom_iff_Some)
  with Cons.IH[OF m(2)] Cons.prems m(3) show ?case by blast
qed

lemma alias_path_tail: "alias_path ts n (xs @ y # ys) t \<Longrightarrow> alias_path ts y (y # ys) t"
proof (induction xs arbitrary: n)
  case (Cons x xs)
  then obtain m where "alias_path ts m (xs @ y # ys) t" by (auto split: option.splits)
  then show ?case by (rule Cons.IH)
qed auto

lemma alias_path_distinct: "alias_path ts n xs t \<Longrightarrow> t |\<notin>| fmdom ts \<Longrightarrow> distinct xs"
proof (induction xs arbitrary: n)
  case (Cons x xs)
  then obtain m where m: "fmlookup ts n = Some m" "alias_path ts m xs t" "x = n" by (auto split: option.splits)
  have "n \<notin> set xs"
  proof
    assume "n \<in> set xs"
    then obtain us vs where "xs = us @ n # vs" by (meson split_list)
    with m alias_path_tail[of ts m us n vs t] alias_path_unique[of ts n "n # xs" t "n # vs" t] Cons.prems
    show False by auto
  qed
  with Cons.IH[OF m(2) Cons.prems(2)] m(3) show ?case by simp
qed simp

text \<open>Exactly one hop per owner and an end without a link: the path visits every owner once.\<close>

lemma follow_exhausts:
  "follow (fmsize ts) ts n = Some t \<and> t |\<notin>| fmdom ts \<longleftrightarrow>
   (\<exists>xs. alias_path ts n xs t \<and> distinct xs \<and> set xs = fset (fmdom ts) \<and> t \<notin> set xs)"
proof
  assume "follow (fmsize ts) ts n = Some t \<and> t |\<notin>| fmdom ts"
  then obtain xs where xs: "length xs = fmsize ts" "alias_path ts n xs t" "t |\<notin>| fmdom ts" by (auto simp: follow_path)
  note d = alias_path_distinct[OF xs(2,3)]
  have "set xs = fset (fmdom ts)"
    using alias_path_dom[OF xs(2)] xs(1) d by (intro card_subset_eq) (auto simp: distinct_card fcard.rep_eq)
  with xs d show "\<exists>xs. alias_path ts n xs t \<and> distinct xs \<and> set xs = fset (fmdom ts) \<and> t \<notin> set xs" by auto
next
  assume "\<exists>xs. alias_path ts n xs t \<and> distinct xs \<and> set xs = fset (fmdom ts) \<and> t \<notin> set xs"
  then obtain xs where xs: "alias_path ts n xs t" "distinct xs" "set xs = fset (fmdom ts)" "t \<notin> set xs" by blast
  then have "length xs = fmsize ts" by (intro fmsize_distinct)
  with xs show "follow (fmsize ts) ts n = Some t \<and> t |\<notin>| fmdom ts" by (auto simp: follow_path)
qed

lemma cname_targets_Inr:
  "cname_targets cls rs ts0 = Inr ts \<Longrightarrow>
   (\<forall>r \<in> set rs. dns_class r = cls \<and> (\<exists>m. data r = RCNAME m \<and> fmlookup ts (rr_name r) = Some m)) \<and>
   (\<forall>k m. fmlookup ts0 k = Some m \<longrightarrow> fmlookup ts k = Some m) \<and>
   fset (fmdom ts) = fset (fmdom ts0) \<union> rr_name ` set rs"
proof (induction rs arbitrary: ts0)
  case (Cons r rs)
  then obtain target where r: "data r = RCNAME target" "dns_class r = cls"
    "\<forall>prev. fmlookup ts0 (rr_name r) = Some prev \<longrightarrow> prev = target"
    "cname_targets cls rs (fmupd (rr_name r) target ts0) = Inr ts"
    by (auto split: rdata.splits if_splits option.splits)
  note IH = Cons.IH[OF r(4)]
  have "fmlookup ts k = Some m" if "fmlookup ts0 k = Some m" for k m
    using IH r(3) that by (cases "k = rr_name r") auto
  with IH r show ?case by auto
qed auto

lemma cname_targets_ok:
  assumes "\<forall>r \<in> set rs. dns_class r = cls \<and> (\<exists>m. data r = RCNAME m \<and> g (rr_name r) = Some m)"
    and "\<forall>k m. fmlookup ts0 k = Some m \<longrightarrow> g k = Some m"
  shows "\<exists>ts. cname_targets cls rs ts0 = Inr ts \<and> (\<forall>k m. fmlookup ts k = Some m \<longrightarrow> g k = Some m)"
  using assms
proof (induction rs arbitrary: ts0)
  case (Cons r rs)
  then obtain m where m: "data r = RCNAME m" "g (rr_name r) = Some m" "dns_class r = cls" by auto
  have "\<forall>k v. fmlookup (fmupd (rr_name r) m ts0) k = Some v \<longrightarrow> g k = Some v" using Cons.prems(2) m by auto
  from Cons.IH[OF _ this] Cons.prems m show ?case by (auto split: option.splits)
qed auto

text \<open>The owner, the record and the lifetime of the SOA records of an authority section.\<close>

definition soas :: "'n rr list \<Rightarrow> ('n rr \<times> 'n soa) list" where
  "soas rs = List.map_filter (\<lambda>r. case data r of RSOA s \<Rightarrow> Some (r, s) | _ \<Rightarrow> None) rs"

definition soa_value :: "'n rr \<times> 'n soa \<Rightarrow> nat" where
  "soa_value p = min (ttl (fst p)) (minimum (snd p))"

lemma soas_simps [simp]:
  "soas [] = []"
  "soas (r # rs) = (case data r of RSOA s \<Rightarrow> (r, s) # soas rs | _ \<Rightarrow> soas rs)"
  by (simp_all add: soas_def map_filter_simps split: rdata.splits)

lemma soa_lifetime_some:
  "soa_lifetime D cls t rs (Some (n, s)) (Some l) = Inr res \<longleftrightarrow>
   (\<forall>(r, s') \<in> set (soas rs). dns_class r = cls \<and> zone_of D (rr_name r) t \<and> rr_name r = n \<and> s' = s) \<and>
   res = Some (fold min (map soa_value (soas rs)) l)"
proof (induction rs arbitrary: l)
  case (Cons r rs)
  show ?case
  proof (cases "data r")
    case (RSOA s')
    then show ?thesis using Cons.IH
      by (auto simp: soa_value_def min.commute)
  qed (use Cons.IH in simp_all)
qed auto

lemma soa_lifetime_none:
  "soa_lifetime D cls t rs None None = Inr res \<longleftrightarrow>
   (\<forall>(r, s) \<in> set (soas rs). dns_class r = cls \<and> zone_of D (rr_name r) t \<and>
      rr_name r = rr_name (fst (hd (soas rs))) \<and> s = snd (hd (soas rs))) \<and>
   res = (if soas rs = [] then None else Some (Min (soa_value ` set (soas rs))))"
proof (induction rs)
  case (Cons r rs)
  show ?case
  proof (cases "data r")
    case (RSOA s)
    have "fold min (map soa_value (soas rs)) (min (ttl r) (minimum s)) = Min (insert (min (ttl r) (minimum s)) (soa_value ` set (soas rs)))"
      by (simp flip: Min.set_eq_fold set_map)
    with RSOA show ?thesis by (auto simp: soa_lifetime_some soa_value_def)
  qed (use Cons.IH in simp_all)
qed auto

text \<open>The alias chain a negative answer proves: one link per owner, all of the question's class.\<close>

definition alias_chain :: "dns_class \<Rightarrow> 'n rr list \<Rightarrow> 'n \<Rightarrow> 'n list \<Rightarrow> 'n \<Rightarrow> bool" where
  "alias_chain cls rs name owners terminal \<longleftrightarrow>
     distinct owners \<and> set owners = rr_name ` set rs \<and> terminal \<notin> set owners \<and>
     hd (owners @ [terminal]) = name \<and>
     (\<forall>r \<in> set rs. dns_class r = cls \<and>
        (\<exists>m. data r = RCNAME m \<and> (rr_name r, m) \<in> set (zip owners (tl owners @ [terminal]))))"

lemma alias_path_zip:
  "alias_path ts n xs t \<longleftrightarrow> hd (xs @ [t]) = n \<and> (\<forall>(x, m) \<in> set (zip xs (tl xs @ [t])). fmlookup ts x = Some m)"
proof (induction xs arbitrary: n)
  case (Cons x xs)
  have "alias_path ts n (x # xs) t \<longleftrightarrow> x = n \<and> fmlookup ts n = Some (hd (xs @ [t])) \<and>
      (\<forall>(x, m) \<in> set (zip xs (tl xs @ [t])). fmlookup ts x = Some m)"
    unfolding alias_path.simps Cons.IH by (cases "fmlookup ts n") auto
  then show ?case by (cases xs) auto
qed auto

lemma chain_targets:
  "(\<exists>ts. cname_targets cls rs fmempty = Inr ts \<and> follow (fmsize ts) ts name = Some t \<and> t |\<notin>| fmdom ts) \<longleftrightarrow>
   (\<exists>owners. alias_chain cls rs name owners t)"
proof
  assume "\<exists>ts. cname_targets cls rs fmempty = Inr ts \<and> follow (fmsize ts) ts name = Some t \<and> t |\<notin>| fmdom ts"
  then obtain ts where ts: "cname_targets cls rs fmempty = Inr ts" "follow (fmsize ts) ts name = Some t \<and> t |\<notin>| fmdom ts"
    by blast
  note tg = cname_targets_Inr[OF ts(1)]
  from ts(2)[unfolded follow_exhausts] obtain xs where xs: "alias_path ts name xs t" "distinct xs"
    "set xs = fset (fmdom ts)" "t \<notin> set xs" by blast
  have "(rr_name r, m) \<in> set (zip xs (tl xs @ [t]))" if "r \<in> set rs" "data r = RCNAME m" for r m
  proof -
    from that tg have "fmlookup ts (rr_name r) = Some m" by force
    moreover have "rr_name r \<in> set xs" using that tg xs(3) by auto
    then obtain i where i: "i < length xs" "xs ! i = rr_name r" by (auto simp: in_set_conv_nth)
    moreover have "(xs ! i, (tl xs @ [t]) ! i) \<in> set (zip xs (tl xs @ [t]))"
      using i by (auto simp: set_zip intro!: exI[of _ i])
    ultimately show ?thesis using xs(1)[unfolded alias_path_zip] i(2) by auto
  qed
  moreover have "hd (xs @ [t]) = name" using xs(1) by (simp add: alias_path_zip)
  moreover have "set xs = rr_name ` set rs" using xs(3) tg by simp
  ultimately have "alias_chain cls rs name xs t" using tg xs(2,4) unfolding alias_chain_def by blast
  then show "\<exists>owners. alias_chain cls rs name owners t" ..
next
  assume "\<exists>owners. alias_chain cls rs name owners t"
  then obtain xs where xs: "alias_chain cls rs name xs t" ..
  let ?g = "map_of (zip xs (tl xs @ [t]))"
  have len: "length xs = length (tl xs @ [t]) \<or> xs = []" by (cases xs) auto
  have g: "?g k = Some m \<longleftrightarrow> (k, m) \<in> set (zip xs (tl xs @ [t]))" for k m
    using xs len by (auto simp: alias_chain_def intro!: map_of_eq_Some_iff)
  from cname_targets_ok[of rs cls ?g fmempty] xs obtain ts where
    ts: "cname_targets cls rs fmempty = Inr ts" "\<forall>k m. fmlookup ts k = Some m \<longrightarrow> ?g k = Some m"
    by (auto simp: alias_chain_def g)
  note tg = cname_targets_Inr[OF ts(1)]
  show "\<exists>ts. cname_targets cls rs fmempty = Inr ts \<and> follow (fmsize ts) ts name = Some t \<and> t |\<notin>| fmdom ts"
  proof (intro exI[of _ ts] conjI ts(1))
    have dom: "set xs = fset (fmdom ts)" using xs tg by (simp add: alias_chain_def)
    have "fmlookup ts x = Some m" if "(x, m) \<in> set (zip xs (tl xs @ [t]))" for x m
    proof -
      from that have "x |\<in>| fmdom ts" using dom by (auto dest: set_zip_leftD)
      then obtain m' where "fmlookup ts x = Some m'" by (auto simp: fmlookup_dom_iff_Some)
      with ts(2) g that show ?thesis by (metis option.inject)
    qed
    then have "alias_path ts name xs t" using xs by (auto simp: alias_path_zip alias_chain_def)
    with dom xs have "follow (fmsize ts) ts name = Some t \<and> t |\<notin>| fmdom ts"
      unfolding follow_exhausts by (auto simp: alias_chain_def)
    then show "follow (fmsize ts) ts name = Some t" "t |\<notin>| fmdom ts" by blast+
  qed
qed

text \<open>C19. A negative answer behind aliases is cached exactly when its records prove it: the
  answers are CNAME records of the question's class that form one chain from the question's
  name through every owner to a terminal name without an alias, and the authority section
  has SOA records, all for one zone of the terminal name with one content; the lifetime is
  then the least TTL and SOA minimum among them.\<close>

theorem cname_negative_exact:
  "cname_negative_ttl D name cls response = Inr t \<longleftrightarrow>
   (\<exists>owners terminal. alias_chain cls (answers response) name owners terminal \<and>
      soas (authorities response) \<noteq> [] \<and>
      (\<forall>(r, s) \<in> set (soas (authorities response)). dns_class r = cls \<and> zone_of D (rr_name r) terminal \<and>
         rr_name r = rr_name (fst (hd (soas (authorities response)))) \<and> s = snd (hd (soas (authorities response)))) \<and>
      t = Min (soa_value ` set (soas (authorities response))))"
proof -
  have "cname_negative_ttl D name cls response = Inr t \<longleftrightarrow>
    (\<exists>terminal. (\<exists>ts. cname_targets cls (answers response) fmempty = Inr ts \<and>
        follow (fmsize ts) ts name = Some terminal \<and> terminal |\<notin>| fmdom ts) \<and>
      soa_lifetime D cls terminal (authorities response) None None = Inr (Some t))"
    by (auto simp: cname_negative_ttl_def split: sum.splits option.splits if_splits)
  then show ?thesis unfolding chain_targets soa_lifetime_none by (auto split: if_splits)
qed

definition demo_alias :: "ref_name message" where
  "demo_alias = demo_query\<lparr>message_type := MResponse, response_code := NXDomain,
     answers := [\<lparr>rr_name = [''example'', ''test''], dns_class = IN, ttl = 60, data = RCNAME [''gone'', ''test'']\<rparr>],
     authorities := [\<lparr>rr_name = [''test''], dns_class = IN, ttl = 90,
       data = RSOA \<lparr>mname = [], rname = [], serial = 1, soa_refresh = 1, soa_retry = 1, soa_expire = 1, minimum = 30\<rparr>\<rparr>]\<rparr>"

lemma demo_alias_ttl: "cname_negative_ttl ref_dns [''example'', ''test''] IN demo_alias = Inr 30"
  by (simp add: cname_negative_ttl_def demo_alias_def eval_simps)

theorem cname_negative_exact_witness:
  "\<exists>owners terminal. alias_chain IN (answers demo_alias) [''example'', ''test''] owners terminal"
  using cname_negative_exact[THEN iffD1, OF demo_alias_ttl] by blast

end
