(* ===== verification/Cache.thy ===== *)
theory Cache
  imports Answer
begin

text \<open>
  The cache, \<open>src/src/cache.rs\<close>: shards with two LRU partitions, buckets of variants per key,
  admission, lookup, failures, eviction and invalidation.

  An \<open>Arc<Entry>\<close> is modelled by the value of the entry's immutable fields; its atomic fields
  are in the shard's \<open>cells\<close>, addressed by the entry's id. Every shard records the entries
  readers still hold (\<open>held\<close>), because an entry's charge is returned only when its last
  \<open>Arc\<close> is dropped. A lookup is two steps, the locked part and the part after the lock, so
  that runs can interleave them with other operations. The libraries are the fields of
  \<open>cache_env\<close>; \<open>e_hash\<close> is the random hasher and \<open>e_overhead\<close> the size of two Rust structures.
  Panics are \<open>None\<close>.
\<close>

datatype failure = StaleFallback | Final

record ('n, 'w) entry =
  e_id :: nat
  e_key :: "'n key"
  e_wire :: 'w
  e_scope :: scope
  e_inserted :: instant
  e_lifetime :: duration
  e_retention :: duration
  e_negative :: bool
  e_failure :: "failure option"
  e_prefetch :: bool
  e_charge :: nat

record cell =
  refreshed :: bool
  hits :: nat
  accessed :: nat

record 'l partition =
  p_lru :: 'l
  charged :: nat
  max_entries :: nat
  max_bytes :: nat
  p_evictions :: evictions

record counts =
  n_hits :: nat
  n_stale_hits :: nat
  n_misses :: nat
  n_evictions :: nat
  n_rejections :: nat
  n_shared_hits :: nat
  n_revocations :: nat
  n_failure_hits :: nat

record ('n, 'w, 'l, 's) shard =
  buckets :: "('n key, ('n, 'w) entry list) fmap"
  positive :: "'l partition"
  negative :: "'l partition"
  clock :: nat
  counts :: counts
  sharing :: "'s table"
  learned :: nat
  failures :: nat
  cells :: "nat \<Rightarrow> cell"
  held :: "('n, 'w) entry list"

record ('n, 'w, 'd, 'l, 's) cache_env =
  e_net :: net_ops
  e_dns :: "('n, 'w) dns_ops"
  e_dec :: "'d dec_ops"
  e_lru :: "('l, nat, ('n, 'w) entry) lru_ops"
  e_cls :: "('s, 'n) class_lru"
  e_hash :: "'n key \<Rightarrow> nat"
  e_enc :: "'n enc_ops"
  e_overhead :: nat

record cache_stats =
  bypasses :: nat
  refresh_useful :: nat
  refresh_unused :: nat

record ('n, 'w, 'l, 's) cache =
  config :: cache_config
  shards :: "('n, 'w, 'l, 's) shard list"
  rules :: "'n rule list"
  epoch :: nat
  stats :: cache_stats
  diag :: diagnostics

subsection \<open>Partitions and entries\<close>

definition partition_new :: "('n, 'w, 'd, 'l, 's) cache_env \<Rightarrow> nat \<Rightarrow> nat \<Rightarrow> 'l partition" where
  "partition_new E me mb = \<lparr>p_lru = lru_unbounded (e_lru E), charged = 0, max_entries = me, max_bytes = mb,
     p_evictions = evictions_default\<rparr>"

definition part :: "bool \<Rightarrow> ('n, 'w, 'l, 's) shard \<Rightarrow> 'l partition" where
  "part neg sh = (if neg then negative sh else positive sh)"

definition set_part :: "bool \<Rightarrow> 'l partition \<Rightarrow> ('n, 'w, 'l, 's) shard \<Rightarrow> ('n, 'w, 'l, 's) shard" where
  "set_part neg p sh = (if neg then sh\<lparr>negative := p\<rparr> else sh\<lparr>positive := p\<rparr>)"

definition settle_refresh :: "nat \<Rightarrow> ('n, 'w, 'l, 's) shard \<Rightarrow> bool \<times> ('n, 'w, 'l, 's) shard" where
  "settle_refresh i sh = (let c = cells sh i in
     (refreshed c, if refreshed c then sh\<lparr>cells := (cells sh)(i := c\<lparr>refreshed := False\<rparr>)\<rparr> else sh))"

text \<open>\<open>Entry::drop\<close>, once the last reference is gone.\<close>

definition entry_drop :: "('n, 'w) entry \<Rightarrow> ('n, 'w, 'l, 's) shard \<Rightarrow> ('n, 'w, 'l, 's) shard" where
  "entry_drop e sh = (let p = part (e_negative e) sh in set_part (e_negative e) (p\<lparr>charged := charged p - e_charge e\<rparr>) sh)"

definition is_learned :: "scope \<Rightarrow> bool" where
  "is_learned s = (case s of Learned _ \<Rightarrow> True | _ \<Rightarrow> False)"

definition bucket_of :: "'n key \<Rightarrow> ('n, 'w, 'l, 's) shard \<Rightarrow> ('n, 'w) entry list" where
  "bucket_of k sh = (case fmlookup (buckets sh) k of None \<Rightarrow> [] | Some es \<Rightarrow> es)"

definition unlink :: "('n, 'w) entry \<Rightarrow> nat \<Rightarrow> ('n, 'w, 'l, 's) shard \<Rightarrow> ('n, 'w, 'l, 's) shard" where
  "unlink e i sh = (case fmlookup (buckets sh) (e_key e) of
     None \<Rightarrow> sh
   | Some es \<Rightarrow>
       (let es' = filter (\<lambda>x. e_id x \<noteq> i) es in
        if es' = [] then sh\<lparr>buckets := fmdrop (e_key e) (buckets sh)\<rparr>
        else sh\<lparr>buckets := fmupd (e_key e) es' (buckets sh)\<rparr>))"

definition remove ::
  "('n, 'w, 'd, 'l, 's) cache_env \<Rightarrow> bool \<Rightarrow> nat \<Rightarrow> cache_stats \<times> ('n, 'w, 'l, 's) shard \<Rightarrow>
   cache_stats \<times> ('n, 'w, 'l, 's) shard" where
  "remove E neg i st = (case st of (g, sh) \<Rightarrow>
     (case lru_pop (e_lru E) i (p_lru (part neg sh)) of
        None \<Rightarrow> (g, sh)
      | Some (e, l) \<Rightarrow>
          (let sh1 = set_part neg ((part neg sh)\<lparr>p_lru := l\<rparr>) sh;
               (r, sh2) = settle_refresh i sh1;
               g' = (if r then g\<lparr>refresh_unused := refresh_unused g + 1\<rparr> else g);
               sh3 = sh2\<lparr>learned := learned sh2 - (if is_learned (e_scope e) then 1 else 0),
                          failures := failures sh2 - (if e_failure e \<noteq> None then 1 else 0)\<rparr>;
               sh4 = unlink e i sh3
           in (g', if e \<in> set (held sh4) then sh4 else entry_drop e sh4))))"

fun remove_all ::
  "('n, 'w, 'd, 'l, 's) cache_env \<Rightarrow> (bool \<times> nat) list \<Rightarrow> cache_stats \<times> ('n, 'w, 'l, 's) shard \<Rightarrow>
   cache_stats \<times> ('n, 'w, 'l, 's) shard" where
  "remove_all E [] st = st"
| "remove_all E ((neg, i) # xs) st = remove_all E xs (remove E neg i st)"

abbreviation age_of :: "instant \<Rightarrow> ('n, 'w) entry \<Rightarrow> duration" where
  "age_of now e \<equiv> saturating_duration_since now (e_inserted e)"

definition evict ::
  "('n, 'w, 'd, 'l, 's) cache_env \<Rightarrow> bool \<Rightarrow> nat \<Rightarrow> instant \<Rightarrow> eviction_reason \<Rightarrow>
   cache_stats \<times> ('n, 'w, 'l, 's) shard \<Rightarrow> (cache_stats \<times> ('n, 'w, 'l, 's) shard) option" where
  "evict E neg i now why st = (case st of (g, sh) \<Rightarrow>
     (case lru_peek (e_lru E) i (p_lru (part neg sh)) of
        None \<Rightarrow> None
      | Some e \<Rightarrow>
          (let state = (if age_of now e < e_lifetime e then EFresh
                        else if age_of now e < e_retention e then ERetained else EExpired);
               p = part neg sh;
               sh1 = set_part neg (p\<lparr>p_evictions := evictions_record (p_evictions p) why state\<rparr>) sh;
               sh2 = sh1\<lparr>counts := (counts sh1)\<lparr>n_evictions := n_evictions (counts sh1) + 1\<rparr>\<rparr>
           in Some (remove E neg i (g, sh2)))))"

definition prune ::
  "('n, 'w, 'd, 'l, 's) cache_env \<Rightarrow> 'n key \<Rightarrow> instant \<Rightarrow> cache_stats \<times> ('n, 'w, 'l, 's) shard \<Rightarrow>
   cache_stats \<times> ('n, 'w, 'l, 's) shard" where
  "prune E key now st = (case st of (g, sh) \<Rightarrow>
     remove_all E (map (\<lambda>e. (e_negative e, e_id e))
       (filter (\<lambda>e. e_retention e \<le> age_of now e) (bucket_of key sh))) st)"

text \<open>\<open>Shard::select\<close>: the fresh and most specific entry for a client.\<close>

definition selectable :: "net_ops \<Rightarrow> client_subnet option \<Rightarrow> instant \<Rightarrow> bool \<Rightarrow> ('n, 'w) entry \<Rightarrow> bool" where
  "selectable N out now allow_stale e \<longleftrightarrow>
     matches N (e_scope e) out \<and> age_of now e < e_retention e \<and>
     (age_of now e < e_lifetime e \<or> allow_stale) \<and> \<not> (allow_stale \<and> e_failure e \<noteq> None)"

definition select ::
  "('n, 'w, 'd, 'l, 's) cache_env \<Rightarrow> ('n, 'w, 'l, 's) shard \<Rightarrow> 'n key \<Rightarrow> client_subnet option \<Rightarrow> instant \<Rightarrow> bool \<Rightarrow>
   (bool \<times> nat) option" where
  "select E sh key out now allow_stale =
     map_option (\<lambda>e. (e_negative e, e_id e))
       (max_by_key (\<lambda>e. (age_of now e < e_lifetime e, scope_prefix_len (e_scope e)))
          (filter (selectable (e_net E) out now allow_stale) (bucket_of key sh)))"

subsection \<open>Placing an entry\<close>

record 'w stored =
  s_wire :: 'w
  s_scope :: scope
  s_lifetime :: duration
  s_retention :: duration
  s_negative :: bool
  s_failure :: "failure option"
  s_prefetch :: bool
  s_refreshed :: bool
  s_accessed :: "nat option"

definition reject :: "('n, 'w, 'l, 's) shard \<Rightarrow> ('n, 'w, 'l, 's) shard" where
  "reject sh = sh\<lparr>counts := (counts sh)\<lparr>n_rejections := n_rejections (counts sh) + 1\<rparr>\<rparr>"

text \<open>The variant ceiling: makes room among the variants of the same kind, or refuses.\<close>

definition make_variant_room ::
  "('n, 'w, 'd, 'l, 's) cache_env \<Rightarrow> nat \<Rightarrow> 'n key \<Rightarrow> bool \<Rightarrow> instant \<Rightarrow> cache_stats \<times> ('n, 'w, 'l, 's) shard \<Rightarrow>
   (bool \<times> cache_stats \<times> ('n, 'w, 'l, 's) shard) option" where
  "make_variant_room E max_variants key neg now st = (case st of (g, sh) \<Rightarrow>
     (case fmlookup (buckets sh) key of
        None \<Rightarrow> Some (True, g, sh)
      | Some es \<Rightarrow>
          if length es < max_variants then Some (True, g, sh)
          else (case min_by_key (\<lambda>e. accessed (cells sh (e_id e))) (filter (\<lambda>e. e_negative e = neg) es) of
                  None \<Rightarrow> Some (False, g, reject sh)
                | Some e \<Rightarrow> map_option (\<lambda>st'. (True, st')) (evict E (e_negative e) (e_id e) now Variants (g, sh)))))"

text \<open>The eviction loop; \<open>False\<close> when the partition is empty and the entry still does not fit.
  \<open>None\<close> is a panic or lack of fuel.\<close>

fun make_room ::
  "('n, 'w, 'd, 'l, 's) cache_env \<Rightarrow> bool \<Rightarrow> nat \<Rightarrow> instant \<Rightarrow> nat \<Rightarrow> cache_stats \<times> ('n, 'w, 'l, 's) shard \<Rightarrow>
   (bool \<times> cache_stats \<times> ('n, 'w, 'l, 's) shard) option" where
  "make_room E neg ch now 0 st = None"
| "make_room E neg ch now (Suc fuel) st =
     (let p = part neg (snd st);
          entry_limit = max_entries p \<le> lru_len (e_lru E) (p_lru p);
          byte_limit = max_bytes p < charged p + ch
      in if \<not> entry_limit \<and> \<not> byte_limit then Some (True, st)
         else case lru_peek_lru (e_lru E) (p_lru p) of
                None \<Rightarrow> Some (False, fst st, reject (snd st))
              | Some (i, _) \<Rightarrow>
                  (let why = (if entry_limit \<and> byte_limit then EntriesAndBytes
                              else if entry_limit then Entries else Bytes)
                   in case evict E neg i now why st of
                        None \<Rightarrow> None
                      | Some st' \<Rightarrow> make_room E neg ch now fuel st'))"

definition publish ::
  "('n, 'w, 'd, 'l, 's) cache_env \<Rightarrow> 'n key \<Rightarrow> 'w stored \<Rightarrow> nat \<Rightarrow> instant \<Rightarrow> ('n, 'w, 'l, 's) shard \<Rightarrow> ('n, 'w, 'l, 's) shard" where
  "publish E key s ch now sh =
     (let i = clock sh + 1;
          e = \<lparr>e_id = i, e_key = key, e_wire = s_wire s, e_scope = s_scope s, e_inserted = now,
               e_lifetime = s_lifetime s, e_retention = s_retention s, e_negative = s_negative s,
               e_failure = s_failure s, e_prefetch = s_prefetch s, e_charge = ch\<rparr>;
          p = part (s_negative s) sh;
          l = lru_put (e_lru E) i e (p_lru p);
          l = (if s_accessed s \<noteq> None then lru_demote (e_lru E) i l else l);
          sh1 = set_part (s_negative s) (p\<lparr>charged := charged p + ch, p_lru := l\<rparr>) sh
      in sh1\<lparr>clock := i,
             learned := learned sh + (if is_learned (s_scope s) then 1 else 0),
             failures := failures sh + (if s_failure s \<noteq> None then 1 else 0),
             cells := (cells sh)(i := \<lparr>refreshed = s_refreshed s, hits = 0,
                         accessed = (case s_accessed s of None \<Rightarrow> i | Some a \<Rightarrow> a)\<rparr>),
             buckets := fmupd key (bucket_of key sh @ [e]) (buckets sh)\<rparr>)"

definition place ::
  "('n, 'w, 'd, 'l, 's) cache_env \<Rightarrow> cache_config \<Rightarrow> 'n key \<Rightarrow> 'w stored \<Rightarrow> instant \<Rightarrow> bool \<Rightarrow>
   cache_stats \<times> ('n, 'w, 'l, 's) shard \<Rightarrow> (store_decision \<times> cache_stats \<times> ('n, 'w, 'l, 's) shard) option" where
  "place E cfg key s now superseded st = (case st of (g, sh) \<Rightarrow>
     (let ch = charge (e_dns E) (e_overhead E) (s_wire s) key; neg = s_negative s in
      if max_bytes (part neg sh) < ch \<or> max_entries (part neg sh) = 0
      then Some (rejected Capacity superseded, g, reject sh)
      else case make_variant_room E (c_max_variants cfg) key neg now (g, sh) of
        None \<Rightarrow> None
      | Some (False, st1) \<Rightarrow> Some (rejected VariantLimit superseded, st1)
      | Some (True, st1) \<Rightarrow>
          (case make_room E neg ch now (Suc (lru_len (e_lru E) (p_lru (part neg (snd st1))))) st1 of
             None \<Rightarrow> None
           | Some (False, st2) \<Rightarrow> Some (rejected Capacity superseded, st2)
           | Some (True, g2, sh2) \<Rightarrow>
               Some (\<lparr>outcome = (if superseded then Replaced else Admitted), reason = None\<rparr>,
                     g2, publish E key s ch now sh2))))"

subsection \<open>Admission\<close>

record restore =
  remaining :: nat
  re_accessed :: nat

datatype origin = OAnswer | ORefresh | ORestore restore

definition origin_restore :: "origin \<Rightarrow> restore option" where
  "origin_restore org = (case org of ORestore r \<Rightarrow> Some r | _ \<Rightarrow> None)"

text \<open>The encoded answer with its lifetime in seconds, prepared outside the lock.\<close>

definition prepared ::
  "('n, 'w, 'd, 'l, 's) cache_env \<Rightarrow> 'n question \<Rightarrow> 'n message \<Rightarrow> policy \<Rightarrow> origin \<Rightarrow> decision_reason + ('w \<times> nat \<times> bool)" where
  "prepared E q response pol org = (case prepare_response (e_dns E) q response pol of
     Inl e \<Rightarrow> Inl e
   | Inr (msg, lifetime, neg) \<Rightarrow>
       (let lifetime = (case origin_restore org of None \<Rightarrow> lifetime | Some r \<Rightarrow> min lifetime (remaining r)) in
        if lifetime = 0 then Inl TtlZero
        else case to_vec (e_dns E) msg of
               None \<Rightarrow> Inl UncacheableResponse
             | Some w \<Rightarrow> Inr (w, lifetime, neg)))"

text \<open>The checks before the lock.\<close>

definition admit_refusal :: "'n message \<Rightarrow> decision_reason option" where
  "admit_refusal response =
     (if \<not> superseding_edns response then Some UnsupportedEdns
      else if truncation response \<or> signature response \<noteq> None \<or> response_code response \<notin> {NoError, NXDomain}
      then Some UncacheableResponse else None)"

definition overlapping ::
  "('n, 'w, 'd, 'l, 's) cache_env \<Rightarrow> 'n key \<Rightarrow> scope \<Rightarrow> ('n, 'w, 'l, 's) shard \<Rightarrow> ('n, 'w) entry list" where
  "overlapping E key sc sh = filter (\<lambda>e. scopes_overlap (e_net E) (e_scope e) sc) (bucket_of key sh)"

text \<open>Whether a restored record has to give way.\<close>

definition restore_full ::
  "('n, 'w, 'd, 'l, 's) cache_env \<Rightarrow> cache_config \<Rightarrow> 'n key \<Rightarrow> scope \<Rightarrow> 'w \<Rightarrow> bool \<Rightarrow> ('n, 'w, 'l, 's) shard \<Rightarrow> bool" where
  "restore_full E cfg key sc w neg sh =
     (let p = part neg sh in
      max_entries p \<le> lru_len (e_lru E) (p_lru p) \<or>
      max_bytes p < saturating_add (charged p) (charge (e_dns E) (e_overhead E) w key) \<or>
      (case fmlookup (buckets sh) key of
         None \<Rightarrow> False
       | Some es \<Rightarrow> c_max_variants cfg \<le> length es \<or> list_ex (\<lambda>e. scopes_overlap (e_net E) (e_scope e) sc) es))"

text \<open>The part of \<open>Cache::admit\<close> under the shard lock, after the epoch check.\<close>

definition admit_locked ::
  "('n, 'w, 'd, 'l, 's) cache_env \<Rightarrow> cache_config \<Rightarrow> 'n key \<Rightarrow> policy \<Rightarrow> decision_reason + ('w \<times> nat \<times> bool) \<Rightarrow>
   fingerprint option \<Rightarrow> scope \<Rightarrow> instant \<Rightarrow> origin \<Rightarrow> cache_stats \<times> ('n, 'w, 'l, 's) shard \<Rightarrow>
   (store_decision \<times> cache_stats \<times> ('n, 'w, 'l, 's) shard) option" where
  "admit_locked E cfg key pol prep fp sc now org st =
     (let (g, sh) = prune E key now st;
          restoring = (origin_restore org \<noteq> None);
          learning = (sharing_enabled (c_sharing cfg) \<and> \<not> restoring);
          lifetime = (case prep of Inl _ \<Rightarrow> None | Inr (_, l, _) \<Rightarrow> Some (from_secs l))
      in case (if learning then observe (e_net E) (e_cls E) (sharing sh) key sc fp lifetime now (c_sharing cfg)
               else Some (\<lparr>ob_scope = sc, ob_revoked = False\<rparr>, sharing sh)) of
        None \<Rightarrow> None
      | Some (ob, tb) \<Rightarrow>
          (let sh1 = sh\<lparr>sharing := tb, counts := (counts sh)\<lparr>n_revocations := n_revocations (counts sh) + (if ob_revoked ob then 1 else 0)\<rparr>\<rparr>;
               sc = ob_scope ob
           in if restoring \<and> (case prep of Inl _ \<Rightarrow> True | Inr (w, _, neg) \<Rightarrow> restore_full E cfg key sc w neg sh1)
              then Some (skipped (case prep of Inl r \<Rightarrow> r | Inr _ \<Rightarrow> Capacity), g, sh1)
              else
                (let replaced = map (\<lambda>e. (e_negative e, e_id e)) (overlapping E key sc sh1);
                     superseded = (replaced \<noteq> []);
                     st2 = remove_all E replaced (g, sh1)
                 in case prep of
                      Inl r \<Rightarrow> Some (rejected r superseded, st2)
                    | Inr (w, l, neg) \<Rightarrow>
                        (let lifetime = from_secs l;
                             retention = (if p_stale pol \<and> \<not> neg then lifetime + from_secs (retention_secs (c_stale cfg)) else lifetime)
                         in place E cfg key
                              \<lparr>s_wire = w, s_scope = sc, s_lifetime = lifetime, s_retention = retention, s_negative = neg,
                               s_failure = None, s_prefetch = p_prefetch pol, s_refreshed = (org = ORefresh),
                               s_accessed = map_option re_accessed (origin_restore org)\<rparr> now superseded st2))))"

definition shard_index :: "('n, 'w, 'd, 'l, 's) cache_env \<Rightarrow> ('n, 'w, 'l, 's) cache \<Rightarrow> 'n key \<Rightarrow> nat" where
  "shard_index E c key = e_hash E key mod length (shards c)"

text \<open>Runs a step on the shard of a key.\<close>

definition with_shard ::
  "('n, 'w, 'd, 'l, 's) cache_env \<Rightarrow> 'n key \<Rightarrow>
   (cache_stats \<times> ('n, 'w, 'l, 's) shard \<Rightarrow> ('a \<times> cache_stats \<times> ('n, 'w, 'l, 's) shard) option) \<Rightarrow>
   ('n, 'w, 'l, 's) cache \<Rightarrow> ('a \<times> ('n, 'w, 'l, 's) cache) option" where
  "with_shard E key f c =
     (let i = shard_index E c key in
      if length (shards c) = 0 then None else
      case f (stats c, shards c ! i) of
        None \<Rightarrow> None
      | Some (a, g, sh) \<Rightarrow> Some (a, c\<lparr>stats := g, shards := (shards c)[i := sh]\<rparr>))"

definition admit ::
  "('n, 'w, 'd, 'l, 's) cache_env \<Rightarrow> ('n, 'w, 'l, 's) cache \<Rightarrow> 'n message \<Rightarrow> 'n message \<Rightarrow> scope \<Rightarrow> instant \<Rightarrow> nat \<Rightarrow> origin \<Rightarrow>
   (store_decision \<times> ('n, 'w, 'l, 's) cache) option" where
  "admit E c query response sc now ep org = (case key_of (e_dns E) query of
     None \<Rightarrow> None
   | Some None \<Rightarrow> Some (skipped (query_rejection query), c)
   | Some (Some key) \<Rightarrow>
       (let q = hd (queries query); pol = policy_for (e_dns E) (config c) (rules c) key (q_name q) in
        if bypass pol then Some (skipped PolicyDisabled, c)
        else case admit_refusal response of
          Some r \<Rightarrow> Some (skipped r, c)
        | None \<Rightarrow>
            (let prep = prepared E q response pol org;
                 learning = (sharing_enabled (c_sharing (config c)) \<and> origin_restore org = None);
                 fp = (if learning \<and> (case sc of ExactSource _ \<Rightarrow> True | _ \<Rightarrow> False)
                       then fingerprint (e_dns E) (e_enc E) q response else None)
             in with_shard E key (\<lambda>(g, sh).
                  if ep \<noteq> epoch c
                  then Some (skipped EpochChanged, g, if origin_restore org = None then reject sh else sh)
                  else admit_locked E (config c) key pol prep fp sc now org (g, sh)) c)))"

subsection \<open>Failures\<close>

definition failure_message :: "('n, 'w) dns_ops \<Rightarrow> 'n message \<Rightarrow> 'n message \<Rightarrow> 'n message" where
  "failure_message D query response =
     (let m = error_response D query ServFail; errs = extended_errors response in
      if errs = [] then m
      else (let e = (case edns m of Some e \<Rightarrow> e | None \<Rightarrow> (edns_new D)\<lparr>max_payload := MAX_UDP_PAYLOAD\<rparr>)
            in m\<lparr>edns := Some (insert_all D errs e)\<rparr>))"

definition failure_locked ::
  "('n, 'w, 'd, 'l, 's) cache_env \<Rightarrow> cache_config \<Rightarrow> 'n key \<Rightarrow> 'w \<Rightarrow> nat \<Rightarrow> scope \<Rightarrow> instant \<Rightarrow> failure \<Rightarrow>
   cache_stats \<times> ('n, 'w, 'l, 's) shard \<Rightarrow> (store_decision \<times> cache_stats \<times> ('n, 'w, 'l, 's) shard) option" where
  "failure_locked E cfg key w lifetime sc now f st =
     (let (g, sh) = prune E key now st; over = overlapping E key sc sh in
      if list_ex (\<lambda>e. e_failure e = None \<and> age_of now e < e_lifetime e) over
      then Some (skipped UncacheableResponse, g, sh)
      else
        (let replaced = map e_id (filter (\<lambda>e. e_failure e \<noteq> None) over);
             superseded = (replaced \<noteq> []);
             st1 = remove_all E (map (\<lambda>i. (True, i)) replaced) (g, sh)
         in place E cfg key
              \<lparr>s_wire = w, s_scope = sc, s_lifetime = from_secs lifetime, s_retention = from_secs lifetime, s_negative = True,
               s_failure = Some f, s_prefetch = False, s_refreshed = False, s_accessed = None\<rparr> now superseded st1))"

definition admit_failure ::
  "('n, 'w, 'd, 'l, 's) cache_env \<Rightarrow> ('n, 'w, 'l, 's) cache \<Rightarrow> 'n message \<Rightarrow> 'n message \<Rightarrow> scope \<Rightarrow> instant \<Rightarrow> nat \<Rightarrow> failure \<Rightarrow>
   (store_decision \<times> ('n, 'w, 'l, 's) cache) option" where
  "admit_failure E c query response sc now ep f = (case key_of (e_dns E) query of
     None \<Rightarrow> None
   | Some None \<Rightarrow> Some (skipped (query_rejection query), c)
   | Some (Some key) \<Rightarrow>
       (let pol = policy_for (e_dns E) (config c) (rules c) key (q_name (hd (queries query)));
            lifetime = min (c_servfail_ttl_secs (config c)) (negative_ttl_cap_secs pol)
        in if bypass pol then Some (skipped PolicyDisabled, c)
           else if response_code response \<noteq> ServFail \<or> truncation response \<or> signature response \<noteq> None \<or>
                   \<not> superseding_edns response \<or> lifetime = 0
           then Some (skipped UncacheableResponse, c)
           else case to_vec (e_dns E) (failure_message (e_dns E) query response) of
             None \<Rightarrow> Some (skipped UncacheableResponse, c)
           | Some w \<Rightarrow>
               with_shard E key (\<lambda>(g, sh).
                 if ep \<noteq> epoch c then Some (skipped EpochChanged, g, reject sh)
                 else failure_locked E (config c) key w lifetime sc now f (g, sh)) c))"

subsection \<open>Lookup\<close>

record 'n hit =
  h_message :: "'n message"
  h_scope :: scope
  h_stale :: bool
  h_refresh :: bool
  h_authentic :: bool
  h_failure :: "failure option"

record 'n lookup_result =
  l_hit :: "'n hit option"
  l_decision :: lookup_decision

definition lookup_empty :: "lookup_outcome \<Rightarrow> decision_reason option \<Rightarrow> 'n lookup_result" where
  "lookup_empty oc r = \<lparr>l_hit = None, l_decision = \<lparr>lookup_outcome = oc, lookup_reason = r\<rparr>\<rparr>"

definition bypassed :: "bool \<Rightarrow> bool \<Rightarrow> ('n, 'w, 'l, 's) cache \<Rightarrow> ('n, 'w, 'l, 's) cache" where
  "bypassed obs allow_stale c =
     (if obs \<and> \<not> allow_stale then c\<lparr>stats := (stats c)\<lparr>bypasses := bypasses (stats c) + 1\<rparr>\<rparr> else c)"

text \<open>The selected entry, touched and counted when the lookup is observed.\<close>

definition observe_hit ::
  "('n, 'w, 'd, 'l, 's) cache_env \<Rightarrow> bool \<Rightarrow> nat \<Rightarrow> instant \<Rightarrow> cache_stats \<times> ('n, 'w, 'l, 's) shard \<Rightarrow>
   (('n, 'w) entry \<times> cache_stats \<times> ('n, 'w, 'l, 's) shard) option" where
  "observe_hit E neg i now st = (case st of (g, sh) \<Rightarrow>
     (case lru_get (e_lru E) i (p_lru (part neg sh)) of
        None \<Rightarrow> None
      | Some (e, l) \<Rightarrow>
          (let ck = clock sh + 1;
               sh1 = (set_part neg ((part neg sh)\<lparr>p_lru := l\<rparr>) sh)\<lparr>clock := ck,
                       cells := (cells sh)(i := (cells sh i)\<lparr>accessed := ck\<rparr>)\<rparr>;
               fresh = (age_of now e < e_lifetime e);
               (r, sh2) = settle_refresh i sh1;
               g' = (if \<not> r then g else if fresh then g\<lparr>refresh_useful := refresh_useful g + 1\<rparr>
                     else g\<lparr>refresh_unused := refresh_unused g + 1\<rparr>);
               n = counts sh2;
               n = (if fresh then n\<lparr>n_hits := n_hits n + 1\<rparr> else n\<lparr>n_stale_hits := n_stale_hits n + 1\<rparr>);
               n = n\<lparr>n_shared_hits := n_shared_hits n + (if is_learned (e_scope e) then 1 else 0),
                     n_failure_hits := n_failure_hits n + (if e_failure e \<noteq> None then 1 else 0)\<rparr>
           in Some (e, g', sh2\<lparr>counts := n\<rparr>))))"

text \<open>The locked part of a lookup: the entry it selects is held by the reader.\<close>

definition lookup_locked ::
  "('n, 'w, 'd, 'l, 's) cache_env \<Rightarrow> 'n key \<Rightarrow> client_subnet option \<Rightarrow> instant \<Rightarrow> bool \<Rightarrow> bool \<Rightarrow>
   cache_stats \<times> ('n, 'w, 'l, 's) shard \<Rightarrow> (('n, 'w) entry option \<times> cache_stats \<times> ('n, 'w, 'l, 's) shard) option" where
  "lookup_locked E key out now allow_stale obs st = (case st of (g, sh) \<Rightarrow>
     (case select E sh key out now allow_stale of
        None \<Rightarrow>
          (if obs then
             (let (g', sh') = prune E key now (g, sh);
                  sh'' = (if allow_stale then sh' else sh'\<lparr>counts := (counts sh')\<lparr>n_misses := n_misses (counts sh') + 1\<rparr>\<rparr>)
              in Some (None, g', sh''))
           else Some (None, g, sh))
      | Some (neg, i) \<Rightarrow>
          (if obs then
             (case observe_hit E neg i now (g, sh) of
                None \<Rightarrow> None
              | Some (e, g', sh') \<Rightarrow> Some (Some e, g', sh'\<lparr>held := e # held sh'\<rparr>))
           else
             (case lru_peek (e_lru E) i (p_lru (part neg sh)) of
                None \<Rightarrow> None
              | Some e \<Rightarrow> Some (Some e, g, sh\<lparr>held := e # held sh\<rparr>)))))"

text \<open>The part of a lookup before the entry is decoded: an early result, or the held entry.\<close>

definition lookup_begin ::
  "('n, 'w, 'd, 'l, 's) cache_env \<Rightarrow> ('n, 'w, 'l, 's) cache \<Rightarrow> 'n message \<Rightarrow> client_subnet option \<Rightarrow> instant \<Rightarrow> bool \<Rightarrow> bool \<Rightarrow>
   (('n lookup_result + ('n, 'w) entry) \<times> ('n, 'w, 'l, 's) cache) option" where
  "lookup_begin E c query out now allow_stale obs = (case key_of (e_dns E) query of
     None \<Rightarrow> None
   | Some None \<Rightarrow> Some (Inl (lookup_empty LBypass (Some (query_rejection query))), bypassed obs allow_stale c)
   | Some (Some key) \<Rightarrow>
       if bypass (policy_for (e_dns E) (config c) (rules c) key (q_name (hd (queries query))))
       then Some (Inl (lookup_empty (if c_enabled (config c) then LBypass else LDisabled) (Some PolicyDisabled)),
                  bypassed obs allow_stale c)
       else map_option (\<lambda>(r, c'). (case r of None \<Rightarrow> Inl (lookup_empty LMiss None) | Some e \<Rightarrow> Inr e, c'))
              (with_shard E key (lookup_locked E key out now allow_stale obs) c))"

definition age_record :: "cache_config \<Rightarrow> bool \<Rightarrow> nat \<Rightarrow> 'n rr \<Rightarrow> 'n rr" where
  "age_record cfg stale elapsed r = r\<lparr>ttl := (if stale then reply_ttl_secs (c_stale cfg) else ttl r - elapsed)\<rparr>"

text \<open>The reply built from a stored message.\<close>

definition replay ::
  "('n, 'w) dns_ops \<Rightarrow> cache_config \<Rightarrow> 'n message \<Rightarrow> ('n, 'w) entry \<Rightarrow> instant \<Rightarrow> 'n message \<Rightarrow> 'n message" where
  "replay D cfg query e now m =
     (let age = age_of now e; stale = (e_lifetime e \<le> age); elapsed = min (as_secs age) u32_max;
          f = map (age_record cfg stale elapsed);
          m1 = m\<lparr>answers := f (answers m), authorities := f (authorities m), additionals := f (additionals m),
                 id := id query, authentic_data := False, queries := queries query\<rparr>
      in case reply_edns D query of
           None \<Rightarrow> m1
         | Some re \<Rightarrow> m1\<lparr>edns := Some (if e_failure e \<noteq> None then insert_all D (extended_errors m) re else re)\<rparr>)"

definition refresh_due :: "cache_config \<Rightarrow> ('n, 'w) entry \<Rightarrow> duration \<Rightarrow> nat \<Rightarrow> bool" where
  "refresh_due cfg e age nhits \<longleftrightarrow> \<not> e_lifetime e \<le> age \<and> \<not> e_negative e \<and> e_prefetch e \<and>
     min_hits (c_prefetch cfg) \<le> nhits \<and>
     as_millis (e_lifetime e - age) * 100 \<le> as_millis (e_lifetime e) * remaining_percent (c_prefetch cfg)"

definition lookup_reply ::
  "('n, 'w, 'd, 'l, 's) cache_env \<Rightarrow> cache_config \<Rightarrow> 'n message \<Rightarrow> ('n, 'w) entry \<Rightarrow> instant \<Rightarrow> nat \<Rightarrow> 'n lookup_result" where
  "lookup_reply E cfg query e now nhits =
     (let age = age_of now e; stale = (e_lifetime e \<le> age) in
      case decode (e_dns E) (e_dec E) (e_wire e) of
        None \<Rightarrow> lookup_empty LBypass (Some UncacheableResponse)
      | Some m \<Rightarrow>
          \<lparr>l_hit = Some \<lparr>h_message = replay (e_dns E) cfg query e now m, h_scope = e_scope e, h_stale = stale,
                         h_refresh = refresh_due cfg e age nhits, h_authentic = (authentic_data m \<and> \<not> stale),
                         h_failure = e_failure e\<rparr>,
           l_decision = \<lparr>lookup_outcome = (if stale then LStale else LFresh), lookup_reason = None\<rparr>\<rparr>)"

text \<open>A reader lets go of an entry.\<close>

definition release :: "('n, 'w, 'd, 'l, 's) cache_env \<Rightarrow> ('n, 'w) entry \<Rightarrow> ('n, 'w, 'l, 's) shard \<Rightarrow> ('n, 'w, 'l, 's) shard" where
  "release E e sh =
     (let sh1 = sh\<lparr>held := remove1 e (held sh)\<rparr> in
      if e \<in> set (held sh1) \<or> lru_peek (e_lru E) (e_id e) (p_lru (part (e_negative e) sh1)) = Some e then sh1
      else entry_drop e sh1)"

definition lookup_end ::
  "('n, 'w, 'd, 'l, 's) cache_env \<Rightarrow> ('n, 'w, 'l, 's) cache \<Rightarrow> 'n message \<Rightarrow> ('n, 'w) entry \<Rightarrow> instant \<Rightarrow> bool \<Rightarrow>
   ('n lookup_result \<times> ('n, 'w, 'l, 's) cache) option" where
  "lookup_end E c query e now obs =
     with_shard E (e_key e) (\<lambda>(g, sh).
       (let cell = cells sh (e_id e); nhits = (if obs then hits cell + 1 else hits cell);
            sh1 = (if obs then sh\<lparr>cells := (cells sh)(e_id e := cell\<lparr>hits := nhits\<rparr>)\<rparr> else sh)
        in Some (lookup_reply E (config c) query e now nhits, g, release E e sh1))) c"

definition lookup_inner ::
  "('n, 'w, 'd, 'l, 's) cache_env \<Rightarrow> ('n, 'w, 'l, 's) cache \<Rightarrow> 'n message \<Rightarrow> client_subnet option \<Rightarrow> instant \<Rightarrow> bool \<Rightarrow> bool \<Rightarrow>
   ('n lookup_result \<times> ('n, 'w, 'l, 's) cache) option" where
  "lookup_inner E c query out now allow_stale obs = (case lookup_begin E c query out now allow_stale obs of
     None \<Rightarrow> None
   | Some (Inl r, c') \<Rightarrow> Some (r, c')
   | Some (Inr e, c') \<Rightarrow> lookup_end E c' query e now obs)"

definition lookup_with_decision ::
  "('n, 'w, 'd, 'l, 's) cache_env \<Rightarrow> ('n, 'w, 'l, 's) cache \<Rightarrow> 'n message \<Rightarrow> client_subnet option \<Rightarrow> instant \<Rightarrow> bool \<Rightarrow>
   ('n lookup_result \<times> ('n, 'w, 'l, 's) cache) option" where
  "lookup_with_decision E c query out now allow_stale =
     map_option (\<lambda>(r, c'). (r, c'\<lparr>diag := diagnostics_lookup (diag c') (l_decision r)\<rparr>))
       (lookup_inner E c query out now allow_stale True)"

definition peek ::
  "('n, 'w, 'd, 'l, 's) cache_env \<Rightarrow> ('n, 'w, 'l, 's) cache \<Rightarrow> 'n message \<Rightarrow> client_subnet option \<Rightarrow> instant \<Rightarrow> bool \<Rightarrow>
   ('n hit option \<times> ('n, 'w, 'l, 's) cache) option" where
  "peek E c query out now allow_stale =
     map_option (\<lambda>(r, c'). (l_hit r, c')) (lookup_inner E c query out now allow_stale False)"

subsection \<open>Stores and invalidation\<close>

definition count_store ::
  "(store_decision \<times> ('n, 'w, 'l, 's) cache) option \<Rightarrow> (store_decision \<times> ('n, 'w, 'l, 's) cache) option" where
  "count_store r = map_option (\<lambda>(d, c). (d, c\<lparr>diag := diagnostics_store (diag c) d\<rparr>)) r"

definition insert_decision_if_epoch ::
  "('n, 'w, 'd, 'l, 's) cache_env \<Rightarrow> ('n, 'w, 'l, 's) cache \<Rightarrow> 'n message \<Rightarrow> 'n message \<Rightarrow> scope \<Rightarrow> instant \<Rightarrow> nat \<Rightarrow>
   (store_decision \<times> ('n, 'w, 'l, 's) cache) option" where
  "insert_decision_if_epoch E c query response sc now ep = count_store (admit E c query response sc now ep OAnswer)"

definition insert_refresh_if_epoch ::
  "('n, 'w, 'd, 'l, 's) cache_env \<Rightarrow> ('n, 'w, 'l, 's) cache \<Rightarrow> 'n message \<Rightarrow> 'n message \<Rightarrow> scope \<Rightarrow> instant \<Rightarrow> nat \<Rightarrow>
   (store_decision \<times> ('n, 'w, 'l, 's) cache) option" where
  "insert_refresh_if_epoch E c query response sc now ep = count_store (admit E c query response sc now ep ORefresh)"

definition insert_failure_if_epoch ::
  "('n, 'w, 'd, 'l, 's) cache_env \<Rightarrow> ('n, 'w, 'l, 's) cache \<Rightarrow> 'n message \<Rightarrow> 'n message \<Rightarrow> scope \<Rightarrow> instant \<Rightarrow> nat \<Rightarrow> failure \<Rightarrow>
   (store_decision \<times> ('n, 'w, 'l, 's) cache) option" where
  "insert_failure_if_epoch E c query response sc now ep f = count_store (admit_failure E c query response sc now ep f)"

definition record_unusable_scope :: "('n, 'w, 'l, 's) cache \<Rightarrow> store_decision \<times> ('n, 'w, 'l, 's) cache" where
  "record_unusable_scope c = (let d = skipped EcsUnusable in (d, c\<lparr>diag := diagnostics_store (diag c) d\<rparr>))"

definition entry_matches :: "'n option \<Rightarrow> record_type option \<Rightarrow> scope option \<Rightarrow> ('n, 'w) entry \<Rightarrow> bool" where
  "entry_matches name kind sc e \<longleftrightarrow>
     (case name of None \<Rightarrow> True | Some n \<Rightarrow> k_name (e_key e) = n) \<and>
     (case kind of None \<Rightarrow> True | Some k \<Rightarrow> k_kind (e_key e) = k) \<and>
     (case sc of None \<Rightarrow> True | Some s \<Rightarrow> e_scope e = s \<or> learned_serves (e_scope e) s)"

definition invalidate_shard ::
  "('n, 'w, 'd, 'l, 's) cache_env \<Rightarrow> 'n option \<Rightarrow> record_type option \<Rightarrow> scope option \<Rightarrow>
   cache_stats \<times> ('n, 'w, 'l, 's) shard \<Rightarrow> nat \<times> cache_stats \<times> ('n, 'w, 'l, 's) shard" where
  "invalidate_shard E name kind sc st = (case st of (g, sh) \<Rightarrow>
     (let sel = (\<lambda>neg. map (\<lambda>p. (neg, fst p))
            (filter (\<lambda>p. entry_matches name kind sc (snd p)) (lru_iter (e_lru E) (p_lru (part neg sh)))));
          ms = sel False @ sel True;
          (g', sh') = remove_all E ms (g, sh)
      in (length ms, g', sh'\<lparr>sharing := invalidate_table (e_cls E) (sharing sh') name kind sc\<rparr>)))"

fun invalidate_shards ::
  "('n, 'w, 'd, 'l, 's) cache_env \<Rightarrow> 'n option \<Rightarrow> record_type option \<Rightarrow> scope option \<Rightarrow> cache_stats \<Rightarrow>
   ('n, 'w, 'l, 's) shard list \<Rightarrow> nat \<times> cache_stats \<times> ('n, 'w, 'l, 's) shard list" where
  "invalidate_shards E name kind sc g [] = (0, g, [])"
| "invalidate_shards E name kind sc g (sh # shs) =
     (let (n, g', sh') = invalidate_shard E name kind sc (g, sh);
          (m, g'', shs') = invalidate_shards E name kind sc g' shs
      in (n + m, g'', sh' # shs'))"

definition invalidate ::
  "('n, 'w, 'd, 'l, 's) cache_env \<Rightarrow> ('n, 'w, 'l, 's) cache \<Rightarrow> 'n option \<Rightarrow> record_type option \<Rightarrow> scope option \<Rightarrow>
   nat \<times> ('n, 'w, 'l, 's) cache" where
  "invalidate E c name kind sc =
     (let name = map_option (key_name (e_dns E)) name;
          (n, g, shs) = invalidate_shards E name kind sc (stats c) (shards c)
      in (n, c\<lparr>epoch := epoch c + 1, stats := g, shards := shs\<rparr>))"

subsection \<open>A new cache\<close>

definition negative_entries :: "cache_config \<Rightarrow> nat" where
  "negative_entries cfg = c_max_entries cfg * c_negative_percent cfg div 100"

definition negative_bytes :: "cache_config \<Rightarrow> nat" where
  "negative_bytes cfg = (if negative_entries cfg = 0 then 0 else c_max_bytes cfg * c_negative_percent cfg div 100)"

definition shard_count :: "cache_config \<Rightarrow> nat" where
  "shard_count cfg =
     (let pe = c_max_entries cfg - negative_entries cfg; pb = c_max_bytes cfg - negative_bytes cfg in
      max (min (min (min (min (c_shards cfg) (max pe 1))
            (if negative_entries cfg = 0 then usize_max else negative_entries cfg))
            (max (pb div 1024) 1))
            (if negative_entries cfg = 0 then usize_max else max (negative_bytes cfg div 1024) 1)) 1)"

definition portion :: "nat \<Rightarrow> nat \<Rightarrow> nat \<Rightarrow> nat" where
  "portion n amount i = amount div n + (if i < amount mod n then 1 else 0)"

definition shard_new :: "('n, 'w, 'd, 'l, 's) cache_env \<Rightarrow> cache_config \<Rightarrow> nat \<Rightarrow> ('n, 'w, 'l, 's) shard" where
  "shard_new E cfg i =
     (let n = shard_count cfg; ne = negative_entries cfg; nb = negative_bytes cfg in
      \<lparr>buckets = fmempty,
       positive = partition_new E (portion n (c_max_entries cfg - ne) i) (portion n (c_max_bytes cfg - nb) i),
       negative = partition_new E (portion n ne i) (portion n nb i),
       clock = 0,
       counts = \<lparr>n_hits = 0, n_stale_hits = 0, n_misses = 0, n_evictions = 0, n_rejections = 0, n_shared_hits = 0,
                 n_revocations = 0, n_failure_hits = 0\<rparr>,
       sharing = table_new (e_cls E) (capacity_for (c_max_entries cfg) n),
       learned = 0, failures = 0, cells = (\<lambda>_. \<lparr>refreshed = False, hits = 0, accessed = 0\<rparr>), held = []\<rparr>)"

definition cache_new :: "('n, 'w, 'd, 'l, 's) cache_env \<Rightarrow> cache_config \<Rightarrow> ('n, 'w, 'l, 's) cache option" where
  "cache_new E cfg = map_option (\<lambda>rs.
     \<lparr>config = cfg, shards = map (shard_new E cfg) [0..<shard_count cfg], rules = rs, epoch = 0,
      stats = \<lparr>bypasses = 0, refresh_useful = 0, refresh_unused = 0\<rparr>, diag = diagnostics_default\<rparr>)
     (compile_rules (e_dns E) cfg)"

subsection \<open>Inspection\<close>

definition sharing_counts :: "('n, 'w, 'l, 's) cache \<Rightarrow> nat \<times> nat \<times> nat" where
  "sharing_counts c = fold (\<lambda>sh (h, n, r).
     (h + n_shared_hits (counts sh), n + learned sh, r + n_revocations (counts sh))) (shards c) (0, 0, 0)"

definition snapshot_entries :: "('n, 'w, 'd, 'l, 's) cache_env \<Rightarrow> ('n, 'w, 'l, 's) cache \<Rightarrow> nat \<times> nat \<times> nat" where
  "snapshot_entries E c =
     (sum_list (map (\<lambda>sh. lru_len (e_lru E) (p_lru (positive sh))) (shards c)),
      sum_list (map (\<lambda>sh. lru_len (e_lru E) (p_lru (negative sh))) (shards c)),
      sum_list (map (\<lambda>sh. charged (positive sh) + charged (negative sh)) (shards c)))"

text \<open>The entry \<open>explain\<close> reports, with whether it is fresh; \<open>None\<close> for a panic.\<close>

definition explain_selected ::
  "('n, 'w, 'd, 'l, 's) cache_env \<Rightarrow> ('n, 'w, 'l, 's) shard \<Rightarrow> 'n key \<Rightarrow> client_subnet option \<Rightarrow> instant \<Rightarrow>
   (bool \<times> scope \<times> failure option) option option" where
  "explain_selected E sh key out now =
     (let fresh = select E sh key out now False;
          deref = (\<lambda>(neg, i). lru_peek (e_lru E) i (p_lru (part neg sh)))
      in case (case fresh of None \<Rightarrow> Some None | Some r \<Rightarrow> map_option e_failure (deref r)) of
           None \<Rightarrow> None
         | Some f \<Rightarrow>
             (case (case (fresh, f) of
                      (Some r, Some StaleFallback) \<Rightarrow> (case select E sh key out now True of None \<Rightarrow> Some r | Some r' \<Rightarrow> Some r')
                    | (Some r, _) \<Rightarrow> Some r
                    | (None, _) \<Rightarrow> select E sh key out now True) of
                None \<Rightarrow> Some None
              | Some r \<Rightarrow> map_option (\<lambda>e. Some (age_of now e < e_lifetime e, e_scope e, e_failure e)) (deref r)))"

end
