(* ===== verification/Cache_Inv.thy ===== *)
theory Cache_Inv
  imports Cache
begin

text \<open>
  The invariant of a cache shard and its preservation. \<open>inv_core\<close> states it on the abstract
  content of a shard (the set of live entries, the entries readers hold, the buckets, the
  counters and the budgets); \<open>shard_inv\<close> ties that content to the LRU lists. Every operation
  is shown to keep it and never to panic.
\<close>

subsection \<open>The abstract content of a shard\<close>

type_synonym ('n, 'w) entries = "('n, 'w) entry set"

text \<open>Two entries of one key that would answer the same client: both answers or both failures,
  with overlapping namespaces.\<close>

definition clash :: "net_ops \<Rightarrow> ('n, 'w) entry \<Rightarrow> ('n, 'w) entry \<Rightarrow> bool" where
  "clash N e e' \<longleftrightarrow> e \<noteq> e' \<and> e_key e = e_key e' \<and> (e_failure e = None \<longleftrightarrow> e_failure e' = None) \<and>
     scopes_overlap N (e_scope e) (e_scope e')"

definition inv_core ::
  "net_ops \<Rightarrow> nat \<Rightarrow> ('n, 'w) entries \<Rightarrow> ('n, 'w) entries \<Rightarrow> nat \<Rightarrow> ('n key \<Rightarrow> ('n, 'w) entry list) \<Rightarrow>
   nat \<Rightarrow> nat \<Rightarrow> (bool \<Rightarrow> nat) \<Rightarrow> (bool \<Rightarrow> nat) \<Rightarrow> (bool \<Rightarrow> nat) \<Rightarrow> bool" where
  "inv_core N maxv lv hl clk bucket nl nf ch me mb \<longleftrightarrow>
     finite lv \<and> finite hl \<and> inj_on e_id (lv \<union> hl) \<and> (\<forall>e \<in> lv \<union> hl. e_id e \<le> clk) \<and>
     (\<forall>k. distinct (bucket k) \<and> set (bucket k) = {e \<in> lv. e_key e = k} \<and> length (bucket k) \<le> maxv) \<and>
     nl = card {e \<in> lv. is_learned (e_scope e)} \<and> nf = card {e \<in> lv. e_failure e \<noteq> None} \<and>
     (\<forall>neg. card {e \<in> lv. e_negative e = neg} \<le> me neg) \<and>
     (\<forall>neg. ch neg = (\<Sum>e \<in> {e \<in> lv \<union> hl. e_negative e = neg}. e_charge e) \<and> ch neg \<le> mb neg) \<and>
     (\<forall>e \<in> lv. \<forall>e' \<in> lv. \<not> clash N e e') \<and>
     (\<forall>e \<in> lv. e_failure e \<noteq> None \<longrightarrow> e_negative e)"

lemma card_filter_Diff:
  assumes "finite S" and "x \<in> S"
  shows "card {e \<in> S - {x}. P e} = card {e \<in> S. P e} - (if P x then 1 else 0)"
proof -
  have "{e \<in> S - {x}. P e} = {e \<in> S. P e} - {x}" by auto
  then show ?thesis using assms by (simp add: card_Diff_singleton_if)
qed

lemma card_filter_insert:
  assumes "finite S" and "x \<notin> S"
  shows "card {e \<in> insert x S. P e} = card {e \<in> S. P e} + (if P x then 1 else 0)"
proof -
  have "{e \<in> insert x S. P e} = (if P x then insert x {e \<in> S. P e} else {e \<in> S. P e})" by auto
  then show ?thesis using assms by simp
qed

lemma coreD:
  assumes "inv_core N maxv lv hl clk bucket nl nf ch me mb"
  shows "finite lv" "finite hl" "inj_on e_id (lv \<union> hl)" "e \<in> lv \<union> hl \<Longrightarrow> e_id e \<le> clk"
    and "distinct (bucket k)" "set (bucket k) = {e \<in> lv. e_key e = k}" "length (bucket k) \<le> maxv"
    and "nl = card {e \<in> lv. is_learned (e_scope e)}" "nf = card {e \<in> lv. e_failure e \<noteq> None}"
    and "card {e \<in> lv. e_negative e = neg} \<le> me neg"
    and "ch neg = (\<Sum>e \<in> {e \<in> lv \<union> hl. e_negative e = neg}. e_charge e)" "ch neg \<le> mb neg"
    and "e \<in> lv \<Longrightarrow> e' \<in> lv \<Longrightarrow> \<not> clash N e e'"
    and "e \<in> lv \<Longrightarrow> e_failure e \<noteq> None \<Longrightarrow> e_negative e"
proof -
  have c: "finite lv" "finite hl" "inj_on e_id (lv \<union> hl)" "\<forall>e \<in> lv \<union> hl. e_id e \<le> clk"
    "\<forall>k. distinct (bucket k) \<and> set (bucket k) = {e \<in> lv. e_key e = k} \<and> length (bucket k) \<le> maxv"
    "nl = card {e \<in> lv. is_learned (e_scope e)}" "nf = card {e \<in> lv. e_failure e \<noteq> None}"
    "\<forall>neg. card {e \<in> lv. e_negative e = neg} \<le> me neg"
    "\<forall>neg. ch neg = (\<Sum>e \<in> {e \<in> lv \<union> hl. e_negative e = neg}. e_charge e) \<and> ch neg \<le> mb neg"
    "\<forall>e \<in> lv. \<forall>e' \<in> lv. \<not> clash N e e'"
    "\<forall>e \<in> lv. e_failure e \<noteq> None \<longrightarrow> e_negative e"
    using assms unfolding inv_core_def by - (elim conjE, assumption)+
  show "finite lv" "finite hl" "inj_on e_id (lv \<union> hl)" "nl = card {e \<in> lv. is_learned (e_scope e)}"
    "nf = card {e \<in> lv. e_failure e \<noteq> None}" by (fact c)+
  show "e \<in> lv \<union> hl \<Longrightarrow> e_id e \<le> clk" using c(4) by blast
  show "distinct (bucket k)" "set (bucket k) = {e \<in> lv. e_key e = k}" "length (bucket k) \<le> maxv" using c(5) by blast+
  show "card {e \<in> lv. e_negative e = neg} \<le> me neg" using c(8) by blast
  show "ch neg = (\<Sum>e \<in> {e \<in> lv \<union> hl. e_negative e = neg}. e_charge e)" "ch neg \<le> mb neg" using c(9) by blast+
  show "e \<in> lv \<Longrightarrow> e' \<in> lv \<Longrightarrow> \<not> clash N e e'" using c(10) by blast
  show "e \<in> lv \<Longrightarrow> e_failure e \<noteq> None \<Longrightarrow> e_negative e" using c(11) by blast
qed

lemma core_remove:
  assumes "inv_core N maxv lv hl clk bucket nl nf ch me mb" and "e \<in> lv"
  shows "inv_core N maxv (lv - {e}) hl clk (\<lambda>k. filter (\<lambda>x. e_id x \<noteq> e_id e) (bucket k))
    (nl - (if is_learned (e_scope e) then 1 else 0)) (nf - (if e_failure e \<noteq> None then 1 else 0))
    (if e \<in> hl then ch else ch(e_negative e := ch (e_negative e) - e_charge e)) me mb"
proof -
  note C = coreD[OF assms(1)]
  have bucket: "distinct (filter (\<lambda>x. e_id x \<noteq> e_id e) (bucket k)) \<and>
      set (filter (\<lambda>x. e_id x \<noteq> e_id e) (bucket k)) = {x \<in> lv - {e}. e_key x = k} \<and>
      length (filter (\<lambda>x. e_id x \<noteq> e_id e) (bucket k)) \<le> maxv" for k
  proof -
    have "e_id x \<noteq> e_id e \<longleftrightarrow> x \<noteq> e" if "x \<in> lv" for x using C(3) assms(2) that by (auto dest: inj_onD)
    with C(5,6) order_trans[OF length_filter_le C(7)] show ?thesis by auto
  qed
  have cards: "card {x \<in> lv - {e}. P x} \<le> card {x \<in> lv. P x}" for P
    using C(1) by (intro card_mono) auto
  have chd: "(if e \<in> hl then ch else ch(e_negative e := ch (e_negative e) - e_charge e)) neg =
      (\<Sum>x \<in> {x \<in> lv - {e} \<union> hl. e_negative x = neg}. e_charge x)" for neg
  proof (cases "e \<in> hl \<or> e_negative e \<noteq> neg")
    case True
    then have "{x \<in> lv - {e} \<union> hl. e_negative x = neg} = {x \<in> lv \<union> hl. e_negative x = neg}" by auto
    with True C(11) show ?thesis by auto
  next
    case False
    then have "{x \<in> lv - {e} \<union> hl. e_negative x = neg} = {x \<in> lv \<union> hl. e_negative x = neg} - {e}" by auto
    with False C(1,2,11) assms(2) show ?thesis by (simp add: sum_diff1_nat)
  qed
  have chle: "(if e \<in> hl then ch else ch(e_negative e := ch (e_negative e) - e_charge e)) neg \<le> mb neg" for neg
    using C(12)[of neg] by auto
  show ?thesis
    unfolding inv_core_def card_filter_Diff[OF C(1) assms(2)]
  proof (intro conjI allI)
    show "inj_on e_id (lv - {e} \<union> hl)" using C(3) by (rule inj_on_subset) auto
    show "\<forall>x \<in> lv - {e} \<union> hl. e_id x \<le> clk" using C(4) by auto
    show "nl - (if is_learned (e_scope e) then 1 else 0) = card {x \<in> lv. is_learned (e_scope x)} - (if is_learned (e_scope e) then 1 else 0)"
      "nf - (if e_failure e \<noteq> None then 1 else 0) = card {x \<in> lv. e_failure x \<noteq> None} - (if e_failure e \<noteq> None then 1 else 0)"
      using C(8,9) by (simp_all only:)
    show "card {x \<in> lv. e_negative x = neg} - (if e_negative e = neg then 1 else 0) \<le> me neg" for neg
      using C(10)[of neg] by linarith
    show "\<forall>x \<in> lv - {e}. \<forall>e' \<in> lv - {e}. \<not> clash N x e'" using C(13) by blast
    show "\<forall>x \<in> lv - {e}. e_failure x \<noteq> None \<longrightarrow> e_negative x" using C(14) by blast
  qed (use C(1,2) bucket chd chle in \<open>simp_all only: finite_Diff\<close>)
qed

lemma core_add:
  assumes "inv_core N maxv lv hl clk bucket nl nf ch me mb" and "e_id e = clk + 1"
    and "length (bucket (e_key e)) < maxv" and "card {x \<in> lv. e_negative x = e_negative e} < me (e_negative e)"
    and "ch (e_negative e) + e_charge e \<le> mb (e_negative e)"
    and "\<forall>x \<in> lv. \<not> clash N x e \<and> \<not> clash N e x" and "e_failure e \<noteq> None \<Longrightarrow> e_negative e"
  shows "inv_core N maxv (insert e lv) hl (clk + 1) (bucket(e_key e := bucket (e_key e) @ [e]))
    (nl + (if is_learned (e_scope e) then 1 else 0)) (nf + (if e_failure e \<noteq> None then 1 else 0))
    (ch(e_negative e := ch (e_negative e) + e_charge e)) me mb"
proof -
  note C = coreD[OF assms(1)]
  have new: "e \<notin> lv" "e \<notin> hl" using C(4)[of e] assms(2) by auto
  have bucket: "distinct ((bucket(e_key e := bucket (e_key e) @ [e])) k) \<and>
      set ((bucket(e_key e := bucket (e_key e) @ [e])) k) = {x \<in> insert e lv. e_key x = k} \<and>
      length ((bucket(e_key e := bucket (e_key e) @ [e])) k) \<le> maxv" for k
    using C(5-7)[of k] assms(3) new by auto
  have chd: "(ch(e_negative e := ch (e_negative e) + e_charge e)) neg =
      (\<Sum>x \<in> {x \<in> insert e lv \<union> hl. e_negative x = neg}. e_charge x) \<and>
      (ch(e_negative e := ch (e_negative e) + e_charge e)) neg \<le> mb neg" for neg
  proof (cases "e_negative e = neg")
    case True
    then have "{x \<in> insert e lv \<union> hl. e_negative x = neg} = insert e {x \<in> lv \<union> hl. e_negative x = neg}" by auto
    with True new C(1,2,11) assms(5) show ?thesis by simp
  next
    case False
    then have "{x \<in> insert e lv \<union> hl. e_negative x = neg} = {x \<in> lv \<union> hl. e_negative x = neg}" by auto
    with False C(11,12) show ?thesis by simp
  qed
  show ?thesis
    unfolding inv_core_def card_filter_insert[OF C(1) new(1)]
  proof (intro conjI allI)
    have "e_id x \<noteq> e_id e" if "x \<in> lv \<union> hl" for x using C(4)[OF that] assms(2) by simp
    then have "e_id e \<notin> e_id ` (lv \<union> hl)" by (metis image_iff)
    with C(3) show "inj_on e_id (insert e lv \<union> hl)" by (simp add: inj_on_insert) blast
    show "\<forall>x \<in> insert e lv \<union> hl. e_id x \<le> clk + 1" using C(4) assms(2) le_SucI by fastforce
    show "card {x \<in> lv. e_negative x = neg} + (if e_negative e = neg then 1 else 0) \<le> me neg" for neg
      using C(10)[of neg] assms(4) by auto
    show "\<forall>x \<in> insert e lv. \<forall>e' \<in> insert e lv. \<not> clash N x e'" using C(13) assms(6) by (auto simp: clash_def)
    show "\<forall>x \<in> insert e lv. e_failure x \<noteq> None \<longrightarrow> e_negative x" using C(14) assms(7) by blast
    show "nl + (if is_learned (e_scope e) then 1 else 0) = card {x \<in> lv. is_learned (e_scope x)} + (if is_learned (e_scope e) then 1 else 0)"
      "nf + (if e_failure e \<noteq> None then 1 else 0) = card {x \<in> lv. e_failure x \<noteq> None} + (if e_failure e \<noteq> None then 1 else 0)"
      using C(8,9) by (simp_all only:)
    show "(ch(e_negative e := ch (e_negative e) + e_charge e)) neg =
      (\<Sum>x \<in> {x \<in> insert e lv \<union> hl. e_negative x = neg}. e_charge x)"
      "(ch(e_negative e := ch (e_negative e) + e_charge e)) neg \<le> mb neg" for neg
      using chd by blast+
  qed (use C(1,2) bucket in \<open>simp_all only: finite_insert\<close>)
qed

lemma core_clock: "inv_core N maxv lv hl clk bucket nl nf ch me mb \<Longrightarrow> clk \<le> clk' \<Longrightarrow>
  inv_core N maxv lv hl clk' bucket nl nf ch me mb"
  unfolding inv_core_def using order_trans by (elim conjE, intro conjI; blast)

lemma core_hold:
  assumes "inv_core N maxv lv hl clk bucket nl nf ch me mb" and "e \<in> lv"
  shows "inv_core N maxv lv (insert e hl) clk bucket nl nf ch me mb"
proof -
  have eq: "lv \<union> insert e hl = lv \<union> hl" using assms(2) by auto
  show ?thesis using assms(1) unfolding inv_core_def finite_insert eq .
qed

lemma core_release:
  assumes "inv_core N maxv lv hl clk bucket nl nf ch me mb" and "e \<in> hl"
  shows "inv_core N maxv lv (hl - {e}) clk bucket nl nf
    (if e \<in> lv then ch else ch(e_negative e := ch (e_negative e) - e_charge e)) me mb"
proof -
  note C = coreD[OF assms(1)]
  have chd: "(if e \<in> lv then ch else ch(e_negative e := ch (e_negative e) - e_charge e)) neg =
      (\<Sum>x \<in> {x \<in> lv \<union> (hl - {e}). e_negative x = neg}. e_charge x) \<and>
      (if e \<in> lv then ch else ch(e_negative e := ch (e_negative e) - e_charge e)) neg \<le> mb neg" for neg
  proof (cases "e \<in> lv \<or> e_negative e \<noteq> neg")
    case True
    then have "{x \<in> lv \<union> (hl - {e}). e_negative x = neg} = {x \<in> lv \<union> hl. e_negative x = neg}" by auto
    with True C(11,12) show ?thesis by auto
  next
    case False
    then have "{x \<in> lv \<union> (hl - {e}). e_negative x = neg} = {x \<in> lv \<union> hl. e_negative x = neg} - {e}" by auto
    with False C(1,2,11) C(12)[of neg] assms(2) show ?thesis by (simp add: sum_diff1_nat)
  qed
  show ?thesis
    unfolding inv_core_def
  proof (intro conjI allI)
    show "inj_on e_id (lv \<union> (hl - {e}))" using C(3) by (rule inj_on_subset) auto
    show "\<forall>x \<in> lv \<union> (hl - {e}). e_id x \<le> clk" using C(4) by auto
    show "\<forall>x \<in> lv. \<forall>e' \<in> lv. \<not> clash N x e'" using C(13) by blast
    show "\<forall>x \<in> lv. e_failure x \<noteq> None \<longrightarrow> e_negative x" using C(14) by blast
    show "(if e \<in> lv then ch else ch(e_negative e := ch (e_negative e) - e_charge e)) neg =
      (\<Sum>x \<in> {x \<in> lv \<union> (hl - {e}). e_negative x = neg}. e_charge x)"
      "(if e \<in> lv then ch else ch(e_negative e := ch (e_negative e) - e_charge e)) neg \<le> mb neg" for neg
      using chd by blast+
  qed (use C(1,2,5-10) in \<open>simp_all only: finite_Diff\<close>)
qed

subsection \<open>The content of the LRU lists\<close>

definition lru_list :: "('n, 'w, 'd, 'l, 's) cache_env \<Rightarrow> bool \<Rightarrow> ('n, 'w, 'l, 's) shard \<Rightarrow> (nat \<times> ('n, 'w) entry) list" where
  "lru_list E neg sh = lru_iter (e_lru E) (p_lru (part neg sh))"

definition live :: "('n, 'w, 'd, 'l, 's) cache_env \<Rightarrow> ('n, 'w, 'l, 's) shard \<Rightarrow> ('n, 'w) entries" where
  "live E sh = {e. \<exists>neg i. (i, e) \<in> set (lru_list E neg sh)}"

definition lru_wf :: "('n, 'w, 'd, 'l, 's) cache_env \<Rightarrow> ('n, 'w, 'l, 's) shard \<Rightarrow> bool" where
  "lru_wf E sh \<longleftrightarrow> (\<forall>neg i e. (i, e) \<in> set (lru_list E neg sh) \<longrightarrow> e_id e = i \<and> e_negative e = neg)"

definition shard_core :: "('n, 'w, 'd, 'l, 's) cache_env \<Rightarrow> nat \<Rightarrow> ('n, 'w) entries \<Rightarrow> ('n, 'w, 'l, 's) shard \<Rightarrow> bool" where
  "shard_core E maxv lv sh = inv_core (e_net E) maxv lv (set (held sh)) (clock sh) (\<lambda>k. bucket_of k sh)
     (learned sh) (failures sh) (\<lambda>neg. charged (part neg sh)) (\<lambda>neg. max_entries (part neg sh)) (\<lambda>neg. max_bytes (part neg sh))"

definition shard_inv :: "('n, 'w, 'd, 'l, 's) cache_env \<Rightarrow> nat \<Rightarrow> ('n, 'w, 'l, 's) shard \<Rightarrow> bool" where
  "shard_inv E maxv sh \<longleftrightarrow> lru_wf E sh \<and> (\<forall>k. fmlookup (buckets sh) k \<noteq> Some []) \<and>
     table_ok (e_cls E) (sharing sh) \<and> shard_core E maxv (live E sh) sh"

lemma part_set_part [simp]:
  "part n (set_part m p sh) = (if n = m then p else part n sh)"
  by (auto simp: part_def set_part_def)

lemma set_part_fields [simp]:
  "buckets (set_part n p sh) = buckets sh" "clock (set_part n p sh) = clock sh" "counts (set_part n p sh) = counts sh"
  "sharing (set_part n p sh) = sharing sh" "learned (set_part n p sh) = learned sh" "failures (set_part n p sh) = failures sh"
  "cells (set_part n p sh) = cells sh" "held (set_part n p sh) = held sh" "bucket_of k (set_part n p sh) = bucket_of k sh"
  by (auto simp: set_part_def bucket_of_def)

lemma part_updates [simp]:
  "part n (sh\<lparr>buckets := b\<rparr>) = part n sh" "part n (sh\<lparr>clock := c\<rparr>) = part n sh" "part n (sh\<lparr>counts := x\<rparr>) = part n sh"
  "part n (sh\<lparr>sharing := t\<rparr>) = part n sh" "part n (sh\<lparr>learned := l\<rparr>) = part n sh" "part n (sh\<lparr>failures := f\<rparr>) = part n sh"
  "part n (sh\<lparr>cells := cc\<rparr>) = part n sh" "part n (sh\<lparr>held := h\<rparr>) = part n sh"
  by (auto simp: part_def)

lemma bucket_of_updates [simp]:
  "bucket_of k (sh\<lparr>clock := c\<rparr>) = bucket_of k sh" "bucket_of k (sh\<lparr>counts := x\<rparr>) = bucket_of k sh"
  "bucket_of k (sh\<lparr>sharing := t\<rparr>) = bucket_of k sh" "bucket_of k (sh\<lparr>learned := l\<rparr>) = bucket_of k sh"
  "bucket_of k (sh\<lparr>failures := f\<rparr>) = bucket_of k sh" "bucket_of k (sh\<lparr>cells := cc\<rparr>) = bucket_of k sh"
  "bucket_of k (sh\<lparr>held := h\<rparr>) = bucket_of k sh"
  by (auto simp: bucket_of_def)

lemma lru_list_updates [simp]:
  "lru_list E n (sh\<lparr>buckets := b\<rparr>) = lru_list E n sh" "lru_list E n (sh\<lparr>clock := c\<rparr>) = lru_list E n sh"
  "lru_list E n (sh\<lparr>counts := x\<rparr>) = lru_list E n sh" "lru_list E n (sh\<lparr>sharing := t\<rparr>) = lru_list E n sh"
  "lru_list E n (sh\<lparr>learned := l\<rparr>) = lru_list E n sh" "lru_list E n (sh\<lparr>failures := f\<rparr>) = lru_list E n sh"
  "lru_list E n (sh\<lparr>cells := cc\<rparr>) = lru_list E n sh" "lru_list E n (sh\<lparr>held := h\<rparr>) = lru_list E n sh"
  "lru_list E n (set_part m p sh) = (if n = m then lru_iter (e_lru E) (p_lru p) else lru_list E n sh)"
  by (simp_all add: lru_list_def)

lemma live_cong: "(\<And>n. set (lru_list E n sh) = set (lru_list E n sh')) \<Longrightarrow> live E sh = live E sh'"
  by (simp add: live_def)

lemma lru_wf_cong: "(\<And>n. set (lru_list E n sh) = set (lru_list E n sh')) \<Longrightarrow> lru_wf E sh = lru_wf E sh'"
  by (simp add: lru_wf_def)

text \<open>Updates that touch nothing the invariant speaks about.\<close>

lemma shard_inv_frame:
  assumes "shard_inv E maxv sh" and "\<And>n. set (lru_list E n sh') = set (lru_list E n sh)"
    and "\<And>n. charged (part n sh') = charged (part n sh)" "\<And>n. max_entries (part n sh') = max_entries (part n sh)"
      "\<And>n. max_bytes (part n sh') = max_bytes (part n sh)"
    and "buckets sh' = buckets sh" "held sh' = held sh" "learned sh' = learned sh" "failures sh' = failures sh"
    and "clock sh \<le> clock sh'" and "table_ok (e_cls E) (sharing sh')"
  shows "shard_inv E maxv sh'"
proof -
  have b: "bucket_of k sh' = bucket_of k sh" for k using assms(6) by (simp add: bucket_of_def)
  have "shard_core E maxv (live E sh) sh" using assms(1) by (simp add: shard_inv_def)
  then have "shard_core E maxv (live E sh) sh'"
    unfolding shard_core_def assms(3-5,7-9) b by (rule core_clock) (rule assms(10))
  moreover have "live E sh' = live E sh" by (rule live_cong) (rule assms(2))
  moreover have "lru_wf E sh' = lru_wf E sh" by (rule lru_wf_cong) (rule assms(2))
  ultimately show ?thesis using assms(1,6,11) by (simp add: shard_inv_def)
qed

lemma shard_inv_cells [simp]: "shard_inv E maxv (sh\<lparr>cells := cc\<rparr>) = shard_inv E maxv sh"
  by (simp add: shard_inv_def shard_core_def live_def lru_wf_def)

lemma shard_inv_counts [simp]: "shard_inv E maxv (sh\<lparr>counts := cc\<rparr>) = shard_inv E maxv sh"
  by (simp add: shard_inv_def shard_core_def live_def lru_wf_def)

lemma shard_inv_reject [simp]: "shard_inv E maxv (reject sh) = shard_inv E maxv sh"
  by (simp add: reject_def)

locale cache_world =
  net: ip_network "e_net E" + dns: dns_library "e_dns E" + ents: lru_cache "e_lru E" + cls: class_table "e_cls E"
  for E :: "('n, 'w, 'd, 'l, 's) cache_env"
begin

lemma lru_distinct: "distinct (map fst (lru_list E neg sh))"
  unfolding lru_list_def by (rule ents.iter_distinct)

lemma live_iff:
  assumes "lru_wf E sh"
  shows "e \<in> live E sh \<longleftrightarrow> (e_id e, e) \<in> set (lru_list E (e_negative e) sh)"
  using assms unfolding live_def lru_wf_def by blast

lemma live_peek:
  assumes "lru_wf E sh"
  shows "e \<in> live E sh \<longleftrightarrow> lru_peek (e_lru E) (e_id e) (p_lru (part (e_negative e) sh)) = Some e"
  unfolding live_iff[OF assms] ents.peek_eq lru_list_def[symmetric]
  using lru_distinct by simp

lemma peek_live:
  assumes "lru_wf E sh" and "lru_peek (e_lru E) i (p_lru (part neg sh)) = Some e"
  shows "e \<in> live E sh" "e_id e = i" "e_negative e = neg"
proof -
  from assms(2) have "(i, e) \<in> set (lru_list E neg sh)" by (simp add: ents.peek_eq lru_list_def map_of_SomeD)
  with assms(1) show "e_id e = i" "e_negative e = neg" by (auto simp: lru_wf_def)
  with assms show "e \<in> live E sh" by (simp add: live_peek)
qed

lemma card_part:
  assumes "lru_wf E sh"
  shows "lru_len (e_lru E) (p_lru (part neg sh)) = card {e \<in> live E sh. e_negative e = neg}"
proof -
  have "{e \<in> live E sh. e_negative e = neg} = snd ` set (lru_list E neg sh)"
  proof (intro set_eqI)
    fix e
    have "(e_id e, e) \<in> set (lru_list E neg sh) \<longleftrightarrow> (\<exists>i. (i, e) \<in> set (lru_list E neg sh))"
      using assms unfolding lru_wf_def by blast
    also have "\<dots> \<longleftrightarrow> e \<in> snd ` set (lru_list E neg sh)" by (simp add: image_iff Bex_def)
    finally show "e \<in> {e \<in> live E sh. e_negative e = neg} \<longleftrightarrow> e \<in> snd ` set (lru_list E neg sh)"
      using live_iff[OF assms, of e] assms unfolding lru_wf_def by blast
  qed
  moreover have "inj_on snd (set (lru_list E neg sh))"
  proof (rule inj_onI)
    fix p q assume pq: "p \<in> set (lru_list E neg sh)" "q \<in> set (lru_list E neg sh)" "snd p = snd q"
    then have "fst p = e_id (snd p)" "fst q = e_id (snd q)"
      using assms unfolding lru_wf_def by (metis prod.collapse)+
    with pq(3) show "p = q" by (simp add: prod_eq_iff)
  qed
  moreover have "distinct (lru_list E neg sh)" using lru_distinct by (rule distinct_map[THEN iffD1, THEN conjunct1])
  ultimately show ?thesis
    by (simp add: ents.len_eq lru_list_def card_image distinct_card)
qed

end

end
