(* ===== verification/Cache_Ops.thy ===== *)
theory Cache_Ops
  imports Cache_Inv
begin

text \<open>
  The operations of a cache shard under its lock: each keeps the shard invariant, never
  panics, and its effect is stated on the set of live entries. The eviction loop of \<open>place\<close>
  is shown to end within the number of entries of its partition.
\<close>

subsection \<open>Removing entries\<close>

definition keeps :: "('n, 'w, 'l, 's) shard \<Rightarrow> ('n, 'w, 'l, 's) shard \<Rightarrow> bool" where
  "keeps sh sh' \<longleftrightarrow> held sh' = held sh \<and> clock sh' = clock sh \<and> sharing sh' = sharing sh \<and>
     (\<forall>n. max_entries (part n sh') = max_entries (part n sh) \<and> max_bytes (part n sh') = max_bytes (part n sh) \<and>
          charged (part n sh') \<le> charged (part n sh))"

lemma keeps_refl [simp]: "keeps sh sh"
  by (simp add: keeps_def)

lemma keeps_trans [trans]: "keeps a b \<Longrightarrow> keeps b c \<Longrightarrow> keeps a c"
  unfolding keeps_def by (auto intro: order_trans)

lemma unlink_fields [simp]:
  "part n (unlink e i sh) = part n sh" "held (unlink e i sh) = held sh" "clock (unlink e i sh) = clock sh"
  "sharing (unlink e i sh) = sharing sh" "learned (unlink e i sh) = learned sh" "failures (unlink e i sh) = failures sh"
  "cells (unlink e i sh) = cells sh" "counts (unlink e i sh) = counts sh"
  by (auto simp: unlink_def Let_def split: option.split)

lemma bucket_of_unlink:
  "bucket_of k (unlink e i sh) = (if k = e_key e then filter (\<lambda>x. e_id x \<noteq> i) (bucket_of k sh) else bucket_of k sh)"
  by (auto simp: unlink_def bucket_of_def Let_def split: option.split)

lemma unlink_nonempty: "\<forall>k. fmlookup (buckets sh) k \<noteq> Some [] \<Longrightarrow> fmlookup (buckets (unlink e i sh)) k \<noteq> Some []"
  by (auto simp: unlink_def Let_def split: option.split)

lemma entry_drop_fields [simp]:
  "part n (entry_drop e sh) = (if n = e_negative e then (part n sh)\<lparr>charged := charged (part n sh) - e_charge e\<rparr> else part n sh)"
  "buckets (entry_drop e sh) = buckets sh" "clock (entry_drop e sh) = clock sh" "counts (entry_drop e sh) = counts sh"
  "sharing (entry_drop e sh) = sharing sh" "learned (entry_drop e sh) = learned sh" "failures (entry_drop e sh) = failures sh"
  "cells (entry_drop e sh) = cells sh" "held (entry_drop e sh) = held sh" "bucket_of k (entry_drop e sh) = bucket_of k sh"
  by (simp_all add: entry_drop_def Let_def)

lemma settle_refresh_fields [simp]:
  "part n (snd (settle_refresh i sh)) = part n sh" "buckets (snd (settle_refresh i sh)) = buckets sh"
  "clock (snd (settle_refresh i sh)) = clock sh" "counts (snd (settle_refresh i sh)) = counts sh"
  "sharing (snd (settle_refresh i sh)) = sharing sh" "learned (snd (settle_refresh i sh)) = learned sh"
  "failures (snd (settle_refresh i sh)) = failures sh" "held (snd (settle_refresh i sh)) = held sh"
  "bucket_of k (snd (settle_refresh i sh)) = bucket_of k sh"
  by (simp_all add: settle_refresh_def Let_def)

text \<open>What \<open>remove\<close> does to the fields of a shard.\<close>

lemma remove_Some:
  assumes "lru_pop (e_lru E) i (p_lru (part neg sh)) = Some (e, l)" and "e_negative e = neg"
  obtains g' sh' where "remove E neg i (g, sh) = (g', sh')"
    and "\<And>n. part n sh' = (if n = neg then (part n sh)\<lparr>p_lru := l, charged := charged (part n sh) - (if e \<in> set (held sh) then 0 else e_charge e)\<rparr> else part n sh)"
    and "held sh' = held sh" "clock sh' = clock sh" "sharing sh' = sharing sh"
    and "learned sh' = learned sh - (if is_learned (e_scope e) then 1 else 0)"
    and "failures sh' = failures sh - (if e_failure e \<noteq> None then 1 else 0)"
    and "\<And>k. bucket_of k sh' = (if k = e_key e then filter (\<lambda>x. e_id x \<noteq> i) (bucket_of k sh) else bucket_of k sh)"
    and "(\<forall>k. fmlookup (buckets sh) k \<noteq> Some []) \<longrightarrow> (\<forall>k. fmlookup (buckets sh') k \<noteq> Some [])"
proof -
  define sh1 where "sh1 = set_part neg ((part neg sh)\<lparr>p_lru := l\<rparr>) sh"
  define sh2 where "sh2 = snd (settle_refresh i sh1)"
  define sh3 where "sh3 = sh2\<lparr>learned := learned sh2 - (if is_learned (e_scope e) then 1 else 0),
                          failures := failures sh2 - (if e_failure e \<noteq> None then 1 else 0)\<rparr>"
  define sh5 where "sh5 = (if e \<in> set (held (unlink e i sh3)) then unlink e i sh3 else entry_drop e (unlink e i sh3))"
  have f: "part n sh3 = (if n = neg then (part n sh)\<lparr>p_lru := l\<rparr> else part n sh)" "held sh3 = held sh" "clock sh3 = clock sh"
    "sharing sh3 = sharing sh" "buckets sh3 = buckets sh" "bucket_of k sh3 = bucket_of k sh"
    "learned sh3 = learned sh - (if is_learned (e_scope e) then 1 else 0)"
    "failures sh3 = failures sh - (if e_failure e \<noteq> None then 1 else 0)" for n k
    by (simp_all add: sh3_def sh2_def sh1_def)
  obtain r where "settle_refresh i sh1 = (r, sh2)" unfolding sh2_def by (metis prod.collapse)
  then have "remove E neg i (g, sh) = ((if r then g\<lparr>refresh_unused := refresh_unused g + 1\<rparr> else g), sh5)"
    unfolding remove_def sh5_def sh3_def sh1_def by (simp only: assms(1) Let_def prod.case option.case)
  then show ?thesis
    by (rule that) (use assms(2) unlink_nonempty[of sh3] f(5) in \<open>simp_all add: sh5_def f bucket_of_unlink\<close>)
qed

context cache_world
begin

lemma remove_live:
  assumes "shard_inv E maxv sh" and "e \<in> live E sh"
  obtains g' sh' where "remove E (e_negative e) (e_id e) (g, sh) = (g', sh')" and "shard_inv E maxv sh'"
    and "live E sh' = live E sh - {e}" and "keeps sh sh'"
proof -
  have wf: "lru_wf E sh" and core: "shard_core E maxv (live E sh) sh" and tab: "table_ok (e_cls E) (sharing sh)"
    and ne: "\<forall>k. fmlookup (buckets sh) k \<noteq> Some []"
    using assms(1) by (simp_all add: shard_inv_def)
  note C = coreD[OF core[unfolded shard_core_def]]
  from assms(2) have "map_of (lru_list E (e_negative e) sh) (e_id e) = Some e"
    unfolding live_iff[OF wf] using lru_distinct by simp
  from ents.pop_Some[OF this[unfolded lru_list_def]] obtain l where
    pop: "lru_pop (e_lru E) (e_id e) (p_lru (part (e_negative e) sh)) = Some (e, l)"
    and it: "lru_iter (e_lru E) l = del_key (e_id e) (lru_list E (e_negative e) sh)"
    by (auto simp: lru_list_def)
  obtain g' sh' where rm: "remove E (e_negative e) (e_id e) (g, sh) = (g', sh')"
    and parts: "\<And>n. part n sh' = (if n = e_negative e then (part n sh)\<lparr>p_lru := l, charged := charged (part n sh) - (if e \<in> set (held sh) then 0 else e_charge e)\<rparr> else part n sh)"
    and sames: "held sh' = held sh" "clock sh' = clock sh" "sharing sh' = sharing sh"
    and cnt: "learned sh' = learned sh - (if is_learned (e_scope e) then 1 else 0)"
      "failures sh' = failures sh - (if e_failure e \<noteq> None then 1 else 0)"
    and bk: "\<And>k. bucket_of k sh' = (if k = e_key e then filter (\<lambda>x. e_id x \<noteq> e_id e) (bucket_of k sh) else bucket_of k sh)"
    and ne': "(\<forall>k. fmlookup (buckets sh) k \<noteq> Some []) \<longrightarrow> (\<forall>k. fmlookup (buckets sh') k \<noteq> Some [])"
    by (rule remove_Some[OF pop refl, where g = g]) (rule that)
  have ll: "lru_list E n sh' = (if n = e_negative e then del_key (e_id e) (lru_list E n sh) else lru_list E n sh)" for n
    by (simp add: lru_list_def parts it[unfolded lru_list_def])
  have wf': "lru_wf E sh'"
    using wf unfolding lru_wf_def ll by (auto simp: del_key_def split: if_splits)
  have lv: "live E sh' = live E sh - {e}"
  proof (intro set_eqI)
    fix x
    have "x = e \<longleftrightarrow> e_id x = e_id e" if "x \<in> live E sh" using C(3) assms(2) that by (auto dest: inj_onD)
    then show "x \<in> live E sh' \<longleftrightarrow> x \<in> live E sh - {e}"
      unfolding live_iff[OF wf'] ll using live_iff[OF wf, of x] by (auto simp: del_key_def)
  qed
  have bk': "bucket_of k sh' = filter (\<lambda>x. e_id x \<noteq> e_id e) (bucket_of k sh)" for k
  proof (cases "k = e_key e")
    case False
    have "e_id x \<noteq> e_id e" if "x \<in> set (bucket_of k sh)" for x
      using that False C(3) assms(2) unfolding C(6) by (auto dest: inj_onD)
    with False show ?thesis by (simp add: bk)
  qed (simp add: bk)
  have ch: "(\<lambda>n. charged (part n sh')) = (if e \<in> set (held sh) then (\<lambda>n. charged (part n sh))
      else (\<lambda>n. charged (part n sh))(e_negative e := charged (part (e_negative e) sh) - e_charge e))"
    by (auto simp: parts)
  have mx: "max_entries (part n sh') = max_entries (part n sh)" "max_bytes (part n sh') = max_bytes (part n sh)" for n
    by (simp_all add: parts)
  have "shard_core E maxv (live E sh - {e}) sh'"
    using core_remove[OF core[unfolded shard_core_def] assms(2)]
    unfolding shard_core_def ch bk' cnt sames mx .
  with wf' tab ne ne' lv sames have "shard_inv E maxv sh'" by (simp add: shard_inv_def)
  moreover have "keeps sh sh'" by (simp add: keeps_def sames parts)
  ultimately show ?thesis using that rm lv by blast
qed

end

context cache_world
begin

lemma bucket_live:
  assumes "shard_inv E maxv sh"
  shows "set (bucket_of k sh) = {e \<in> live E sh. e_key e = k}"
  using assms coreD(6) unfolding shard_inv_def shard_core_def by blast

lemma live_same_id:
  assumes "shard_inv E maxv sh" "e \<in> live E sh" "e' \<in> live E sh" "e_id e = e_id e'"
  shows "e = e'"
proof -
  have "inj_on e_id (live E sh \<union> set (held sh))"
    using assms(1) coreD(3) unfolding shard_inv_def shard_core_def by blast
  then show ?thesis by (rule inj_onD) (use assms in auto)
qed

lemma remove_any:
  assumes "shard_inv E maxv sh"
  obtains g' sh' where "remove E neg i (g, sh) = (g', sh')" and "shard_inv E maxv sh'"
    and "live E sh' = {x \<in> live E sh. (e_negative x, e_id x) \<noteq> (neg, i)}" and "keeps sh sh'"
proof (cases "lru_peek (e_lru E) i (p_lru (part neg sh))")
  case None
  then have "lru_pop (e_lru E) i (p_lru (part neg sh)) = None" by (simp add: ents.peek_eq ents.pop_None)
  then have "remove E neg i (g, sh) = (g, sh)" by (simp add: remove_def)
  moreover have wf: "lru_wf E sh" using assms by (simp add: shard_inv_def)
  have "(e_negative x, e_id x) \<noteq> (neg, i)" if "x \<in> live E sh" for x
    using that None unfolding live_peek[OF wf] by (metis option.distinct(1) prod.inject)
  then have "live E sh = {x \<in> live E sh. (e_negative x, e_id x) \<noteq> (neg, i)}" by blast
  ultimately show ?thesis using that[of g sh] assms by simp
next
  case (Some e)
  have wf: "lru_wf E sh" using assms by (simp add: shard_inv_def)
  note pl = peek_live[OF wf Some]
  have "(e_negative x, e_id x) = (neg, i) \<longleftrightarrow> x = e" if "x \<in> live E sh" for x
  proof
    assume "(e_negative x, e_id x) = (neg, i)"
    then show "x = e" using live_same_id[OF assms that pl(1)] pl(2) by simp
  qed (simp add: pl(2,3))
  then have eq: "live E sh - {e} = {x \<in> live E sh. (e_negative x, e_id x) \<noteq> (neg, i)}" by blast
  show ?thesis by (rule remove_live[OF assms pl(1), unfolded pl(2,3) eq, where g = g]) (rule that)
qed

lemma remove_all_ok:
  assumes "shard_inv E maxv sh"
  obtains g' sh' where "remove_all E xs (g, sh) = (g', sh')" and "shard_inv E maxv sh'"
    and "live E sh' = {x \<in> live E sh. (e_negative x, e_id x) \<notin> set xs}" and "keeps sh sh'"
proof -
  have "\<exists>g' sh'. remove_all E xs (g, sh) = (g', sh') \<and> shard_inv E maxv sh' \<and>
      live E sh' = {x \<in> live E sh. (e_negative x, e_id x) \<notin> set xs} \<and> keeps sh sh'"
    using assms
  proof (induction xs arbitrary: g sh)
    case Nil
    then show ?case by simp
  next
    case (Cons p xs)
    obtain neg i where p: "p = (neg, i)" by (cases p)
    obtain g1 sh1 where one: "remove E neg i (g, sh) = (g1, sh1)" "shard_inv E maxv sh1"
      "live E sh1 = {x \<in> live E sh. (e_negative x, e_id x) \<noteq> (neg, i)}" "keeps sh sh1"
      by (rule remove_any[OF Cons.prems])
    from Cons.IH[OF one(2), of g1] obtain g' sh' where rest: "remove_all E xs (g1, sh1) = (g', sh')" "shard_inv E maxv sh'"
      "live E sh' = {x \<in> live E sh1. (e_negative x, e_id x) \<notin> set xs}" "keeps sh1 sh'" by (elim exE conjE)
    have "live E sh' = {x \<in> live E sh. (e_negative x, e_id x) \<notin> set (p # xs)}"
      unfolding rest(3) one(3) p by auto
    moreover have "remove_all E (p # xs) (g, sh) = (g', sh')" by (simp add: p one(1) rest(1))
    ultimately show ?case using rest(2) keeps_trans[OF one(4) rest(4)] by blast
  qed
  then show ?thesis using that by blast
qed

text \<open>Removing a selection of the entries of one key.\<close>

lemma remove_bucket:
  assumes "shard_inv E maxv sh"
  obtains g' sh' where "remove_all E (map (\<lambda>e. (e_negative e, e_id e)) (filter P (bucket_of k sh))) (g, sh) = (g', sh')"
    and "shard_inv E maxv sh'" and "live E sh' = {x \<in> live E sh. \<not> (e_key x = k \<and> P x)}" and "keeps sh sh'"
proof -
  let ?xs = "map (\<lambda>e. (e_negative e, e_id e)) (filter P (bucket_of k sh))"
  have "(e_negative x, e_id x) \<in> set ?xs \<longleftrightarrow> e_key x = k \<and> P x" if x: "x \<in> live E sh" for x
  proof
    assume "(e_negative x, e_id x) \<in> set ?xs"
    then obtain y where y: "y \<in> set (bucket_of k sh)" "P y" "e_id x = e_id y" by auto
    then have "x = y" using live_same_id[OF assms x, of y] by (simp add: bucket_live[OF assms])
    with y show "e_key x = k \<and> P x" by (simp add: bucket_live[OF assms])
  next
    assume "e_key x = k \<and> P x"
    then have "x \<in> set (filter P (bucket_of k sh))" using x by (simp add: bucket_live[OF assms])
    then show "(e_negative x, e_id x) \<in> set ?xs" by (simp add: image_iff Bex_def) blast
  qed
  then have eq: "{x \<in> live E sh. (e_negative x, e_id x) \<notin> set ?xs} = {x \<in> live E sh. \<not> (e_key x = k \<and> P x)}" by blast
  show ?thesis by (rule remove_all_ok[OF assms, of ?xs g, unfolded eq]) (rule that)
qed

lemma prune_ok:
  assumes "shard_inv E maxv sh"
  obtains g' sh' where "prune E key now (g, sh) = (g', sh')" and "shard_inv E maxv sh'"
    and "live E sh' = {x \<in> live E sh. \<not> (e_key x = key \<and> e_retention x \<le> age_of now x)}" and "keeps sh sh'"
proof (rule remove_bucket[OF assms, of "\<lambda>e. e_retention e \<le> age_of now e" key g])
qed (rule that, simp_all only: prune_def prod.case)

lemma evict_ok:
  assumes "shard_inv E maxv sh" and "e \<in> live E sh"
  obtains g' sh' where "evict E (e_negative e) (e_id e) now why (g, sh) = Some (g', sh')" and "shard_inv E maxv sh'"
    and "live E sh' = live E sh - {e}" and "keeps sh sh'"
proof -
  define state where "state = (if age_of now e < e_lifetime e then EFresh
                        else if age_of now e < e_retention e then ERetained else EExpired)"
  define p where "p = part (e_negative e) sh"
  define sh1 where "sh1 = set_part (e_negative e) (p\<lparr>p_evictions := evictions_record (p_evictions p) why state\<rparr>) sh"
  define sh2 where "sh2 = sh1\<lparr>counts := (counts sh1)\<lparr>n_evictions := n_evictions (counts sh1) + 1\<rparr>\<rparr>"
  have ll: "lru_list E n sh2 = lru_list E n sh" for n
    by (simp add: sh2_def sh1_def p_def lru_list_def)
  have "lru_wf E sh" using assms(1) by (simp add: shard_inv_def)
  then have pk: "lru_peek (e_lru E) (e_id e) (p_lru (part (e_negative e) sh)) = Some e"
    using assms(2) by (simp add: live_peek)
  have "table_ok (e_cls E) (sharing sh)" using assms(1) by (simp add: shard_inv_def)
  then have inv: "shard_inv E maxv sh2"
    by (intro shard_inv_frame[OF assms(1)]) (simp_all add: ll, simp_all add: sh2_def sh1_def p_def)
  have lv: "live E sh2 = live E sh" by (rule live_cong) (simp add: ll)
  have ev: "evict E (e_negative e) (e_id e) now why (g, sh) = Some (remove E (e_negative e) (e_id e) (g, sh2))"
    unfolding evict_def sh2_def sh1_def p_def state_def by (simp only: pk prod.case option.case Let_def)
  have k: "keeps sh sh2" by (simp add: keeps_def sh2_def sh1_def p_def)
  obtain g' sh' where r: "remove E (e_negative e) (e_id e) (g, sh2) = (g', sh')" "shard_inv E maxv sh'"
    "live E sh' = live E sh2 - {e}" "keeps sh2 sh'"
    by (rule remove_live[OF inv, of e g]) (use assms(2) lv that in auto)
  show ?thesis by (rule that) (use ev r lv keeps_trans[OF k r(4)] in auto)
qed

end

subsection \<open>Making room and placing\<close>

lemma keeps_reject [simp]: "keeps sh (reject sh') = keeps sh sh'"
  by (simp add: keeps_def reject_def)

lemma reject_fields [simp]: "live E (reject sh) = live E sh" "lru_list E n (reject sh) = lru_list E n sh"
  "bucket_of k (reject sh) = bucket_of k sh" "part n (reject sh) = part n sh"
  by (simp_all add: reject_def live_def)

context cache_world
begin

lemma bucket_length:
  assumes "shard_inv E maxv sh"
  shows "length (bucket_of k sh) = card {e \<in> live E sh. e_key e = k}"
proof -
  have "distinct (bucket_of k sh)"
    using assms coreD(5) unfolding shard_inv_def shard_core_def by blast
  then show ?thesis by (simp add: distinct_card flip: bucket_live[OF assms])
qed

lemma live_finite: "shard_inv E maxv sh \<Longrightarrow> finite (live E sh)"
  using coreD(1) unfolding shard_inv_def shard_core_def by blast

lemma bucket_le: "shard_inv E maxv sh \<Longrightarrow> length (bucket_of k sh) \<le> maxv"
  using coreD(7) unfolding shard_inv_def shard_core_def by blast

lemma inv_lru_wf: "shard_inv E maxv sh \<Longrightarrow> lru_wf E sh"
  by (simp add: shard_inv_def)

lemma make_variant_room_ok:
  assumes "shard_inv E maxv sh" and "0 < maxv"
  obtains b g' sh' where "make_variant_room E maxv key neg now (g, sh) = Some (b, g', sh')" and "shard_inv E maxv sh'"
    and "live E sh' \<subseteq> live E sh" and "keeps sh sh'" and "b \<Longrightarrow> length (bucket_of key sh') < maxv"
    and "{x \<in> live E sh'. e_negative x \<noteq> neg} = {x \<in> live E sh. e_negative x \<noteq> neg}"
proof (cases "length (bucket_of key sh) < maxv")
  case True
  then have "make_variant_room E maxv key neg now (g, sh) = Some (True, g, sh)"
    by (cases "fmlookup (buckets sh) key") (simp_all add: make_variant_room_def bucket_of_def)
  then show ?thesis by (rule that) (use assms(1) True in auto)
next
  case False
  then obtain es where es: "fmlookup (buckets sh) key = Some es" "\<not> length es < maxv" "bucket_of key sh = es"
    using assms(2) by (auto simp: bucket_of_def split: option.splits)
  show ?thesis
  proof (cases "min_by_key (\<lambda>e. accessed (cells sh (e_id e))) (filter (\<lambda>e. e_negative e = neg) es)")
    case None
    then have "make_variant_room E maxv key neg now (g, sh) = Some (False, g, reject sh)"
      unfolding make_variant_room_def prod.case es(1) option.case using es(2) by (simp only: if_False option.case)
    then show ?thesis by (rule that) (use assms(1) False in simp_all)
  next
    case (Some e)
    from min_by_key_in[OF this] have "e \<in> set (bucket_of key sh)" "e_negative e = neg" by (simp_all add: es(3))
    then have e: "e \<in> live E sh" "e_key e = key" "e_negative e = neg" by (simp_all add: bucket_live[OF assms(1)])
    obtain g' sh' where ev: "evict E (e_negative e) (e_id e) now Variants (g, sh) = Some (g', sh')" "shard_inv E maxv sh'"
      "live E sh' = live E sh - {e}" "keeps sh sh'" by (rule evict_ok[OF assms(1) e(1)])
    have mv: "make_variant_room E maxv key neg now (g, sh) = Some (True, g', sh')"
      unfolding make_variant_room_def prod.case es(1) option.case using es(2) Some ev(1)
      by (simp only: if_False option.case option.map)
    have "{x \<in> live E sh'. e_key x = key} \<subset> {x \<in> live E sh. e_key x = key}"
      using e unfolding ev(3) by blast
    then have "length (bucket_of key sh') < length (bucket_of key sh)"
      unfolding bucket_length[OF ev(2)] bucket_length[OF assms(1)]
      by (rule psubset_card_mono[rotated]) (simp add: live_finite[OF assms(1)])
    then have "length (bucket_of key sh') < maxv" using bucket_le[OF assms(1), of key] by linarith
    moreover have "{x \<in> live E sh'. e_negative x \<noteq> neg} = {x \<in> live E sh. e_negative x \<noteq> neg}"
      unfolding ev(3) using e(3) by blast
    ultimately show ?thesis by (intro that[OF mv ev(2) _ ev(4)]) (simp_all only: ev(3) Diff_subset)
  qed
qed

lemma peek_lru_live:
  assumes "lru_wf E sh" and "lru_peek_lru (e_lru E) (p_lru (part neg sh)) = Some (i, e)"
  shows "e \<in> live E sh \<and> e_id e = i \<and> e_negative e = neg"
proof -
  from assms(2) have "(i, e) \<in> set (lru_list E neg sh)"
    by (auto simp: ents.peek_lru_eq lru_list_def split: if_splits) (metis last_in_set)
  with assms(1) show ?thesis unfolding live_def lru_wf_def by blast
qed

lemma make_room_ok:
  assumes "shard_inv E maxv sh" and "lru_len (e_lru E) (p_lru (part neg sh)) < fuel"
  shows "\<exists>b g' sh'. make_room E neg c now fuel (g, sh) = Some (b, g', sh') \<and> shard_inv E maxv sh' \<and>
    live E sh' \<subseteq> live E sh \<and> keeps sh sh' \<and> {x \<in> live E sh'. e_negative x \<noteq> neg} = {x \<in> live E sh. e_negative x \<noteq> neg} \<and>
    (if b then card {x \<in> live E sh'. e_negative x = neg} < max_entries (part neg sh) \<and>
               charged (part neg sh') + c \<le> max_bytes (part neg sh)
     else {x \<in> live E sh'. e_negative x = neg} = {})"
  using assms
proof (induction fuel arbitrary: g sh)
  case 0
  then show ?case by simp
next
  case (Suc fuel)
  let ?el = "max_entries (part neg sh) \<le> lru_len (e_lru E) (p_lru (part neg sh))"
  let ?bl = "max_bytes (part neg sh) < charged (part neg sh) + c"
  have wf: "lru_wf E sh" by (rule inv_lru_wf[OF Suc.prems(1)])
  show ?case
  proof (cases "\<not> ?el \<and> \<not> ?bl")
    case True
    then show ?thesis using Suc.prems(1) card_part[OF wf, of neg]
      by (intro exI[of _ True] exI[of _ g] exI[of _ sh]) (simp add: Let_def)
  next
    case False
    show ?thesis
    proof (cases "lru_peek_lru (e_lru E) (p_lru (part neg sh))")
      case None
      then have "lru_list E neg sh = []" by (simp add: ents.peek_lru_eq lru_list_def split: if_splits)
      then have "card {x \<in> live E sh. e_negative x = neg} = 0"
        using card_part[OF wf, of neg] by (simp add: ents.len_eq lru_list_def)
      then have "{x \<in> live E sh. e_negative x = neg} = {}" using live_finite[OF Suc.prems(1)] by simp
      with False None Suc.prems(1) show ?thesis
        by (intro exI[of _ False] exI[of _ g] exI[of _ "reject sh"]) (simp add: Let_def)
    next
      case (Some p)
      obtain i e where p: "p = (i, e)" by (cases p)
      from peek_lru_live[OF wf Some[unfolded p]] have e: "e \<in> live E sh" "e_id e = i" "e_negative e = neg" by simp_all
      define why where "why = (if ?el \<and> ?bl then EntriesAndBytes else if ?el then Entries else Bytes)"
      obtain g1 sh1 where ev: "evict E neg i now why (g, sh) = Some (g1, sh1)" "shard_inv E maxv sh1"
        "live E sh1 = live E sh - {e}" "keeps sh sh1" by (rule evict_ok[OF Suc.prems(1) e(1), unfolded e(2,3)])
      have "lru_len (e_lru E) (p_lru (part neg sh1)) < fuel"
        using Suc.prems(2) e live_finite[OF Suc.prems(1)] card_filter_Diff[OF _ e(1), of "\<lambda>x. e_negative x = neg"]
          card_gt_0_iff[of "{x \<in> live E sh. e_negative x = neg}"]
        unfolding card_part[OF wf] card_part[OF inv_lru_wf[OF ev(2)]] ev(3) by auto
      from Suc.IH[OF ev(2) this, of g1] obtain b g' sh' where r:
        "make_room E neg c now fuel (g1, sh1) = Some (b, g', sh')" "shard_inv E maxv sh'"
        "live E sh' \<subseteq> live E sh1" "keeps sh1 sh'" "{x \<in> live E sh'. e_negative x \<noteq> neg} = {x \<in> live E sh1. e_negative x \<noteq> neg}"
        "if b then card {x \<in> live E sh'. e_negative x = neg} < max_entries (part neg sh1) \<and>
               charged (part neg sh') + c \<le> max_bytes (part neg sh1)
         else {x \<in> live E sh'. e_negative x = neg} = {}" by (elim exE conjE)
      have "make_room E neg c now (Suc fuel) (g, sh) = Some (b, g', sh')"
        using False ev(1) r(1) unfolding make_room.simps Let_def snd_conv Some p why_def by (simp only: if_False option.case prod.case)
      moreover have "live E sh' \<subseteq> live E sh" using r(3) ev(3) by blast
      moreover have "keeps sh sh'" by (rule keeps_trans[OF ev(4) r(4)])
      moreover have "{x \<in> live E sh'. e_negative x \<noteq> neg} = {x \<in> live E sh. e_negative x \<noteq> neg}"
        unfolding r(5) ev(3) using e(3) by blast
      moreover have "max_entries (part neg sh1) = max_entries (part neg sh)" "max_bytes (part neg sh1) = max_bytes (part neg sh)"
        using ev(4) by (simp_all add: keeps_def)
      ultimately show ?thesis using r(2,6) by (metis (no_types))
    qed
  qed
qed

end

definition entry_of :: "'n key \<Rightarrow> 'w stored \<Rightarrow> nat \<Rightarrow> instant \<Rightarrow> nat \<Rightarrow> ('n, 'w) entry" where
  "entry_of key s ch now i = \<lparr>e_id = i, e_key = key, e_wire = s_wire s, e_scope = s_scope s, e_inserted = now,
     e_lifetime = s_lifetime s, e_retention = s_retention s, e_negative = s_negative s,
     e_failure = s_failure s, e_prefetch = s_prefetch s, e_charge = ch\<rparr>"

lemma entry_of_sel [simp]:
  "e_id (entry_of key s c now i) = i" "e_key (entry_of key s c now i) = key" "e_wire (entry_of key s c now i) = s_wire s"
  "e_scope (entry_of key s c now i) = s_scope s" "e_inserted (entry_of key s c now i) = now"
  "e_lifetime (entry_of key s c now i) = s_lifetime s" "e_retention (entry_of key s c now i) = s_retention s"
  "e_negative (entry_of key s c now i) = s_negative s" "e_failure (entry_of key s c now i) = s_failure s"
  "e_prefetch (entry_of key s c now i) = s_prefetch s" "e_charge (entry_of key s c now i) = c"
  by (simp_all add: entry_of_def)

text \<open>What is new under a key does not clash with what is live.\<close>

definition no_overlap :: "('n, 'w, 'd, 'l, 's) cache_env \<Rightarrow> 'n key \<Rightarrow> 'w stored \<Rightarrow> ('n, 'w) entries \<Rightarrow> bool" where
  "no_overlap E key s lv \<longleftrightarrow> (\<forall>x \<in> lv. e_key x = key \<longrightarrow> (e_failure x = None \<longleftrightarrow> s_failure s = None) \<longrightarrow>
     \<not> scopes_overlap (e_net E) (e_scope x) (s_scope s))"

lemma no_overlap_mono: "no_overlap E key s lv \<Longrightarrow> lv' \<subseteq> lv \<Longrightarrow> no_overlap E key s lv'"
  unfolding no_overlap_def by (rule ballI) (erule bspec, erule (1) subsetD)

abbreviation new_lru :: "('n, 'w, 'd, 'l, 's) cache_env \<Rightarrow> 'n key \<Rightarrow> 'w stored \<Rightarrow> nat \<Rightarrow> instant \<Rightarrow> ('n, 'w, 'l, 's) shard \<Rightarrow> 'l" where
  "new_lru E key s c now sh \<equiv>
     lru_put (e_lru E) (clock sh + 1) (entry_of key s c now (clock sh + 1)) (p_lru (part (s_negative s) sh))"

lemma publish_fields:
  shows "part n (publish E key s c now sh) = (if n = s_negative s then (part n sh)\<lparr>charged := charged (part n sh) + c,
      p_lru := (if s_accessed s \<noteq> None then lru_demote (e_lru E) (clock sh + 1) (new_lru E key s c now sh) else new_lru E key s c now sh)\<rparr> else part n sh)"
    and "held (publish E key s c now sh) = held sh" "clock (publish E key s c now sh) = clock sh + 1"
    and "sharing (publish E key s c now sh) = sharing sh"
    and "learned (publish E key s c now sh) = learned sh + (if is_learned (s_scope s) then 1 else 0)"
    and "failures (publish E key s c now sh) = failures sh + (if s_failure s \<noteq> None then 1 else 0)"
    and "buckets (publish E key s c now sh) = fmupd key (bucket_of key sh @ [entry_of key s c now (clock sh + 1)]) (buckets sh)"
  by (simp_all add: publish_def Let_def entry_of_def)

context cache_world
begin

lemma iter_new:
  assumes "map_of (lru_iter (e_lru E) l) i = None"
  shows "set (lru_iter (e_lru E) (lru_put (e_lru E) i e l)) = insert (i, e) (set (lru_iter (e_lru E) l))"
    and "set (lru_iter (e_lru E) (lru_demote (e_lru E) i (lru_put (e_lru E) i e l))) = insert (i, e) (set (lru_iter (e_lru E) l))"
proof -
  have del: "del_key i (lru_iter (e_lru E) l) = lru_iter (e_lru E) l"
    using assms unfolding del_key_def map_of_eq_None_iff by (intro filter_True) force
  show "set (lru_iter (e_lru E) (lru_put (e_lru E) i e l)) = insert (i, e) (set (lru_iter (e_lru E) l))"
    by (simp add: ents.iter_put del)
  have "map_of (lru_iter (e_lru E) (lru_put (e_lru E) i e l)) i = Some e" by (simp add: ents.iter_put)
  from ents.iter_demote[OF this]
  show "set (lru_iter (e_lru E) (lru_demote (e_lru E) i (lru_put (e_lru E) i e l))) = insert (i, e) (set (lru_iter (e_lru E) l))"
    by (simp add: ents.iter_put del) (simp add: del_key_def del[unfolded del_key_def])
qed

lemma publish_ok:
  assumes inv: "shard_inv E maxv sh" and "length (bucket_of key sh) < maxv"
    and "card {x \<in> live E sh. e_negative x = s_negative s} < max_entries (part (s_negative s) sh)"
    and "charged (part (s_negative s) sh) + c \<le> max_bytes (part (s_negative s) sh)"
    and "no_overlap E key s (live E sh)" and "s_failure s \<noteq> None \<Longrightarrow> s_negative s"
  shows "shard_inv E maxv (publish E key s c now sh)"
    and "live E (publish E key s c now sh) = insert (entry_of key s c now (clock sh + 1)) (live E sh)"
proof -
  let ?e = "entry_of key s c now (clock sh + 1)" and ?sh = "publish E key s c now sh"
  have wf: "lru_wf E sh" and core: "shard_core E maxv (live E sh) sh" and tab: "table_ok (e_cls E) (sharing sh)"
    and ne: "\<forall>k. fmlookup (buckets sh) k \<noteq> Some []"
    using inv by (simp_all add: shard_inv_def)
  note C = coreD[OF core[unfolded shard_core_def]]
  have new: "map_of (lru_list E n sh) (clock sh + 1) = None" for n
  proof (rule ccontr)
    assume "map_of (lru_list E n sh) (clock sh + 1) \<noteq> None"
    then obtain x where "(clock sh + 1, x) \<in> set (lru_list E n sh)" by (auto dest: map_of_SomeD)
    then have "x \<in> live E sh" "e_id x = clock sh + 1" using wf unfolding live_def lru_wf_def by blast+
    with C(4)[of x] show False by simp
  qed
  have ll: "set (lru_list E n ?sh) = (if n = s_negative s then insert (clock sh + 1, ?e) (set (lru_list E n sh)) else set (lru_list E n sh))" for n
    unfolding lru_list_def publish_fields(1) using iter_new[OF new[unfolded lru_list_def]] by simp
  have in_ll: "(i, x) \<in> set (lru_list E n ?sh) \<longleftrightarrow> (i, x) \<in> set (lru_list E n sh) \<or> n = s_negative s \<and> i = clock sh + 1 \<and> x = ?e" for i x n
    unfolding ll by (cases "n = s_negative s") (simp_all add: disj_commute)
  have wf': "lru_wf E ?sh" unfolding lru_wf_def in_ll
    using wf[unfolded lru_wf_def] entry_of_sel(1,8) by metis
  have lv: "live E ?sh = insert ?e (live E sh)" unfolding live_def in_ll by blast
  have bk: "(\<lambda>k. bucket_of k ?sh) = (\<lambda>k. bucket_of k sh)(key := bucket_of key sh @ [?e])"
    by (rule ext) (simp add: bucket_of_def publish_fields(7))
  have ch: "(\<lambda>n. charged (part n ?sh)) = (\<lambda>n. charged (part n sh))(s_negative s := charged (part (s_negative s) sh) + c)"
    by (rule ext) (simp add: publish_fields(1))
  have mx: "max_entries (part n ?sh) = max_entries (part n sh)" "max_bytes (part n ?sh) = max_bytes (part n sh)" for n
    by (simp_all add: publish_fields(1))
  have cl: "\<forall>x \<in> live E sh. \<not> clash (e_net E) x ?e \<and> \<not> clash (e_net E) ?e x"
  proof (intro ballI)
    fix x assume "x \<in> live E sh"
    then have no: "\<lbrakk>e_key x = key; (e_failure x = None) = (s_failure s = None)\<rbrakk> \<Longrightarrow> \<not> scopes_overlap (e_net E) (e_scope x) (s_scope s)"
      using assms(5) unfolding no_overlap_def by simp
    then show "\<not> clash (e_net E) x ?e \<and> \<not> clash (e_net E) ?e x"
      unfolding clash_def entry_of_sel scopes_overlap_sym[of _ "s_scope s"] by (intro conjI notI; elim conjE) simp_all
  qed
  have "shard_core E maxv (insert ?e (live E sh)) ?sh"
    using core_add[OF core[unfolded shard_core_def], of ?e, unfolded entry_of_sel, OF refl assms(2-4) cl assms(6)]
    unfolding shard_core_def bk ch mx publish_fields(2-6) .
  moreover have "\<forall>k. fmlookup (buckets ?sh) k \<noteq> Some []" using ne by (simp add: publish_fields(7))
  ultimately show "shard_inv E maxv ?sh" unfolding shard_inv_def lv publish_fields(4) using wf' tab by blast
  show "live E ?sh = insert ?e (live E sh)" by (rule lv)
qed

end

text \<open>What no operation but a lookup changes.\<close>

definition stable :: "('n, 'w, 'l, 's) shard \<Rightarrow> ('n, 'w, 'l, 's) shard \<Rightarrow> bool" where
  "stable sh sh' \<longleftrightarrow> held sh' = held sh \<and> clock sh \<le> clock sh' \<and>
     (\<forall>n. max_entries (part n sh') = max_entries (part n sh) \<and> max_bytes (part n sh') = max_bytes (part n sh))"

lemma stable_refl [simp]: "stable sh sh"
  by (simp add: stable_def)

lemma stable_trans [trans]: "stable a b \<Longrightarrow> stable b c \<Longrightarrow> stable a c"
  unfolding stable_def by auto

lemma keeps_stable: "keeps sh sh' \<Longrightarrow> stable sh sh'"
  by (simp add: keeps_def stable_def)

lemma stable_reject [simp]: "stable sh (reject sh') = stable sh sh'"
  by (simp add: stable_def reject_def)

lemma stable_publish: "stable sh (publish E key s c now sh)"
  by (simp add: stable_def publish_fields)

lemma decision_admitted [simp]:
  "\<not> admitted (rejected r b)" "\<not> admitted (skipped r)"
  "admitted \<lparr>outcome = (if b then Replaced else Admitted), reason = ro\<rparr>"
  by (simp_all add: admitted_def rejected_def skipped_def)

text \<open>The outcome of a store: an admitted entry is live, next to a subset of what was live.\<close>

definition stored_as :: "('n, 'w, 'd, 'l, 's) cache_env \<Rightarrow> 'n key \<Rightarrow> 'w stored \<Rightarrow> instant \<Rightarrow> bool \<Rightarrow> ('n, 'w) entries \<Rightarrow> ('n, 'w, 'l, 's) shard \<Rightarrow> bool" where
  "stored_as E key s now ok lv sh \<longleftrightarrow>
     (if ok then \<exists>L. L \<subseteq> lv \<and> live E sh = insert (entry_of key s (charge (e_dns E) (e_overhead E) (s_wire s) key) now (clock sh)) L
      else live E sh \<subseteq> lv)"

context cache_world
begin

lemma place_ok:
  assumes inv: "shard_inv E (c_max_variants cfg) sh" and maxv: "0 < c_max_variants cfg"
    and no: "no_overlap E key s (live E sh)" and fneg: "s_failure s \<noteq> None \<Longrightarrow> s_negative s"
  obtains d g' sh' where "place E cfg key s now superseded (g, sh) = Some (d, g', sh')"
    and "shard_inv E (c_max_variants cfg) sh'" and "stable sh sh'" and "sharing sh' = sharing sh"
    and "stored_as E key s now (admitted d) (live E sh) sh'"
    and "{x \<in> live E sh'. e_negative x \<noteq> s_negative s} = {x \<in> live E sh. e_negative x \<noteq> s_negative s}"
proof -
  define c where "c = charge (e_dns E) (e_overhead E) (s_wire s) key"
  define neg where "neg = s_negative s"
  note pd = place_def[of E cfg key s now superseded "(g, sh)", unfolded prod.case, folded c_def neg_def, unfolded Let_def]
  show ?thesis
  proof (cases "max_bytes (part neg sh) < c \<or> max_entries (part neg sh) = 0")
    case True
    then have "place E cfg key s now superseded (g, sh) = Some (rejected Capacity superseded, g, reject sh)"
      unfolding pd by (simp only: if_True)
    then show ?thesis by (rule that) (use inv in \<open>simp_all add: stored_as_def, simp add: reject_def\<close>)
  next
    case cap: False
    obtain b g1 sh1 where v: "make_variant_room E (c_max_variants cfg) key neg now (g, sh) = Some (b, g1, sh1)"
      "shard_inv E (c_max_variants cfg) sh1" "live E sh1 \<subseteq> live E sh" "keeps sh sh1"
      and vb: "b \<longrightarrow> length (bucket_of key sh1) < c_max_variants cfg"
      and vo: "{x \<in> live E sh1. e_negative x \<noteq> neg} = {x \<in> live E sh. e_negative x \<noteq> neg}"
      by (rule make_variant_room_ok[OF inv maxv, of key neg now g]) (rule that, assumption+, blast, assumption)
    show ?thesis
    proof (cases b)
      case False
      then have "place E cfg key s now superseded (g, sh) = Some (rejected VariantLimit superseded, g1, sh1)"
        unfolding pd using cap v(1) by (simp only: if_False option.case prod.case bool.case)
      then show ?thesis
        by (rule that) (use v vo[unfolded neg_def] keeps_stable[OF v(4)] in \<open>simp_all add: stored_as_def, simp add: keeps_def\<close>)
    next
      case True
      obtain b' g2 sh2 where r: "make_room E neg c now (Suc (lru_len (e_lru E) (p_lru (part neg sh1)))) (g1, sh1) = Some (b', g2, sh2)"
        "shard_inv E (c_max_variants cfg) sh2" "live E sh2 \<subseteq> live E sh1" "keeps sh1 sh2"
        and ro: "{x \<in> live E sh2. e_negative x \<noteq> neg} = {x \<in> live E sh1. e_negative x \<noteq> neg}"
        and room: "if b' then card {x \<in> live E sh2. e_negative x = neg} < max_entries (part neg sh1) \<and>
               charged (part neg sh2) + c \<le> max_bytes (part neg sh1)
          else {x \<in> live E sh2. e_negative x = neg} = {}"
        using make_room_ok[OF v(2) lessI, of neg c now g1] by (elim exE conjE)
      have k: "keeps sh sh2" by (rule keeps_trans[OF v(4) r(4)])
      have sub: "live E sh2 \<subseteq> live E sh" using v(3) r(3) by blast
      have other: "{x \<in> live E sh2. e_negative x \<noteq> neg} = {x \<in> live E sh. e_negative x \<noteq> neg}" unfolding ro vo ..
      show ?thesis
      proof (cases b')
        case False
        then have "place E cfg key s now superseded (g, sh) = Some (rejected Capacity superseded, g2, sh2)"
          unfolding pd using cap v(1) True r(1) by (simp only: if_False option.case prod.case bool.case snd_conv)
        then show ?thesis by (rule that) (use r(2) sub k keeps_stable[OF k] other[unfolded neg_def] in \<open>simp_all add: stored_as_def, simp add: keeps_def\<close>)
      next
        case b': True
        let ?sh = "publish E key s c now sh2"
        have pl: "place E cfg key s now superseded (g, sh) =
            Some (\<lparr>outcome = (if superseded then Replaced else Admitted), reason = None\<rparr>, g2, ?sh)"
          unfolding pd using cap v(1) True r(1) b' by (simp only: if_False option.case prod.case bool.case snd_conv)
        have "{x \<in> live E sh2. e_key x = key} \<subseteq> {x \<in> live E sh1. e_key x = key}" using r(3) by blast
        then have "length (bucket_of key sh2) \<le> length (bucket_of key sh1)"
          unfolding bucket_length[OF r(2)] bucket_length[OF v(2)] by (rule card_mono[rotated]) (simp add: live_finite[OF v(2)])
        then have len: "length (bucket_of key sh2) < c_max_variants cfg" using vb True by simp
        have "max_entries (part neg sh2) = max_entries (part neg sh1)" "max_bytes (part neg sh2) = max_bytes (part neg sh1)"
          using r(4) by (simp_all add: keeps_def)
        with room b' have "card {x \<in> live E sh2. e_negative x = s_negative s} < max_entries (part (s_negative s) sh2)"
          "charged (part (s_negative s) sh2) + c \<le> max_bytes (part (s_negative s) sh2)" by (simp_all add: neg_def)
        note pub' = publish_ok[OF r(2) len this no_overlap_mono[OF no sub], of now]
        have pub: "shard_inv E (c_max_variants cfg) ?sh" "live E ?sh = insert (entry_of key s c now (clock sh2 + 1)) (live E sh2)"
          by (rule pub', erule fneg)+
        have "stored_as E key s now True (live E sh) ?sh"
          unfolding stored_as_def publish_fields(3) c_def[symmetric] if_True by (intro exI conjI, rule sub) (rule pub(2))
        moreover have "sharing ?sh = sharing sh" using k by (simp add: publish_fields(4) keeps_def)
        moreover have "{x \<in> live E ?sh. e_negative x \<noteq> s_negative s} = {x \<in> live E sh. e_negative x \<noteq> s_negative s}"
          unfolding pub(2) other[unfolded neg_def, symmetric] by (rule Collect_cong, rule iffI; elim conjE) (erule insertE, simp_all)
        ultimately show ?thesis
          using stable_trans[OF keeps_stable[OF k] stable_publish] by (intro that[OF pl pub(1)]) (simp_all only: decision_admitted not_False_eq_True)
      qed
    qed
  qed
qed

end

subsection \<open>Admission\<close>

text \<open>The namespace an answer is stored in: the upstream's, or the learned one of its family.\<close>

definition widens :: "scope \<Rightarrow> scope \<Rightarrow> bool" where
  "widens sc sc' \<longleftrightarrow> sc' = sc \<or> (\<exists>n. sc = ExactSource n \<and> sc' = Learned (is_ipv4 (net_addr n)))"

lemma observe_widens:
  assumes "observe N L t key sc fp lifetime now cfg = Some (ob, t')"
  shows "widens sc (ob_scope ob)"
proof -
  have ph: "observe_phase N cfg (is_ipv4 (net_addr n)) (ExactSource n) fp smp now p = (p', ob') \<Longrightarrow>
      widens (ExactSource n) (ob_scope ob')" for n smp p p' ob'
    by (auto simp: observe_phase_def widens_def Let_def split: phase.splits option.splits if_splits prod.splits)
  show ?thesis
  proof (cases sc)
    case (ExactSource n)
    with assms ph show ?thesis
      by (auto simp: observe_def Let_def split: option.splits prod.splits) (auto simp: widens_def)
  qed (use assms in \<open>auto simp: observe_def widens_def Let_def split: option.splits prod.splits if_splits\<close>)
qed

context ip_network
begin

lemma widens_matches:
  assumes "widens sc sc'" and "matches N sc out"
  shows "matches N sc' out"
proof (cases "sc' = sc")
  case False
  then obtain n where n: "sc = ExactSource n" "sc' = Learned (is_ipv4 (net_addr n))" using assms(1) by (auto simp: widens_def)
  with assms(2) obtain e where e: "out = Some e" by (cases out) auto
  with assms(2) n(1) contains_family[OF exact_contains[of n e]] have "is_ipv4 (cs_addr e) = is_ipv4 (net_addr n)" by simp
  with assms(2) n e show ?thesis by simp
qed (use assms(2) in simp)

end

definition cleared :: "('n, 'w, 'd, 'l, 's) cache_env \<Rightarrow> 'n key \<Rightarrow> scope \<Rightarrow> ('n, 'w) entries \<Rightarrow> bool" where
  "cleared E key sc lv \<longleftrightarrow> (\<forall>x \<in> lv. e_key x = key \<longrightarrow> \<not> scopes_overlap (e_net E) (e_scope x) sc)"

lemma cleared_mono: "cleared E key sc lv \<Longrightarrow> lv' \<subseteq> lv \<Longrightarrow> cleared E key sc lv'"
  unfolding cleared_def by (rule ballI) (erule bspec, erule (1) subsetD)

lemma cleared_no_overlap: "cleared E key (s_scope s) lv \<Longrightarrow> no_overlap E key s lv"
  unfolding cleared_def no_overlap_def by (rule ballI) (drule (1) bspec, simp)

text \<open>The record a prepared answer becomes.\<close>

definition answer_record :: "cache_config \<Rightarrow> policy \<Rightarrow> 'w \<Rightarrow> nat \<Rightarrow> bool \<Rightarrow> scope \<Rightarrow> origin \<Rightarrow> 'w stored" where
  "answer_record cfg pol w l neg sc org =
     \<lparr>s_wire = w, s_scope = sc, s_lifetime = from_secs l,
      s_retention = (if p_stale pol \<and> \<not> neg then from_secs l + from_secs (retention_secs (c_stale cfg)) else from_secs l),
      s_negative = neg, s_failure = None, s_prefetch = p_prefetch pol, s_refreshed = (org = ORefresh),
      s_accessed = map_option re_accessed (origin_restore org)\<rparr>"

lemma answer_record_sel [simp]:
  "s_wire (answer_record cfg pol w l neg sc org) = w" "s_scope (answer_record cfg pol w l neg sc org) = sc"
  "s_lifetime (answer_record cfg pol w l neg sc org) = from_secs l" "s_failure (answer_record cfg pol w l neg sc org) = None"
  "s_negative (answer_record cfg pol w l neg sc org) = neg"
  "from_secs l \<le> s_retention (answer_record cfg pol w l neg sc org)"
  by (simp_all add: answer_record_def)

context cache_world
begin

lemma observe_shard:
  assumes "shard_inv E maxv sh"
  obtains ob tb where "(if learning then observe (e_net E) (e_cls E) (sharing sh) key sc fp lifetime now cfg
      else Some (\<lparr>ob_scope = sc, ob_revoked = False\<rparr>, sharing sh)) = Some (ob, tb)"
    and "table_ok (e_cls E) tb" and "widens sc (ob_scope ob)"
proof (cases learning)
  case True
  have "table_ok (e_cls E) (sharing sh)" using assms by (simp add: shard_inv_def)
  from cls.observe_step[OF this, of "e_net E" key sc fp lifetime now cfg] obtain ob tb where
    o: "observe (e_net E) (e_cls E) (sharing sh) key sc fp lifetime now cfg = Some (ob, tb)" "table_ok (e_cls E) tb"
    by (elim exE conjE)
  with True show ?thesis by (intro that[of ob tb]) (simp_all add: observe_widens[OF o(1)])
next
  case False
  have "table_ok (e_cls E) (sharing sh)" using assms by (simp add: shard_inv_def)
  with False show ?thesis by (intro that[of "\<lparr>ob_scope = sc, ob_revoked = False\<rparr>" "sharing sh"]) (simp_all add: widens_def)
qed

lemma clear_overlapping:
  assumes "shard_inv E maxv sh"
  obtains g' sh' where "remove_all E (map (\<lambda>e. (e_negative e, e_id e)) (overlapping E key sc sh)) (g, sh) = (g', sh')"
    and "shard_inv E maxv sh'" and "live E sh' \<subseteq> live E sh" and "cleared E key sc (live E sh')" and "keeps sh sh'"
proof -
  obtain g' sh' where r: "remove_all E (map (\<lambda>e. (e_negative e, e_id e)) (overlapping E key sc sh)) (g, sh) = (g', sh')"
    "shard_inv E maxv sh'" "live E sh' = {x \<in> live E sh. \<not> (e_key x = key \<and> scopes_overlap (e_net E) (e_scope x) sc)}" "keeps sh sh'"
    unfolding overlapping_def by (rule remove_bucket[OF assms, where g = g])
  have "cleared E key sc (live E sh')" unfolding r(3) cleared_def by blast
  with r show ?thesis by (intro that) (assumption | blast)+
qed

end

definition admit_spec ::
  "('n, 'w, 'd, 'l, 's) cache_env \<Rightarrow> cache_config \<Rightarrow> 'n key \<Rightarrow> policy \<Rightarrow> decision_reason + ('w \<times> nat \<times> bool) \<Rightarrow>
   scope \<Rightarrow> instant \<Rightarrow> origin \<Rightarrow> store_decision \<Rightarrow> ('n, 'w) entries \<Rightarrow> ('n, 'w, 'l, 's) shard \<Rightarrow> bool" where
  "admit_spec E cfg key pol prep sc now org d lv sh \<longleftrightarrow>
     (\<exists>sc' L. widens sc sc' \<and> L \<subseteq> lv \<and> (origin_restore org = None \<or> admitted d \<longrightarrow> cleared E key sc' L) \<and>
       (if admitted d then
          \<exists>w l neg. prep = Inr (w, l, neg) \<and>
            live E sh = insert (entry_of key (answer_record cfg pol w l neg sc' org) (charge (e_dns E) (e_overhead E) w key) now (clock sh)) L
        else live E sh = L))"

context cache_world
begin

lemma place_answer:
  assumes "shard_inv E (c_max_variants cfg) sh" and "0 < c_max_variants cfg" and "cleared E key sc' (live E sh)"
    and "live E sh \<subseteq> lv" and "widens sc sc'"
  obtains d g' sh' where "place E cfg key (answer_record cfg pol w l neg sc' org) now superseded (g, sh) = Some (d, g', sh')"
    and "shard_inv E (c_max_variants cfg) sh'" and "stable sh sh'"
    and "admit_spec E cfg key pol (Inr (w, l, neg)) sc now org d lv sh'"
proof -
  let ?s = "answer_record cfg pol w l neg sc' org"
  have no: "no_overlap E key ?s (live E sh)" by (rule cleared_no_overlap) (simp add: assms(3))
  obtain d g' sh' where p: "place E cfg key ?s now superseded (g, sh) = Some (d, g', sh')"
    "shard_inv E (c_max_variants cfg) sh'" "stable sh sh'" "sharing sh' = sharing sh"
    "stored_as E key ?s now (admitted d) (live E sh) sh'"
    by (rule place_ok[OF assms(1,2) no, where g = g and now = now and superseded = superseded]) (simp, rule that)
  obtain L where L: "L \<subseteq> live E sh" "if admitted d then live E sh' =
      insert (entry_of key ?s (charge (e_dns E) (e_overhead E) w key) now (clock sh')) L else live E sh' = L"
    using p(5) unfolding stored_as_def answer_record_sel by (cases "admitted d") auto
  have "admit_spec E cfg key pol (Inr (w, l, neg)) sc now org d lv sh'"
    unfolding admit_spec_def
  proof (intro exI[of _ sc'] exI[of _ L] conjI impI)
    show "widens sc sc'" by (rule assms(5))
    show "L \<subseteq> lv" by (rule order_trans[OF L(1) assms(4)])
    show "cleared E key sc' L" by (rule cleared_mono[OF assms(3) L(1)])
  qed (use L(2) in \<open>cases "admitted d"; simp\<close>)
  then show ?thesis by (rule that[OF p(1-3)])
qed

lemma admit_locked_ok:
  assumes inv: "shard_inv E (c_max_variants cfg) sh" and maxv: "0 < c_max_variants cfg"
  obtains d g' sh' where "admit_locked E cfg key pol prep fp sc now org (g, sh) = Some (d, g', sh')"
    and "shard_inv E (c_max_variants cfg) sh'" and "stable sh sh'"
    and "admit_spec E cfg key pol prep sc now org d (live E sh) sh'"
proof -
  define restoring where "restoring = (origin_restore org \<noteq> None)"
  define lifetime where "lifetime = (case prep of Inl _ \<Rightarrow> None | Inr (_, l, _) \<Rightarrow> Some (from_secs l))"
  define learning where "learning = (sharing_enabled (c_sharing cfg) \<and> \<not> restoring)"
  obtain g1 sh1 where pr: "prune E key now (g, sh) = (g1, sh1)" "shard_inv E (c_max_variants cfg) sh1"
    "live E sh1 = {x \<in> live E sh. \<not> (e_key x = key \<and> e_retention x \<le> age_of now x)}" "keeps sh sh1"
    by (rule prune_ok[OF inv])
  obtain ob tb where ob: "(if learning then observe (e_net E) (e_cls E) (sharing sh1) key sc fp lifetime now (c_sharing cfg)
      else Some (\<lparr>ob_scope = sc, ob_revoked = False\<rparr>, sharing sh1)) = Some (ob, tb)"
    "table_ok (e_cls E) tb" "widens sc (ob_scope ob)" by (rule observe_shard[OF pr(2)])
  define sh2 where "sh2 = sh1\<lparr>sharing := tb, counts := (counts sh1)\<lparr>n_revocations := n_revocations (counts sh1) + (if ob_revoked ob then 1 else 0)\<rparr>\<rparr>"
  have inv2: "shard_inv E (c_max_variants cfg) sh2"
    by (rule shard_inv_frame[OF pr(2)]) (simp_all add: sh2_def ob(2))
  have lv2: "live E sh2 = live E sh1" by (rule live_cong) (simp add: sh2_def)
  have st2: "stable sh sh2" using keeps_stable[OF pr(4)] by (simp add: stable_def sh2_def)
  have sub: "live E sh2 \<subseteq> live E sh" unfolding lv2 pr(3) by blast
  define full where "full = (restoring \<and> (case prep of Inl _ \<Rightarrow> True | Inr (w, _, neg) \<Rightarrow> restore_full E cfg key (ob_scope ob) w neg sh2))"
  note ad = admit_locked_def[of E cfg key pol prep fp sc now org "(g, sh)", unfolded pr(1) Let_def prod.case,
      folded restoring_def lifetime_def, folded learning_def, unfolded ob(1) option.case prod.case, folded sh2_def, folded full_def]
  show ?thesis
  proof (cases full)
    case True
    then have "admit_locked E cfg key pol prep fp sc now org (g, sh) =
        Some (skipped (case prep of Inl r \<Rightarrow> r | Inr _ \<Rightarrow> Capacity), g1, sh2)" unfolding ad by (simp only: if_True)
    moreover have "origin_restore org \<noteq> None" using True by (simp add: full_def restoring_def)
    then have "admit_spec E cfg key pol prep sc now org (skipped r) (live E sh) sh2" for r
      unfolding admit_spec_def using ob(3) sub by (intro exI[of _ "ob_scope ob"] exI[of _ "live E sh2"]) auto
    ultimately show ?thesis using that inv2 st2 by blast
  next
    case False
    obtain g3 sh3 where r: "remove_all E (map (\<lambda>e. (e_negative e, e_id e)) (overlapping E key (ob_scope ob) sh2)) (g1, sh2) = (g3, sh3)"
      "shard_inv E (c_max_variants cfg) sh3" "live E sh3 \<subseteq> live E sh2" "cleared E key (ob_scope ob) (live E sh3)" "keeps sh2 sh3"
      by (rule clear_overlapping[OF inv2])
    have st3: "stable sh sh3" by (rule stable_trans[OF st2 keeps_stable[OF r(5)]])
    have sub3: "live E sh3 \<subseteq> live E sh" using r(3) sub by blast
    define sup where "sup = (map (\<lambda>e. (e_negative e, e_id e)) (overlapping E key (ob_scope ob) sh2) \<noteq> [])"
    note ad' = ad[unfolded r(1), folded sup_def]
    show ?thesis
    proof (cases prep)
      case (Inl rs)
      then have "admit_locked E cfg key pol prep fp sc now org (g, sh) = Some (rejected rs sup, g3, sh3)"
        unfolding ad' using False by (simp only: if_False sum.case)
      moreover have "admit_spec E cfg key pol prep sc now org (rejected rs sup) (live E sh) sh3"
        unfolding admit_spec_def using ob(3) sub3 r(4) by (intro exI[of _ "ob_scope ob"] exI[of _ "live E sh3"]) simp
      ultimately show ?thesis using that r(2) st3 by blast
    next
      case (Inr t)
      obtain w l neg where t: "t = (w, l, neg)" by (cases t)
      have "admit_locked E cfg key pol prep fp sc now org (g, sh) =
          place E cfg key (answer_record cfg pol w l neg (ob_scope ob) org) now sup (g3, sh3)"
        unfolding ad' answer_record_def using False by (simp only: Inr t if_False sum.case prod.case)
      moreover obtain d g' sh' where "place E cfg key (answer_record cfg pol w l neg (ob_scope ob) org) now sup (g3, sh3) = Some (d, g', sh')"
        "shard_inv E (c_max_variants cfg) sh'" "stable sh3 sh'" "admit_spec E cfg key pol (Inr (w, l, neg)) sc now org d (live E sh) sh'"
        by (rule place_answer[OF r(2) maxv r(4) sub3 ob(3)])
      ultimately show ?thesis using that stable_trans[OF st3] unfolding Inr t by metis
    qed
  qed
qed

end

end
