(* ===== verification/Cache_Run.thy ===== *)
theory Cache_Run
  imports Cache_Ops
begin

text \<open>
  Failures, lookups and invalidation of a shard, and the runs of a whole cache: any interleaving
  of its operations from an empty cache never panics and keeps the invariant of every shard.
\<close>

subsection \<open>Failures\<close>

definition failure_record :: "'w \<Rightarrow> nat \<Rightarrow> scope \<Rightarrow> failure \<Rightarrow> 'w stored" where
  "failure_record w lifetime sc f =
     \<lparr>s_wire = w, s_scope = sc, s_lifetime = from_secs lifetime, s_retention = from_secs lifetime, s_negative = True,
      s_failure = Some f, s_prefetch = False, s_refreshed = False, s_accessed = None\<rparr>"

lemma failure_record_sel [simp]:
  "s_wire (failure_record w lifetime sc f) = w" "s_scope (failure_record w lifetime sc f) = sc"
  "s_lifetime (failure_record w lifetime sc f) = from_secs lifetime" "s_retention (failure_record w lifetime sc f) = from_secs lifetime"
  "s_negative (failure_record w lifetime sc f)" "s_failure (failure_record w lifetime sc f) = Some f"
  by (simp_all add: failure_record_def)

text \<open>A fresh answer to the same question whose namespace overlaps.\<close>

definition answered :: "('n, 'w, 'd, 'l, 's) cache_env \<Rightarrow> 'n key \<Rightarrow> scope \<Rightarrow> instant \<Rightarrow> ('n, 'w) entry \<Rightarrow> bool" where
  "answered E key sc now x \<longleftrightarrow> e_key x = key \<and> scopes_overlap (e_net E) (e_scope x) sc \<and> e_failure x = None \<and>
     age_of now x < e_lifetime x \<and> age_of now x < e_retention x"

definition failure_spec ::
  "('n, 'w, 'd, 'l, 's) cache_env \<Rightarrow> 'n key \<Rightarrow> 'w \<Rightarrow> nat \<Rightarrow> scope \<Rightarrow> instant \<Rightarrow> failure \<Rightarrow> store_decision \<Rightarrow>
   ('n, 'w) entries \<Rightarrow> ('n, 'w, 'l, 's) shard \<Rightarrow> bool" where
  "failure_spec E key w lifetime sc now f d lv sh \<longleftrightarrow>
     stored_as E key (failure_record w lifetime sc f) now (admitted d) lv sh \<and>
     {x \<in> live E sh. \<not> e_negative x} = {x \<in> lv. \<not> e_negative x \<and> \<not> (e_key x = key \<and> e_retention x \<le> age_of now x)} \<and>
     (admitted d \<longrightarrow> (\<forall>x \<in> lv. \<not> answered E key sc now x))"

lemma stored_as_mono: "stored_as E key s now b lv sh \<Longrightarrow> lv \<subseteq> lv' \<Longrightarrow> stored_as E key s now b lv' sh"
  unfolding stored_as_def by (cases b) (simp_all, blast+)

context cache_world
begin

lemma failure_negative: "shard_inv E maxv sh \<Longrightarrow> e \<in> live E sh \<Longrightarrow> e_failure e \<noteq> None \<Longrightarrow> e_negative e"
  using coreD(14) unfolding shard_inv_def shard_core_def by blast

lemma clear_failures:
  assumes "shard_inv E maxv sh"
  obtains g' sh' where "remove_all E (map (\<lambda>i. (True, i)) (map e_id (filter (\<lambda>e. e_failure e \<noteq> None) (overlapping E key sc sh)))) (g, sh) = (g', sh')"
    and "shard_inv E maxv sh'" and "keeps sh sh'"
    and "live E sh' = {x \<in> live E sh. \<not> (e_key x = key \<and> e_failure x \<noteq> None \<and> scopes_overlap (e_net E) (e_scope x) sc)}"
proof -
  let ?P = "\<lambda>e. e_failure e \<noteq> None \<and> scopes_overlap (e_net E) (e_scope e) sc"
  have "map (\<lambda>i. (True, i)) (map e_id (filter (\<lambda>e. e_failure e \<noteq> None) (overlapping E key sc sh))) =
      map (\<lambda>e. (e_negative e, e_id e)) (filter ?P (bucket_of key sh))"
    unfolding overlapping_def filter_filter map_map comp_def
    using failure_negative[OF assms] bucket_live[OF assms, of key] by (intro map_cong filter_cong refl) auto
  with remove_bucket[OF assms, of ?P key g] that show ?thesis by (metis (no_types, lifting))
qed

lemma failure_locked_ok:
  assumes inv: "shard_inv E (c_max_variants cfg) sh" and maxv: "0 < c_max_variants cfg"
  obtains d g' sh' where "failure_locked E cfg key w lifetime sc now f (g, sh) = Some (d, g', sh')"
    and "shard_inv E (c_max_variants cfg) sh'" and "stable sh sh'"
    and "failure_spec E key w lifetime sc now f d (live E sh) sh'"
proof -
  obtain g1 sh1 where pr: "prune E key now (g, sh) = (g1, sh1)" "shard_inv E (c_max_variants cfg) sh1"
    "live E sh1 = {x \<in> live E sh. \<not> (e_key x = key \<and> e_retention x \<le> age_of now x)}" "keeps sh sh1"
    by (rule prune_ok[OF inv])
  have pos: "{x \<in> live E sh1. \<not> e_negative x} = {x \<in> live E sh. \<not> e_negative x \<and> \<not> (e_key x = key \<and> e_retention x \<le> age_of now x)}"
    unfolding pr(3) by blast
  define fresh where "fresh = list_ex (\<lambda>e. e_failure e = None \<and> age_of now e < e_lifetime e) (overlapping E key sc sh1)"
  note fd = failure_locked_def[of E cfg key w lifetime sc now f "(g, sh)", unfolded pr(1) Let_def prod.case, folded fresh_def failure_record_def]
  show ?thesis
  proof (cases fresh)
    case True
    then have "failure_locked E cfg key w lifetime sc now f (g, sh) = Some (skipped UncacheableResponse, g1, sh1)"
      unfolding fd by (simp only: if_True)
    moreover have "failure_spec E key w lifetime sc now f (skipped UncacheableResponse) (live E sh) sh1"
      unfolding failure_spec_def stored_as_def pos using pr(3) by simp
    ultimately show ?thesis using that pr(2) keeps_stable[OF pr(4)] by blast
  next
    case False
    have no_fresh: "\<not> answered E key sc now x" if "x \<in> live E sh" for x
      using False that unfolding fresh_def answered_def overlapping_def list_ex_iff by (auto simp: bucket_live[OF pr(2)] pr(3))
    obtain g2 sh2 where r: "remove_all E (map (\<lambda>i. (True, i)) (map e_id (filter (\<lambda>e. e_failure e \<noteq> None) (overlapping E key sc sh1)))) (g1, sh1) = (g2, sh2)"
      "shard_inv E (c_max_variants cfg) sh2" "keeps sh1 sh2"
      "live E sh2 = {x \<in> live E sh1. \<not> (e_key x = key \<and> e_failure x \<noteq> None \<and> scopes_overlap (e_net E) (e_scope x) sc)}"
      by (rule clear_failures[OF pr(2)])
    have pos2: "{x \<in> live E sh2. \<not> e_negative x} = {x \<in> live E sh1. \<not> e_negative x}"
      unfolding r(4) using failure_negative[OF pr(2)] by blast
    let ?s = "failure_record w lifetime sc f"
    have no: "no_overlap E key ?s (live E sh2)" unfolding no_overlap_def r(4) by (intro ballI impI) simp
    define sup where "sup = (map e_id (filter (\<lambda>e. e_failure e \<noteq> None) (overlapping E key sc sh1)) \<noteq> [])"
    obtain d g' sh' where p: "place E cfg key ?s now sup (g2, sh2) = Some (d, g', sh')"
      "shard_inv E (c_max_variants cfg) sh'" "stable sh2 sh'" "sharing sh' = sharing sh2"
      "stored_as E key ?s now (admitted d) (live E sh2) sh'"
      "{x \<in> live E sh'. e_negative x \<noteq> s_negative ?s} = {x \<in> live E sh2. e_negative x \<noteq> s_negative ?s}"
      by (rule place_ok[OF r(2) maxv no, where g = g2 and now = now and superseded = sup]) (simp, rule that)
    have "failure_locked E cfg key w lifetime sc now f (g, sh) = Some (d, g', sh')"
      unfolding fd r(1) sup_def[symmetric] using False p(1) by (simp only: if_False)
    moreover have "live E sh2 \<subseteq> live E sh" unfolding r(4) pr(3) by blast
    then have "failure_spec E key w lifetime sc now f d (live E sh) sh'"
      unfolding failure_spec_def using stored_as_mono[OF p(5)] no_fresh p(6) pos2 pos by simp
    ultimately show ?thesis
      using that p(2) stable_trans[OF stable_trans[OF keeps_stable[OF pr(4)] keeps_stable[OF r(3)]] p(3)] by blast
  qed
qed

end

subsection \<open>Lookups\<close>

definition best_for :: "('n, 'w, 'd, 'l, 's) cache_env \<Rightarrow> ('n, 'w) entries \<Rightarrow> 'n key \<Rightarrow> client_subnet option \<Rightarrow> instant \<Rightarrow> bool \<Rightarrow> ('n, 'w) entry \<Rightarrow> bool" where
  "best_for E lv key out now allow_stale e \<longleftrightarrow>
     e \<in> lv \<and> e_key e = key \<and> selectable (e_net E) out now allow_stale e \<and>
     (\<forall>x \<in> lv. e_key x = key \<and> selectable (e_net E) out now allow_stale x \<longrightarrow>
        (age_of now x < e_lifetime x, scope_prefix_len (e_scope x)) \<le> (age_of now e < e_lifetime e, scope_prefix_len (e_scope e)))"

context cache_world
begin

lemma select_Some:
  assumes "shard_inv E maxv sh" and "select E sh key out now allow_stale = Some (neg, i)"
  obtains e where "best_for E (live E sh) key out now allow_stale e" "neg = e_negative e" "i = e_id e"
    "lru_peek (e_lru E) i (p_lru (part neg sh)) = Some e"
proof -
  let ?es = "filter (selectable (e_net E) out now allow_stale) (bucket_of key sh)"
  let ?f = "\<lambda>e. (age_of now e < e_lifetime e, scope_prefix_len (e_scope e))"
  from assms(2) obtain e where m: "max_by_key ?f ?es = Some e" and e: "neg = e_negative e" "i = e_id e"
    unfolding select_def by (auto simp: map_option_eq_Some)
  have "e \<in> set ?es" by (rule max_by_key_in[OF m])
  then have le: "e \<in> live E sh" "e_key e = key" "selectable (e_net E) out now allow_stale e"
    by (simp_all add: bucket_live[OF assms(1)])
  have "?f x \<le> ?f e" if "x \<in> live E sh" "e_key x = key \<and> selectable (e_net E) out now allow_stale x" for x
    by (rule max_by_key_ge[OF m]) (use that in \<open>simp add: bucket_live[OF assms(1)]\<close>)
  then have "best_for E (live E sh) key out now allow_stale e" unfolding best_for_def using le by blast
  moreover have "lru_peek (e_lru E) (e_id e) (p_lru (part (e_negative e) sh)) = Some e"
    using le(1) live_peek[OF inv_lru_wf[OF assms(1)]] by blast
  ultimately show ?thesis using that e by blast
qed

lemma select_None:
  assumes "shard_inv E maxv sh" and "select E sh key out now allow_stale = None" and "x \<in> live E sh" and "e_key x = key"
  shows "\<not> selectable (e_net E) out now allow_stale x"
proof -
  from assms(2) have "filter (selectable (e_net E) out now allow_stale) (bucket_of key sh) = []"
    unfolding select_def by simp
  then have "\<forall>x \<in> set (bucket_of key sh). \<not> selectable (e_net E) out now allow_stale x" by (simp add: filter_empty_conv)
  with assms(3,4) show ?thesis by (simp add: bucket_live[OF assms(1)])
qed

lemma observe_hit_ok:
  assumes inv: "shard_inv E maxv sh" and "lru_peek (e_lru E) i (p_lru (part neg sh)) = Some e"
  obtains g' sh' where "observe_hit E neg i now (g, sh) = Some (e, g', sh')" and "shard_inv E maxv sh'"
    and "live E sh' = live E sh" and "stable sh sh'"
proof -
  have mo: "map_of (lru_iter (e_lru E) (p_lru (part neg sh))) i = Some e" using assms(2) by (simp add: ents.peek_eq)
  from ents.get_Some[OF this] obtain l where l: "lru_get (e_lru E) i (p_lru (part neg sh)) = Some (e, l)"
    "lru_iter (e_lru E) l = (i, e) # del_key i (lru_iter (e_lru E) (p_lru (part neg sh)))" by (elim exE conjE)
  have same: "set (lru_iter (e_lru E) l) = set (lru_iter (e_lru E) (p_lru (part neg sh)))"
    using mo ents.iter_distinct[of "p_lru (part neg sh)"] unfolding l(2)
    by (auto simp: del_key_def dest: map_of_SomeD eq_key_imp_eq_value)
  define sh1 where "sh1 = (set_part neg ((part neg sh)\<lparr>p_lru := l\<rparr>) sh)\<lparr>clock := clock sh + 1,
      cells := (cells sh)(i := (cells sh i)\<lparr>accessed := clock sh + 1\<rparr>)\<rparr>"
  define sh2 where "sh2 = snd (settle_refresh i sh1)"
  obtain r where "settle_refresh i sh1 = (r, sh2)" unfolding sh2_def by (metis prod.collapse)
  then obtain g' n where o: "observe_hit E neg i now (g, sh) = Some (e, g', sh2\<lparr>counts := n\<rparr>)"
    unfolding observe_hit_def sh1_def by (simp only: l(1) Let_def prod.case option.case)
  define sh' where "sh' = sh2\<lparr>counts := n\<rparr>"
  have p: "part n sh' = (if n = neg then (part n sh)\<lparr>p_lru := l\<rparr> else part n sh)" for n
    by (simp add: sh'_def sh2_def sh1_def)
  have f: "held sh' = held sh" "clock sh' = clock sh + 1" "sharing sh' = sharing sh" "learned sh' = learned sh"
      "failures sh' = failures sh" "buckets sh' = buckets sh"
    by (simp_all add: sh'_def sh2_def sh1_def)
  have ll: "set (lru_list E n sh') = set (lru_list E n sh)" for n
    by (simp add: lru_list_def p same)
  have "table_ok (e_cls E) (sharing sh)" using inv by (simp add: shard_inv_def)
  then have "shard_inv E maxv sh'" by (intro shard_inv_frame[OF inv]) (simp_all add: ll f, simp_all add: p)
  moreover have "live E sh' = live E sh" by (rule live_cong) (rule ll)
  moreover have "stable sh sh'" by (simp add: stable_def f p)
  ultimately show ?thesis using that o unfolding sh'_def by blast
qed

lemma hold_ok:
  assumes "shard_inv E maxv sh" and "e \<in> live E sh"
  shows "shard_inv E maxv (sh\<lparr>held := e # held sh\<rparr>)" and "live E (sh\<lparr>held := e # held sh\<rparr>) = live E sh"
proof -
  show lv: "live E (sh\<lparr>held := e # held sh\<rparr>) = live E sh" by (rule live_cong) simp
  have wf: "lru_wf E (sh\<lparr>held := e # held sh\<rparr>) = lru_wf E sh" by (rule lru_wf_cong) simp
  have "shard_core E maxv (live E sh) sh" using assms(1) by (simp add: shard_inv_def)
  from core_hold[OF this[unfolded shard_core_def] assms(2)]
  have "shard_core E maxv (live E sh) (sh\<lparr>held := e # held sh\<rparr>)" by (simp add: shard_core_def)
  with assms(1) show "shard_inv E maxv (sh\<lparr>held := e # held sh\<rparr>)" by (simp add: shard_inv_def lv wf)
qed

end

text \<open>What a lookup under the lock yields: the best entry for the client, held from now on, or
  nothing when no live entry can be served.\<close>

definition lookup_spec ::
  "('n, 'w, 'd, 'l, 's) cache_env \<Rightarrow> 'n key \<Rightarrow> client_subnet option \<Rightarrow> instant \<Rightarrow> bool \<Rightarrow> ('n, 'w) entry option \<Rightarrow>
   ('n, 'w, 'l, 's) shard \<Rightarrow> ('n, 'w, 'l, 's) shard \<Rightarrow> bool" where
  "lookup_spec E key out now allow_stale r sh sh' \<longleftrightarrow>
     (case r of
        None \<Rightarrow> held sh' = held sh \<and> live E sh' \<subseteq> live E sh \<and>
          (\<forall>x \<in> live E sh. e_key x = key \<longrightarrow> \<not> selectable (e_net E) out now allow_stale x)
      | Some e \<Rightarrow> held sh' = e # held sh \<and> live E sh' = live E sh \<and> best_for E (live E sh) key out now allow_stale e)"

definition budgets_kept :: "('n, 'w, 'l, 's) shard \<Rightarrow> ('n, 'w, 'l, 's) shard \<Rightarrow> bool" where
  "budgets_kept sh sh' \<longleftrightarrow>
     (\<forall>n. max_entries (part n sh') = max_entries (part n sh) \<and> max_bytes (part n sh') = max_bytes (part n sh))"

lemma stable_budgets: "stable sh sh' \<Longrightarrow> budgets_kept sh sh'"
  by (simp add: stable_def budgets_kept_def)

lemma set_remove1_cases: "set (remove1 e xs) = (if e \<in> set (remove1 e xs) then set xs else set xs - {e})"
proof (rule set_eqI)
  fix x
  show "x \<in> set (remove1 e xs) \<longleftrightarrow> x \<in> (if e \<in> set (remove1 e xs) then set xs else set xs - {e})"
    using set_remove1_subset[of e xs] by (cases "x = e") (auto simp: in_set_remove1)
qed

context cache_world
begin

lemma lookup_locked_ok:
  assumes inv: "shard_inv E maxv sh"
  obtains r g' sh' where "lookup_locked E key out now allow_stale obs (g, sh) = Some (r, g', sh')"
    and "shard_inv E maxv sh'" and "budgets_kept sh sh'" and "lookup_spec E key out now allow_stale r sh sh'"
proof (cases "select E sh key out now allow_stale")
  case None
  note no = select_None[OF inv None]
  obtain g1 sh1 where pr: "prune E key now (g, sh) = (g1, sh1)" "shard_inv E maxv sh1"
    "live E sh1 = {x \<in> live E sh. \<not> (e_key x = key \<and> e_retention x \<le> age_of now x)}" "keeps sh sh1"
    by (rule prune_ok[OF inv])
  define sh2 where "sh2 = (if allow_stale then sh1 else sh1\<lparr>counts := (counts sh1)\<lparr>n_misses := n_misses (counts sh1) + 1\<rparr>\<rparr>)"
  have lv: "live E sh2 = live E sh1" by (rule live_cong) (simp add: sh2_def)
  have ll: "lookup_locked E key out now allow_stale obs (g, sh) = (if obs then Some (None, g1, sh2) else Some (None, g, sh))"
    unfolding lookup_locked_def prod.case None option.case pr(1) Let_def sh2_def ..
  show ?thesis
  proof (cases obs)
    case True
    have "lookup_spec E key out now allow_stale None sh sh2"
      unfolding lookup_spec_def option.case lv using no pr(3,4) by (auto simp: sh2_def keeps_def)
    moreover have "shard_inv E maxv sh2" using pr(2) by (simp add: sh2_def)
    moreover have "budgets_kept sh sh2" using pr(4) by (simp add: budgets_kept_def keeps_def sh2_def)
    ultimately show ?thesis using that ll True by metis
  next
    case False
    have "lookup_spec E key out now allow_stale None sh sh" unfolding lookup_spec_def option.case using no by blast
    then show ?thesis using that ll False inv stable_budgets[OF stable_refl] by metis
  qed
next
  case (Some p)
  obtain neg i where p: "p = (neg, i)" by (cases p)
  obtain e where e: "best_for E (live E sh) key out now allow_stale e" "neg = e_negative e" "i = e_id e"
    and pk: "lru_peek (e_lru E) i (p_lru (part neg sh)) = Some e"
    by (rule select_Some[OF inv Some[unfolded p]])
  have le: "e \<in> live E sh" using e(1) unfolding best_for_def by blast
  obtain g1 sh1 where o: "observe_hit E neg i now (g, sh) = Some (e, g1, sh1)" "shard_inv E maxv sh1" "live E sh1 = live E sh" "stable sh sh1"
    by (rule observe_hit_ok[OF inv pk])
  have ll: "lookup_locked E key out now allow_stale obs (g, sh) =
      (if obs then Some (Some e, g1, sh1\<lparr>held := e # held sh1\<rparr>) else Some (Some e, g, sh\<lparr>held := e # held sh\<rparr>))"
    unfolding lookup_locked_def prod.case Some p option.case o(1) pk ..
  have sp: "lookup_spec E key out now allow_stale (Some e) sh (x\<lparr>held := e # held x\<rparr>)"
    if "held x = held sh" "live E x = live E sh" "shard_inv E maxv x" for x
    unfolding lookup_spec_def option.case using e(1) that hold_ok(2)[OF that(3), of e] le by simp
  show ?thesis
  proof (cases obs)
    case True
    have "held sh1 = held sh" "budgets_kept sh (sh1\<lparr>held := e # held sh1\<rparr>)"
      using o(4) by (simp_all add: stable_def budgets_kept_def)
    with True ll sp[OF _ o(3,2)] hold_ok(1)[OF o(2)] le o(3) that show ?thesis by metis
  next
    case False
    have "budgets_kept sh (sh\<lparr>held := e # held sh\<rparr>)" by (simp add: budgets_kept_def)
    with False ll sp[OF refl refl inv] hold_ok(1)[OF inv le] that show ?thesis by metis
  qed
qed

lemma release_ok:
  assumes inv: "shard_inv E maxv sh" and e: "e \<in> set (held sh)"
  shows "shard_inv E maxv (release E e sh)" and "live E (release E e sh) = live E sh"
    and "held (release E e sh) = remove1 e (held sh)" and "budgets_kept sh (release E e sh)"
proof -
  define sh1 where "sh1 = sh\<lparr>held := remove1 e (held sh)\<rparr>"
  have wf: "lru_wf E sh" and core: "shard_core E maxv (live E sh) sh" and tab: "table_ok (e_cls E) (sharing sh)"
    and ne: "\<forall>k. fmlookup (buckets sh) k \<noteq> Some []"
    using inv by (simp_all add: shard_inv_def)
  have r: "release E e sh = (if e \<in> set (held sh1) \<or> e \<in> live E sh then sh1 else entry_drop e sh1)"
    unfolding release_def Let_def sh1_def live_peek[OF wf] by simp
  have ll: "lru_list E n (release E e sh) = lru_list E n sh" for n
    unfolding r by (simp add: sh1_def lru_list_def)
  show lv: "live E (release E e sh) = live E sh" by (rule live_cong) (simp add: ll)
  have wf': "lru_wf E (release E e sh)" using lru_wf_cong[of E "release E e sh" sh] ll wf by simp
  show h: "held (release E e sh) = remove1 e (held sh)" unfolding r by (simp add: sh1_def)
  show "budgets_kept sh (release E e sh)" unfolding r by (simp add: sh1_def budgets_kept_def)
  have "shard_core E maxv (live E sh) (release E e sh)"
  proof (cases "e \<in> set (held sh1)")
    case True
    then have "set (held sh1) = set (held sh)" using set_remove1_cases[of e "held sh"] by (simp add: sh1_def)
    with True core show ?thesis unfolding r shard_core_def by (simp add: sh1_def)
  next
    case False
    then have s: "set (held sh1) = set (held sh) - {e}" using set_remove1_cases[of e "held sh"] by (simp add: sh1_def)
    have ch: "(\<lambda>n. charged (part n (release E e sh))) = (if e \<in> live E sh then (\<lambda>n. charged (part n sh))
        else (\<lambda>n. charged (part n sh))(e_negative e := charged (part (e_negative e) sh) - e_charge e))"
      unfolding r using False by (rule_tac ext) (simp add: sh1_def)
    have f: "set (held (release E e sh)) = set (held sh) - {e}" "clock (release E e sh) = clock sh" "learned (release E e sh) = learned sh"
      "failures (release E e sh) = failures sh" "bucket_of k (release E e sh) = bucket_of k sh"
      "max_entries (part n (release E e sh)) = max_entries (part n sh)" "max_bytes (part n (release E e sh)) = max_bytes (part n sh)" for k n
      unfolding r using s by (simp_all add: sh1_def)
    show ?thesis using core_release[OF core[unfolded shard_core_def] e] unfolding shard_core_def ch f .
  qed
  moreover have "buckets (release E e sh) = buckets sh" "sharing (release E e sh) = sharing sh" unfolding r by (simp_all add: sh1_def)
  ultimately show "shard_inv E maxv (release E e sh)" using wf' tab ne unfolding shard_inv_def lv by simp
qed

lemma invalidate_shard_ok:
  assumes "shard_inv E maxv sh"
  obtains n g' sh' where "invalidate_shard E name kind sc (g, sh) = (n, g', sh')" and "shard_inv E maxv sh'"
    and "live E sh' = {x \<in> live E sh. \<not> entry_matches name kind sc x}" and "stable sh sh'"
    and "n = card {x \<in> live E sh. entry_matches name kind sc x}"
proof -
  let ?P = "entry_matches name kind sc"
  define sel where "sel neg = map (\<lambda>p. (neg, fst p)) (filter (\<lambda>p. ?P (snd p)) (lru_list E neg sh))" for neg
  have wf: "lru_wf E sh" by (rule inv_lru_wf[OF assms])
  obtain g1 sh1 where r: "remove_all E (sel False @ sel True) (g, sh) = (g1, sh1)" "shard_inv E maxv sh1"
    "live E sh1 = {x \<in> live E sh. (e_negative x, e_id x) \<notin> set (sel False @ sel True)}" "keeps sh sh1"
    by (rule remove_all_ok[OF assms])
  define sh2 where "sh2 = sh1\<lparr>sharing := invalidate_table (e_cls E) (sharing sh1) name kind sc\<rparr>"
  have i: "invalidate_shard E name kind sc (g, sh) = (length (sel False @ sel True), g1, sh2)"
    unfolding invalidate_shard_def Let_def prod.case lru_list_def[symmetric] sel_def[symmetric] r(1) sh2_def ..
  have memb: "(n, j) \<in> set (sel False @ sel True) \<longleftrightarrow> (\<exists>y \<in> live E sh. ?P y \<and> e_negative y = n \<and> e_id y = j)" for n j
  proof -
    have "(n, j) \<in> set (sel False @ sel True) \<longleftrightarrow> (\<exists>y. (j, y) \<in> set (lru_list E n sh) \<and> ?P y)"
      by (cases n) (auto simp: sel_def image_iff)
    also have "\<dots> \<longleftrightarrow> (\<exists>y \<in> live E sh. ?P y \<and> e_negative y = n \<and> e_id y = j)"
      using wf unfolding live_def lru_wf_def by blast
    finally show ?thesis .
  qed
  have mem: "(e_negative x, e_id x) \<in> set (sel False @ sel True) \<longleftrightarrow> ?P x" if "x \<in> live E sh" for x
    unfolding memb using live_same_id[OF assms _ that] that by blast
  have lv: "live E sh2 = {x \<in> live E sh. \<not> ?P x}"
    using live_cong[of E sh2 sh1] mem unfolding r(3) by (simp add: sh2_def) blast
  have "table_ok (e_cls E) (sharing sh1)" using r(2) by (simp add: shard_inv_def)
  then have "shard_inv E maxv sh2"
    by (intro shard_inv_frame[OF r(2)]) (simp_all add: sh2_def cls.invalidate_ok)
  moreover have "stable sh sh2" using keeps_stable[OF r(4)] by (simp add: stable_def sh2_def)
  moreover have "length (sel False @ sel True) = card {x \<in> live E sh. ?P x}"
  proof -
    have "distinct (map (Pair n) (map fst (filter (\<lambda>p. ?P (snd p)) (lru_list E n sh))))" for n
      unfolding distinct_map[of "Pair n"] by (intro conjI distinct_map_filter lru_distinct) (simp add: inj_on_def)
    then have "distinct (sel n)" for n by (simp add: sel_def comp_def)
    moreover have "set (sel False) \<inter> set (sel True) = {}" by (auto simp: sel_def)
    ultimately have "distinct (sel False @ sel True)" by simp
    moreover have "set (sel False @ sel True) = (\<lambda>x. (e_negative x, e_id x)) ` {x \<in> live E sh. ?P x}"
      by (rule set_eqI) (simp only: split_paired_all memb image_iff Bex_def mem_Collect_eq prod.inject, blast)
    moreover have "inj_on (\<lambda>x. (e_negative x, e_id x)) {x \<in> live E sh. ?P x}"
      by (rule inj_onI) (use live_same_id[OF assms] in simp)
    ultimately show ?thesis
      using card_image[of "\<lambda>x. (e_negative x, e_id x)" "{x \<in> live E sh. ?P x}"] distinct_card[of "sel False @ sel True"] by simp
  qed
  ultimately show ?thesis using that i lv by blast
qed

end

end
