(* ===== verification/Cache_System.thy ===== *)
theory Cache_System
  imports Cache_Run
begin

text \<open>
  The whole cache: the invariant of all shards with the entries readers hold, any interleaving of
  lookups, stores, failures and invalidations from a new cache, and the properties of the
  cache as its clients see it.
\<close>

subsection \<open>The invariant of a cache\<close>

definition home :: "('n, 'w, 'd, 'l, 's) cache_env \<Rightarrow> cache_config \<Rightarrow> 'n key \<Rightarrow> nat" where
  "home E cfg key = e_hash E key mod shard_count cfg"

definition holders :: "('n, 'w, 'd, 'l, 's) cache_env \<Rightarrow> cache_config \<Rightarrow> nat \<Rightarrow> ('n, 'w) entry list \<Rightarrow> ('n, 'w) entry multiset" where
  "holders E cfg i es = mset (filter (\<lambda>e. home E cfg (e_key e) = i) es)"

definition cache_inv :: "('n, 'w, 'd, 'l, 's) cache_env \<Rightarrow> cache_config \<Rightarrow> ('n, 'w, 'l, 's) cache \<Rightarrow> ('n, 'w) entry list \<Rightarrow> bool" where
  "cache_inv E cfg c es \<longleftrightarrow> config c = cfg \<and> length (shards c) = shard_count cfg \<and>
     (\<forall>i < shard_count cfg. shard_inv E (c_max_variants cfg) (shards c ! i) \<and>
        budgets_kept (shard_new E cfg i) (shards c ! i) \<and> mset (held (shards c ! i)) = holders E cfg i es)"

lemma shard_count_pos [simp]: "0 < shard_count cfg"
  unfolding shard_count_def Let_def by (rule less_le_trans[OF zero_less_one max.cobounded2])

lemma home_less [simp]: "home E cfg key < shard_count cfg"
  by (simp add: home_def)

lemma budgets_kept_trans [trans]: "budgets_kept a b \<Longrightarrow> budgets_kept b c \<Longrightarrow> budgets_kept a c"
  by (simp add: budgets_kept_def)

lemma cache_invD:
  assumes "cache_inv E cfg c es"
  shows "config c = cfg" "length (shards c) = shard_count cfg" "shard_index E c key = home E cfg key"
    and "shard_inv E (c_max_variants cfg) (shards c ! home E cfg key)"
    and "mset (held (shards c ! home E cfg key)) = holders E cfg (home E cfg key) es"
  using assms home_less[of E cfg key] by (simp_all add: cache_inv_def shard_index_def home_def)

lemma with_shard_ok:
  assumes inv: "cache_inv E cfg c es" and f: "f (stats c, shards c ! home E cfg key) = Some (a, g, sh)"
    and sh: "shard_inv E (c_max_variants cfg) sh" "budgets_kept (shards c ! home E cfg key) sh"
    and held: "mset (held sh) = holders E cfg (home E cfg key) es'"
    and other: "\<And>j. j \<noteq> home E cfg key \<Longrightarrow> holders E cfg j es' = holders E cfg j es"
  shows "with_shard E key f c = Some (a, c\<lparr>stats := g, shards := (shards c)[home E cfg key := sh]\<rparr>)"
    and "cache_inv E cfg (c\<lparr>stats := g, shards := (shards c)[home E cfg key := sh]\<rparr>) es'"
proof -
  note D = cache_invD[OF inv]
  have "length (shards c) \<noteq> 0" using D(2) shard_count_pos[of cfg] by linarith
  then show "with_shard E key f c = Some (a, c\<lparr>stats := g, shards := (shards c)[home E cfg key := sh]\<rparr>)"
    unfolding with_shard_def Let_def D(3) f by simp
  show "cache_inv E cfg (c\<lparr>stats := g, shards := (shards c)[home E cfg key := sh]\<rparr>) es'"
    unfolding cache_inv_def
  proof (intro conjI allI impI)
    fix i assume i: "i < shard_count cfg"
    have old: "shard_inv E (c_max_variants cfg) (shards c ! i)" "budgets_kept (shard_new E cfg i) (shards c ! i)"
      "mset (held (shards c ! i)) = holders E cfg i es"
      using inv i by (simp_all add: cache_inv_def)
    let ?s = "shards (c\<lparr>stats := g, shards := (shards c)[home E cfg key := sh]\<rparr>) ! i"
    have s: "?s = (if i = home E cfg key then sh else shards c ! i)" using i D(2) by (simp add: nth_list_update)
    show "shard_inv E (c_max_variants cfg) ?s" unfolding s using sh(1) old(1) by simp
    show "budgets_kept (shard_new E cfg i) ?s" unfolding s using budgets_kept_trans[OF _ sh(2)] old(2) by (cases "i = home E cfg key") simp_all
    show "mset (held ?s) = holders E cfg i es'" unfolding s using held other[of i] old(3) by simp
  qed (simp_all add: D)
qed

subsection \<open>The operations of a cache\<close>

abbreviation query_policy :: "('n, 'w, 'd, 'l, 's) cache_env \<Rightarrow> ('n, 'w, 'l, 's) cache \<Rightarrow> 'n key \<Rightarrow> 'n message \<Rightarrow> policy" where
  "query_policy E c key query \<equiv> policy_for (e_dns E) (config c) (rules c) key (q_name (hd (queries query)))"

text \<open>What an admitted answer leaves in the shard of its key: an entry with the prepared message
  and no other entry whose namespace overlaps.\<close>

definition admit_post ::
  "('n, 'w, 'd, 'l, 's) cache_env \<Rightarrow> ('n, 'w, 'l, 's) cache \<Rightarrow> 'n message \<Rightarrow> 'n message \<Rightarrow> scope \<Rightarrow> instant \<Rightarrow> nat \<Rightarrow> origin \<Rightarrow>
   ('n, 'w, 'l, 's) cache \<Rightarrow> bool" where
  "admit_post E c query response sc now ep org c' \<longleftrightarrow>
     (\<exists>key sc' w l neg i L. key_of (e_dns E) query = Some (Some key) \<and> ep = epoch c \<and>
        \<not> bypass (query_policy E c key query) \<and>
        prepared E (hd (queries query)) response (query_policy E c key query) org = Inr (w, l, neg) \<and>
        widens sc sc' \<and> cleared E key sc' L \<and>
        live E (shards c' ! home E (config c) key) =
          insert (entry_of key (answer_record (config c) (query_policy E c key query) w l neg sc' org)
            (charge (e_dns E) (e_overhead E) w key) now i) L)"

lemma key_of_nonempty: "queries query \<noteq> [] \<Longrightarrow> key_of D query \<noteq> None"
  by (cases "queries query") (simp_all add: key_of_def)

lemma with_shard_same:
  assumes inv: "cache_inv E cfg c es" and f: "f (stats c, shards c ! home E cfg key) = Some (a, g, sh)"
    and "shard_inv E (c_max_variants cfg) sh" "stable (shards c ! home E cfg key) sh"
  obtains c' where "with_shard E key f c = Some (a, c')" and "cache_inv E cfg c' es"
    and "epoch c' = epoch c" "rules c' = rules c" and "shards c' ! home E cfg key = sh"
    and "\<forall>j. j \<noteq> home E cfg key \<longrightarrow> shards c' ! j = shards c ! j"
proof -
  have "mset (held sh) = holders E cfg (home E cfg key) es"
    using assms(4) cache_invD(5)[OF inv, of key] by (simp add: stable_def)
  note w = with_shard_ok[where f = f and es' = es, OF inv f assms(3) stable_budgets[OF assms(4)] this refl]
  show ?thesis by (rule that[OF w]) (use cache_invD(2)[OF inv] in simp_all)
qed

context cache_world
begin

lemma admit_step:
  assumes inv: "cache_inv E cfg c es" and maxv: "0 < c_max_variants cfg" and q: "queries query \<noteq> []"
  obtains d c' where "admit E c query response sc now ep org = Some (d, c')" and "cache_inv E cfg c' es"
    and "epoch c' = epoch c" "rules c' = rules c"
    and "admitted d \<longrightarrow> admit_post E c query response sc now ep org c'"
proof -
  note D = cache_invD[OF inv]
  show ?thesis
  proof (cases "key_of (e_dns E) query")
    case None
    with key_of_nonempty[OF q] show ?thesis by metis
  next
    case (Some k)
    show ?thesis
    proof (cases k)
      case None
      with Some have "admit E c query response sc now ep org = Some (skipped (query_rejection query), c)"
        by (simp only: admit_def option.case)
      then show ?thesis by (rule that) (simp_all add: inv)
    next
      case key: (Some key)
      define pol where "pol = query_policy E c key query"
      define prep where "prep = prepared E (hd (queries query)) response pol org"
      define fp where "fp = (if (sharing_enabled (c_sharing cfg) \<and> origin_restore org = None) \<and> (case sc of ExactSource _ \<Rightarrow> True | _ \<Rightarrow> False)
                       then fingerprint (e_dns E) (e_enc E) (hd (queries query)) response else None)"
      define f where "f = (\<lambda>(g, sh).
                  if ep \<noteq> epoch c
                  then Some (skipped EpochChanged, g, if origin_restore org = None then reject sh else sh)
                  else admit_locked E cfg key pol prep fp sc now org (g, sh))"
      have ad: "admit E c query response sc now ep org = (if bypass pol then Some (skipped PolicyDisabled, c)
        else case admit_refusal response of Some r \<Rightarrow> Some (skipped r, c) | None \<Rightarrow> with_shard E key f c)"
        unfolding admit_def Some key option.case Let_def pol_def prep_def fp_def f_def D(1) ..
      show ?thesis
      proof (cases "bypass pol \<or> admit_refusal response \<noteq> None")
        case True
        then obtain r where "admit E c query response sc now ep org = Some (skipped r, c)"
          unfolding ad using that by (cases "bypass pol"; cases "admit_refusal response") auto
        then show ?thesis by (rule that) (simp_all add: inv)
      next
        case False
        then have ad': "admit E c query response sc now ep org = with_shard E key f c" unfolding ad by simp
        show ?thesis
        proof (cases "ep = epoch c")
          case False
          then have "f (stats c, shards c ! home E cfg key) = Some (skipped EpochChanged, stats c,
              if origin_restore org = None then reject (shards c ! home E cfg key) else shards c ! home E cfg key)"
            by (simp add: f_def)
          then obtain c' where "with_shard E key f c = Some (skipped EpochChanged, c')" "cache_inv E cfg c' es"
            "epoch c' = epoch c" "rules c' = rules c"
            by (rule with_shard_same[OF inv]) (use D(4)[of key] in simp_all)
          then show ?thesis by (intro that[of "skipped EpochChanged" c']) (simp_all add: ad')
        next
          case True
          obtain d g sh where ok: "admit_locked E cfg key pol prep fp sc now org (stats c, shards c ! home E cfg key) = Some (d, g, sh)"
            "shard_inv E (c_max_variants cfg) sh" "stable (shards c ! home E cfg key) sh"
            "admit_spec E cfg key pol prep sc now org d (live E (shards c ! home E cfg key)) sh"
            by (rule admit_locked_ok[OF D(4) maxv])
          have fe: "f (stats c, shards c ! home E cfg key) = Some (d, g, sh)" using True ok(1) by (simp add: f_def)
          obtain c' where w: "with_shard E key f c = Some (d, c')" "cache_inv E cfg c' es" "epoch c' = epoch c" "rules c' = rules c"
            "shards c' ! home E cfg key = sh"
            by (rule with_shard_same[where f = f, OF inv fe ok(2,3)])
          have "admit_post E c query response sc now ep org c'" if adm: "admitted d"
          proof -
            obtain sc' L w l neg where "widens sc sc'" "cleared E key sc' L" "prep = Inr (w, l, neg)"
              "live E sh = insert (entry_of key (answer_record cfg pol w l neg sc' org) (charge (e_dns E) (e_overhead E) w key) now (clock sh)) L"
              using ok(4) unfolding admit_spec_def if_P[OF adm] using adm by blast
            with Some key True False w(5) D(1) show ?thesis
              unfolding admit_post_def prep_def pol_def by blast
          qed
          with w ad' that show ?thesis by simp
        qed
      qed
    qed
  qed
qed

end

definition failure_post ::
  "('n, 'w, 'd, 'l, 's) cache_env \<Rightarrow> ('n, 'w, 'l, 's) cache \<Rightarrow> 'n message \<Rightarrow> scope \<Rightarrow> instant \<Rightarrow> nat \<Rightarrow> failure \<Rightarrow>
   store_decision \<Rightarrow> ('n, 'w, 'l, 's) cache \<Rightarrow> bool" where
  "failure_post E c query sc now ep f d c' \<longleftrightarrow>
     (\<exists>key w lifetime. key_of (e_dns E) query = Some (Some key) \<and> ep = epoch c \<and> 0 < lifetime \<and>
        lifetime \<le> c_servfail_ttl_secs (config c) \<and>
        failure_spec E key w lifetime sc now f d (live E (shards c ! home E (config c) key)) (shards c' ! home E (config c) key) \<and>
        (\<forall>j. j \<noteq> home E (config c) key \<longrightarrow> shards c' ! j = shards c ! j))"

text \<open>A lookup under the lock of its shard: a new reader when an entry is selected.\<close>

definition lookup_post ::
  "('n, 'w, 'd, 'l, 's) cache_env \<Rightarrow> ('n, 'w, 'l, 's) cache \<Rightarrow> 'n message \<Rightarrow> client_subnet option \<Rightarrow> instant \<Rightarrow> bool \<Rightarrow>
   'n lookup_result + ('n, 'w) entry \<Rightarrow> bool" where
  "lookup_post E c query out now allow_stale r \<longleftrightarrow>
     (case r of
        Inl l \<Rightarrow> l_hit l = None \<and>
          (\<forall>key. key_of (e_dns E) query = Some (Some key) \<and> \<not> bypass (query_policy E c key query) \<longrightarrow>
             l = lookup_empty LMiss None \<and>
             (\<forall>x \<in> live E (shards c ! home E (config c) key). e_key x = key \<longrightarrow> \<not> selectable (e_net E) out now allow_stale x))
      | Inr e \<Rightarrow> \<exists>key. key_of (e_dns E) query = Some (Some key) \<and> \<not> bypass (query_policy E c key query) \<and>
          best_for E (live E (shards c ! home E (config c) key)) key out now allow_stale e)"

context cache_world
begin

lemma failure_step:
  assumes inv: "cache_inv E cfg c es" and maxv: "0 < c_max_variants cfg" and q: "queries query \<noteq> []"
  obtains d c' where "admit_failure E c query response sc now ep f = Some (d, c')" and "cache_inv E cfg c' es"
    and "epoch c' = epoch c" "rules c' = rules c"
    and "failure_post E c query sc now ep f d c' \<or> \<not> admitted d \<and> (\<forall>i. live E (shards c' ! i) = live E (shards c ! i))"
proof -
  note D = cache_invD[OF inv]
  obtain k where k: "key_of (e_dns E) query = Some k" using key_of_nonempty[OF q] by blast
  show ?thesis
  proof (cases k)
    case None
    with k have "admit_failure E c query response sc now ep f = Some (skipped (query_rejection query), c)"
      by (simp only: admit_failure_def option.case)
    then show ?thesis by (rule that) (simp_all add: inv)
  next
    case key: (Some key)
    define pol where "pol = query_policy E c key query"
    define lifetime where "lifetime = min (c_servfail_ttl_secs cfg) (negative_ttl_cap_secs pol)"
    define refused where "refused \<longleftrightarrow> response_code response \<noteq> ServFail \<or> truncation response \<or> signature response \<noteq> None \<or>
                   \<not> superseding_edns response \<or> lifetime = 0"
    define h where "h w = (\<lambda>(g, sh). if ep \<noteq> epoch c then Some (skipped EpochChanged, g, reject sh)
                 else failure_locked E cfg key w lifetime sc now f (g, sh))" for w
    have ad: "admit_failure E c query response sc now ep f =
        (if bypass pol then Some (skipped PolicyDisabled, c) else if refused then Some (skipped UncacheableResponse, c)
         else case to_vec (e_dns E) (failure_message (e_dns E) query response) of
             None \<Rightarrow> Some (skipped UncacheableResponse, c) | Some w \<Rightarrow> with_shard E key (h w) c)"
      unfolding admit_failure_def k key option.case Let_def pol_def lifetime_def refused_def h_def D(1) ..
    show ?thesis
    proof (cases "bypass pol \<or> refused \<or> to_vec (e_dns E) (failure_message (e_dns E) query response) = None")
      case True
      then obtain r where "admit_failure E c query response sc now ep f = Some (skipped r, c)"
        unfolding ad using that by (cases "bypass pol"; cases refused) auto
      then show ?thesis by (rule that) (simp_all add: inv)
    next
      case False
      then obtain w where ad': "admit_failure E c query response sc now ep f = with_shard E key (h w) c" and life: "0 < lifetime"
        unfolding ad by (auto simp: refused_def)
      show ?thesis
      proof (cases "ep = epoch c")
        case False
        then have "h w (stats c, shards c ! home E cfg key) = Some (skipped EpochChanged, stats c, reject (shards c ! home E cfg key))"
          by (simp add: h_def)
        then obtain c' where r: "with_shard E key (h w) c = Some (skipped EpochChanged, c')" "cache_inv E cfg c' es"
          "epoch c' = epoch c" "rules c' = rules c" "shards c' ! home E cfg key = reject (shards c ! home E cfg key)"
          "\<forall>j. j \<noteq> home E cfg key \<longrightarrow> shards c' ! j = shards c ! j"
          by (rule with_shard_same[OF inv]) (use D(4)[of key] in simp_all)
        have "live E (shards c' ! i) = live E (shards c ! i)" for i
          using r(5,6) by (cases "i = home E cfg key") simp_all
        with r show ?thesis by (intro that[of "skipped EpochChanged" c']) (simp_all add: ad')
      next
        case True
        obtain d g sh where ok: "failure_locked E cfg key w lifetime sc now f (stats c, shards c ! home E cfg key) = Some (d, g, sh)"
          "shard_inv E (c_max_variants cfg) sh" "stable (shards c ! home E cfg key) sh"
          "failure_spec E key w lifetime sc now f d (live E (shards c ! home E cfg key)) sh"
          by (rule failure_locked_ok[OF D(4) maxv])
        have fe: "h w (stats c, shards c ! home E cfg key) = Some (d, g, sh)" using True ok(1) by (simp add: h_def)
        obtain c' where s: "with_shard E key (h w) c = Some (d, c')" "cache_inv E cfg c' es" "epoch c' = epoch c" "rules c' = rules c"
          "shards c' ! home E cfg key = sh" "\<forall>j. j \<noteq> home E cfg key \<longrightarrow> shards c' ! j = shards c ! j"
          by (rule with_shard_same[where f = "h w", OF inv fe ok(2,3)])
        have "lifetime \<le> c_servfail_ttl_secs cfg" by (simp add: lifetime_def)
        then have "failure_post E c query sc now ep f d c'"
          unfolding failure_post_def using k key True life s(5,6) ok(4) D(1) by blast
        with s ad' that show ?thesis by simp
      qed
    qed
  qed
qed

lemma holders_Cons: "holders E cfg i (e # es) = (if home E cfg (e_key e) = i then add_mset e (holders E cfg i es) else holders E cfg i es)"
  by (simp add: holders_def)

lemma lookup_begin_step:
  assumes inv: "cache_inv E cfg c es" and q: "queries query \<noteq> []"
  obtains r c' where "lookup_begin E c query out now allow_stale obs = Some (r, c')"
    and "cache_inv E cfg c' (case r of Inl _ \<Rightarrow> es | Inr e \<Rightarrow> e # es)"
    and "epoch c' = epoch c" "rules c' = rules c" and "lookup_post E c query out now allow_stale r"
proof -
  note D = cache_invD[OF inv]
  have byp: "cache_inv E cfg (bypassed obs allow_stale c) es" "epoch (bypassed obs allow_stale c) = epoch c"
    "rules (bypassed obs allow_stale c) = rules c"
    using inv by (simp_all add: bypassed_def cache_inv_def)
  obtain k where k: "key_of (e_dns E) query = Some k" using key_of_nonempty[OF q] by blast
  show ?thesis
  proof (cases "\<exists>key. k = Some key \<and> \<not> bypass (query_policy E c key query)")
    case False
    then obtain o' d where "lookup_begin E c query out now allow_stale obs = Some (Inl (lookup_empty o' d), bypassed obs allow_stale c)"
      unfolding lookup_begin_def k option.case by (cases k) auto
    moreover have "lookup_post E c query out now allow_stale (Inl (lookup_empty o' d))"
      unfolding lookup_post_def sum.case k option.inject using False by (intro conjI allI impI) (simp add: lookup_empty_def, blast+)
    ultimately show ?thesis using that byp by simp
  next
    case True
    then obtain key where key: "k = Some key" "\<not> bypass (query_policy E c key query)" by blast
    let ?f = "lookup_locked E key out now allow_stale obs" and ?sh = "shards c ! home E cfg key"
    have lb: "lookup_begin E c query out now allow_stale obs =
        map_option (\<lambda>(r, c'). (case r of None \<Rightarrow> Inl (lookup_empty LMiss None) | Some e \<Rightarrow> Inr e, c')) (with_shard E key ?f c)"
      unfolding lookup_begin_def k key(1) option.case using key(2) by (simp only: if_False)
    obtain r g sh where ok: "?f (stats c, ?sh) = Some (r, g, sh)" "shard_inv E (c_max_variants cfg) sh" "budgets_kept ?sh sh"
      "lookup_spec E key out now allow_stale r ?sh sh"
      by (rule lookup_locked_ok[OF D(4)])
    let ?es = "case r of None \<Rightarrow> es | Some e \<Rightarrow> e # es"
    have ke: "home E cfg (e_key e) = home E cfg key" if "r = Some e" for e
      using ok(4) that unfolding lookup_spec_def best_for_def by simp
    have h1: "mset (held sh) = holders E cfg (home E cfg key) ?es"
      using ok(4) D(5)[of key] ke by (cases r) (simp_all add: lookup_spec_def holders_Cons)
    have h2: "holders E cfg j ?es = holders E cfg j es" if "j \<noteq> home E cfg key" for j
      using that ke by (cases r) (auto simp: holders_Cons)
    note w = with_shard_ok[where f = ?f and es' = ?es, OF inv ok(1-3) h1 h2]
    let ?c = "c\<lparr>stats := g, shards := (shards c)[home E cfg key := sh]\<rparr>"
    show ?thesis
    proof (cases r)
      case None
      then have "lookup_post E c query out now allow_stale (Inl (lookup_empty LMiss None))"
        using ok(4) unfolding lookup_post_def lookup_spec_def sum.case k key(1) D(1) by (simp add: lookup_empty_def)
      with None lb w show ?thesis by (intro that[of "Inl (lookup_empty LMiss None)" ?c]) simp_all
    next
      case (Some e)
      then have "lookup_post E c query out now allow_stale (Inr e)"
        using ok(4) key(2) unfolding lookup_post_def lookup_spec_def sum.case k key(1) D(1) by simp
      with Some lb w show ?thesis by (intro that[of "Inr e" ?c]) simp_all
    qed
  qed
qed

lemma lookup_end_step:
  assumes inv: "cache_inv E cfg c es" and e: "e \<in> set es"
  obtains c' n where "lookup_end E c query e now obs = Some (lookup_reply E (config c) query e now n, c')"
    and "cache_inv E cfg c' (remove1 e es)" and "epoch c' = epoch c" "rules c' = rules c"
    and "\<And>i. i < shard_count cfg \<Longrightarrow> live E (shards c' ! i) = live E (shards c ! i)"
proof -
  note D = cache_invD[OF inv]
  let ?sh = "shards c ! home E cfg (e_key e)"
  define f where "f = (\<lambda>(g, sh :: ('n, 'w, 'l, 's) shard).
       (let cell = cells sh (e_id e); nhits = (if obs then hits cell + 1 else hits cell);
            sh1 = (if obs then sh\<lparr>cells := (cells sh)(e_id e := cell\<lparr>hits := nhits\<rparr>)\<rparr> else sh)
        in Some (lookup_reply E (config c) query e now nhits, g :: cache_stats, release E e sh1)))"
  define sh1 where "sh1 = (if obs then ?sh\<lparr>cells := (cells ?sh)(e_id e := (cells ?sh (e_id e))\<lparr>hits := hits (cells ?sh (e_id e)) + 1\<rparr>)\<rparr> else ?sh)"
  have le: "lookup_end E c query e now obs = with_shard E (e_key e) f c" unfolding lookup_end_def f_def ..
  obtain n where fe: "f (stats c, ?sh) = Some (lookup_reply E (config c) query e now n, stats c, release E e sh1)"
    by (cases obs) (simp_all add: f_def sh1_def Let_def)
  have inv1: "shard_inv E (c_max_variants cfg) sh1" using D(4) by (simp add: sh1_def)
  have held1: "held sh1 = held ?sh" by (simp add: sh1_def)
  have "e \<in># holders E cfg (home E cfg (e_key e)) es" using e by (simp add: holders_def)
  then have eh: "e \<in> set (held sh1)" using D(5)[of "e_key e"] held1 by (metis set_mset_mset)
  note r = release_ok[OF inv1 eh]
  have b: "budgets_kept ?sh (release E e sh1)" using r(4) by (simp add: sh1_def budgets_kept_def)
  have rm: "holders E cfg j (remove1 e es) = (if j = home E cfg (e_key e) then holders E cfg j es - {#e#} else holders E cfg j es)" for j
    using e by (auto simp: holders_def filter_remove1 remove1_idem)
  have h1: "mset (held (release E e sh1)) = holders E cfg (home E cfg (e_key e)) (remove1 e es)"
    unfolding r(3) held1 rm using D(5)[of "e_key e"] by simp
  have h2: "holders E cfg j (remove1 e es) = holders E cfg j es" if "j \<noteq> home E cfg (e_key e)" for j using that by (simp add: rm)
  note w = with_shard_ok[where f = f and es' = "remove1 e es", OF inv fe r(1) b h1 h2]
  have "live E sh1 = live E ?sh" by (rule live_cong) (simp add: sh1_def)
  with r(2) D(2) have "live E ((shards c)[home E cfg (e_key e) := release E e sh1] ! i) = live E (shards c ! i)" if "i < shard_count cfg" for i
    using that by (simp add: nth_list_update)
  then show ?thesis by (intro that[OF trans[OF le w(1)] w(2)]) simp_all
qed

end

end
