(* ===== verification/Cache_Trace.thy ===== *)
theory Cache_Trace
  imports Cache_System
begin

text \<open>
  Runs of the cache: any interleaving of lookups, stores, failures and invalidations, with
  readers that finish in any order, from a new cache. The contract of the cache follows:
  budgets, one answer per client, serving what was stored, the epoch of an invalidation,
  failures that never displace answers.
\<close>

subsection \<open>Invalidation\<close>

context cache_world
begin

lemma invalidate_shards_ok:
  assumes "\<forall>sh \<in> set shs. shard_inv E maxv sh"
  obtains n g' shs' where "invalidate_shards E name kind sc g shs = (n, g', shs')" and "length shs' = length shs"
    and "\<And>i. i < length shs \<Longrightarrow> shard_inv E maxv (shs' ! i) \<and> stable (shs ! i) (shs' ! i) \<and>
      live E (shs' ! i) = {x \<in> live E (shs ! i). \<not> entry_matches name kind sc x}"
proof -
  have "\<exists>n g' shs'. invalidate_shards E name kind sc g shs = (n, g', shs') \<and>
      list_all2 (\<lambda>sh sh'. shard_inv E maxv sh' \<and> stable sh sh' \<and> live E sh' = {x \<in> live E sh. \<not> entry_matches name kind sc x}) shs shs'"
    using assms
  proof (induction shs arbitrary: g)
    case Nil
    then show ?case by simp
  next
    case (Cons sh shs)
    obtain n g1 sh1 where one: "invalidate_shard E name kind sc (g, sh) = (n, g1, sh1)" "shard_inv E maxv sh1"
      "live E sh1 = {x \<in> live E sh. \<not> entry_matches name kind sc x}" "stable sh sh1"
      by (rule invalidate_shard_ok[OF bspec[OF Cons.prems list.set_intros(1)]])
    have "\<forall>sh \<in> set shs. shard_inv E maxv sh" using Cons.prems by simp
    from Cons.IH[OF this, of g1] obtain m g2 shs' where rest: "invalidate_shards E name kind sc g1 shs = (m, g2, shs')"
      "list_all2 (\<lambda>sh sh'. shard_inv E maxv sh' \<and> stable sh sh' \<and> live E sh' = {x \<in> live E sh. \<not> entry_matches name kind sc x}) shs shs'"
      by (elim exE conjE)
    have "invalidate_shards E name kind sc g (sh # shs) = (n + m, g2, sh1 # shs')" by (simp add: one(1) rest(1))
    with one(2-4) rest(2) show ?case by simp
  qed
  then show ?thesis using that by (auto simp: list_all2_conv_all_nth)
qed

lemma invalidate_step:
  assumes inv: "cache_inv E cfg c es"
  obtains n c' where "invalidate E c name kind sc = (n, c')" and "cache_inv E cfg c' es"
    and "epoch c' = epoch c + 1" "rules c' = rules c"
    and "\<And>i. i < shard_count cfg \<Longrightarrow>
      live E (shards c' ! i) = {x \<in> live E (shards c ! i). \<not> entry_matches (map_option (key_name (e_dns E)) name) kind sc x}"
proof -
  have "\<forall>sh \<in> set (shards c). shard_inv E (c_max_variants cfg) sh"
    using inv unfolding cache_inv_def by (metis in_set_conv_nth)
  then obtain n g' shs' where r: "invalidate_shards E (map_option (key_name (e_dns E)) name) kind sc (stats c) (shards c) = (n, g', shs')"
    and len: "length shs' = length (shards c)"
    and ok: "\<And>i. i < length (shards c) \<Longrightarrow> shard_inv E (c_max_variants cfg) (shs' ! i) \<and> stable (shards c ! i) (shs' ! i) \<and>
      live E (shs' ! i) = {x \<in> live E (shards c ! i). \<not> entry_matches (map_option (key_name (e_dns E)) name) kind sc x}"
    by (rule invalidate_shards_ok[where name = "map_option (key_name (e_dns E)) name" and kind = kind and sc = sc and g = "stats c"])
       (rule that, assumption+)
  have i: "invalidate E c name kind sc = (n, c\<lparr>epoch := epoch c + 1, stats := g', shards := shs'\<rparr>)"
    by (simp add: invalidate_def r)
  have "cache_inv E cfg (c\<lparr>epoch := epoch c + 1, stats := g', shards := shs'\<rparr>) es"
    using inv ok len unfolding cache_inv_def by (auto simp: stable_def budgets_kept_def)
  then show ?thesis by (rule that[OF i]) (use ok cache_invD(2)[OF inv] in simp_all)
qed

end

subsection \<open>A new cache\<close>

lemma part_shard_new [simp]:
  "p_lru (part n (shard_new E cfg i)) = lru_unbounded (e_lru E)" "charged (part n (shard_new E cfg i)) = 0"
  by (simp_all add: part_def shard_new_def Let_def partition_new_def)

lemma shard_new_sel [simp]:
  "buckets (shard_new E cfg i) = fmempty" "held (shard_new E cfg i) = []" "learned (shard_new E cfg i) = 0"
  "failures (shard_new E cfg i) = 0" "bucket_of k (shard_new E cfg i) = []" "clock (shard_new E cfg i) = 0"
  "sharing (shard_new E cfg i) = table_new (e_cls E) (capacity_for (c_max_entries cfg) (shard_count cfg))"
  by (simp_all add: shard_new_def Let_def bucket_of_def)

context cache_world
begin

lemma shard_new_inv: "shard_inv E maxv (shard_new E cfg i)"
proof -
  have ll: "lru_list E n (shard_new E cfg i) = []" for n by (simp add: lru_list_def ents.iter_unbounded)
  then have lv: "live E (shard_new E cfg i) = {}" by (simp add: live_def)
  have "table_ok (e_cls E) (sharing (shard_new E cfg i))" by (simp add: table_new_def table_ok_def cls.iter_unbounded)
  moreover have "lru_wf E (shard_new E cfg i)" by (simp add: lru_wf_def ll)
  ultimately show ?thesis unfolding shard_inv_def shard_core_def lv by (simp add: inv_core_def)
qed

lemma cache_new_inv:
  assumes "cache_new E cfg = Some c"
  shows "cache_inv E cfg c []" "epoch c = 0"
proof -
  from assms obtain rs where c: "c = \<lparr>config = cfg, shards = map (shard_new E cfg) [0..<shard_count cfg], rules = rs, epoch = 0,
      stats = \<lparr>bypasses = 0, refresh_useful = 0, refresh_unused = 0\<rparr>, diag = diagnostics_default\<rparr>"
    by (auto simp: cache_new_def)
  show "cache_inv E cfg c []" unfolding c cache_inv_def by (simp add: shard_new_inv budgets_kept_def holders_def)
  show "epoch c = 0" by (simp add: c)
qed

end

subsection \<open>Runs\<close>

text \<open>The operations of a running cache, with the pending readers: a lookup that found an entry
  finishes later, in any order.\<close>

type_synonym ('n, 'w) reader = "'n message \<times> ('n, 'w) entry \<times> instant \<times> bool"

datatype 'n cache_event =
    BeginLookup "'n message" "client_subnet option" instant bool bool
  | EndLookup nat
  | StoreAnswer "'n message" "'n message" scope instant nat
  | StoreRefresh "'n message" "'n message" scope instant nat
  | StoreRestored "'n message" "'n message" scope instant nat restore
  | StoreFailure "'n message" "'n message" scope instant nat failure
  | UnusableScope
  | Invalidate "'n option" "record_type option" "scope option"

fun event_query :: "'n cache_event \<Rightarrow> 'n message option" where
  "event_query (BeginLookup query _ _ _ _) = Some query"
| "event_query (StoreAnswer query _ _ _ _) = Some query"
| "event_query (StoreRefresh query _ _ _ _) = Some query"
| "event_query (StoreRestored query _ _ _ _ _) = Some query"
| "event_query (StoreFailure query _ _ _ _ _) = Some query"
| "event_query _ = None"

text \<open>Requests carry a question.\<close>

definition has_question :: "'n cache_event \<Rightarrow> bool" where
  "has_question ev = (case event_query ev of None \<Rightarrow> True | Some query \<Rightarrow> queries query \<noteq> [])"

definition keep_readers ::
  "('n, 'w) reader list \<Rightarrow> ('a \<times> ('n, 'w, 'l, 's) cache) option \<Rightarrow> (('n, 'w, 'l, 's) cache \<times> ('n, 'w) reader list) option" where
  "keep_readers rs r = map_option (\<lambda>(_, c). (c, rs)) r"

fun cache_exec ::
  "('n, 'w, 'd, 'l, 's) cache_env \<Rightarrow> ('n, 'w, 'l, 's) cache \<times> ('n, 'w) reader list \<Rightarrow> 'n cache_event \<Rightarrow>
   (('n, 'w, 'l, 's) cache \<times> ('n, 'w) reader list) option" where
  "cache_exec E (c, rs) (BeginLookup query out now allow_stale obs) =
     (case lookup_begin E c query out now allow_stale obs of
        None \<Rightarrow> None
      | Some (Inl _, c') \<Rightarrow> Some (c', rs)
      | Some (Inr e, c') \<Rightarrow> Some (c', (query, e, now, obs) # rs))"
| "cache_exec E (c, rs) (EndLookup k) =
     (if k < length rs
      then (case rs ! k of (query, e, now, obs) \<Rightarrow>
              map_option (\<lambda>(_, c'). (c', take k rs @ drop (Suc k) rs)) (lookup_end E c query e now obs))
      else Some (c, rs))"
| "cache_exec E (c, rs) (StoreAnswer query response sc now ep) =
     keep_readers rs (insert_decision_if_epoch E c query response sc now ep)"
| "cache_exec E (c, rs) (StoreRefresh query response sc now ep) =
     keep_readers rs (insert_refresh_if_epoch E c query response sc now ep)"
| "cache_exec E (c, rs) (StoreRestored query response sc now ep r) =
     keep_readers rs (admit E c query response sc now ep (ORestore r))"
| "cache_exec E (c, rs) (StoreFailure query response sc now ep f) =
     keep_readers rs (insert_failure_if_epoch E c query response sc now ep f)"
| "cache_exec E (c, rs) UnusableScope = Some (snd (record_unusable_scope c), rs)"
| "cache_exec E (c, rs) (Invalidate name kind sc) = Some (snd (invalidate E c name kind sc), rs)"

definition run_inv :: "('n, 'w, 'd, 'l, 's) cache_env \<Rightarrow> cache_config \<Rightarrow> ('n, 'w, 'l, 's) cache \<times> ('n, 'w) reader list \<Rightarrow> bool" where
  "run_inv E cfg st \<longleftrightarrow> cache_inv E cfg (fst st) (map (fst \<circ> snd) (snd st))"

lemma cache_inv_diag [simp]: "cache_inv E cfg (c\<lparr>diag := x\<rparr>) es = cache_inv E cfg c es"
  by (simp add: cache_inv_def)

lemma cache_inv_perm: "mset es = mset es' \<Longrightarrow> cache_inv E cfg c es = cache_inv E cfg c es'"
proof -
  assume "mset es = mset es'"
  then have "holders E cfg i es = holders E cfg i es'" for i unfolding holders_def by (metis mset_filter)
  then show ?thesis by (simp add: cache_inv_def)
qed

lemma mset_drop_nth: "k < length xs \<Longrightarrow> mset (take k xs @ drop (Suc k) xs) = mset xs - {#xs ! k#}"
  by (metis add_mset_remove_trivial id_take_nth_drop mset.simps(2) mset_append union_mset_add_mset_right)

lemma count_store_keep: "keep_readers rs (count_store r) = map_option (\<lambda>(d, c). (c\<lparr>diag := diagnostics_store (diag c) d\<rparr>, rs)) r"
  by (cases r) (auto simp: keep_readers_def count_store_def)

context cache_world
begin

lemma store_step:
  assumes "cache_inv E cfg c (map (fst \<circ> snd) rs)" and "0 < c_max_variants cfg" and "queries query \<noteq> []"
  shows "\<exists>st'. keep_readers rs (count_store (admit E c query response sc now ep org)) = Some st' \<and> run_inv E cfg st'"
    and "\<exists>st'. keep_readers rs (admit E c query response sc now ep org) = Some st' \<and> run_inv E cfg st'"
proof -
  obtain d c' where a: "admit E c query response sc now ep org = Some (d, c')" "cache_inv E cfg c' (map (fst \<circ> snd) rs)"
    by (rule admit_step[OF assms])
  show "\<exists>st'. keep_readers rs (count_store (admit E c query response sc now ep org)) = Some st' \<and> run_inv E cfg st'"
    unfolding a(1) count_store_keep using a(2) by (simp add: run_inv_def)
  show "\<exists>st'. keep_readers rs (admit E c query response sc now ep org) = Some st' \<and> run_inv E cfg st'"
    unfolding a(1) keep_readers_def using a(2) by (simp add: run_inv_def)
qed

lemma exec_begin:
  assumes "cache_inv E cfg c (map (fst \<circ> snd) rs)" and "queries query \<noteq> []"
  shows "\<exists>st'. cache_exec E (c, rs) (BeginLookup query out now allow_stale obs) = Some st' \<and> run_inv E cfg st'"
proof -
  obtain r c' where r: "lookup_begin E c query out now allow_stale obs = Some (r, c')"
    "cache_inv E cfg c' (case r of Inl _ \<Rightarrow> map (fst \<circ> snd) rs | Inr e \<Rightarrow> e # map (fst \<circ> snd) rs)"
    by (rule lookup_begin_step[OF assms])
  show ?thesis
  proof (cases r)
    case (Inl l)
    with r show ?thesis by (simp add: run_inv_def)
  next
    case (Inr e)
    with r show ?thesis by (simp add: run_inv_def)
  qed
qed

lemma exec_end:
  assumes inv: "cache_inv E cfg c (map (fst \<circ> snd) rs)" and k: "k < length rs"
  shows "\<exists>st'. cache_exec E (c, rs) (EndLookup k) = Some st' \<and> run_inv E cfg st'"
proof -
  obtain query e now obs where r: "rs ! k = (query, e, now, obs)" by (rule prod_cases4[of "rs ! k"])
  have e: "map (fst \<circ> snd) rs ! k = e" using k r by simp
  then have "e \<in> set (map (fst \<circ> snd) rs)" using k nth_mem[of k "map (fst \<circ> snd) rs"] by simp
  then obtain c' n where le: "lookup_end E c query e now obs = Some (lookup_reply E (config c) query e now n, c')"
    "cache_inv E cfg c' (remove1 e (map (fst \<circ> snd) rs))" by (rule lookup_end_step[OF inv])
  have eq: "mset (map (fst \<circ> snd) (take k rs @ drop (Suc k) rs)) = mset (remove1 e (map (fst \<circ> snd) rs))"
    using mset_drop_nth[of k "map (fst \<circ> snd) rs", unfolded e] k by (simp only: take_map drop_map map_append length_map mset_remove1)
  have ci: "cache_inv E cfg c' (map (fst \<circ> snd) (take k rs @ drop (Suc k) rs))"
    by (rule cache_inv_perm[OF eq, THEN iffD2, OF le(2)])
  have "cache_exec E (c, rs) (EndLookup k) = Some (c', take k rs @ drop (Suc k) rs)"
    unfolding cache_exec.simps r prod.case le(1) using k by (simp only: if_True option.map prod.case)
  with ci show ?thesis by (simp add: run_inv_def)
qed

lemma exec_step:
  assumes inv: "run_inv E cfg st" and maxv: "0 < c_max_variants cfg" and q: "has_question ev"
  shows "\<exists>st'. cache_exec E st ev = Some st' \<and> run_inv E cfg st'"
proof -
  obtain c rs where st: "st = (c, rs)" by (cases st)
  have ci: "cache_inv E cfg c (map (fst \<circ> snd) rs)" using inv by (simp add: run_inv_def st)
  show ?thesis
  proof (cases ev)
    case (BeginLookup query out now allow_stale obs)
    with q have "queries query \<noteq> []" by (simp add: has_question_def)
    then show ?thesis unfolding st BeginLookup by (rule exec_begin[OF ci])
  next
    case (EndLookup k)
    show ?thesis
    proof (cases "k < length rs")
      case True
      then show ?thesis unfolding st EndLookup by (rule exec_end[OF ci])
    next
      case False
      then show ?thesis unfolding st EndLookup using inv by (simp add: st)
    qed
  next
    case (StoreFailure query response sc now ep f)
    with q have "queries query \<noteq> []" by (simp add: has_question_def)
    then obtain d c' where "admit_failure E c query response sc now ep f = Some (d, c')" "cache_inv E cfg c' (map (fst \<circ> snd) rs)"
      by (rule failure_step[OF ci maxv])
    then show ?thesis unfolding st StoreFailure
      by (simp add: insert_failure_if_epoch_def count_store_keep run_inv_def)
  next
    case (Invalidate name kind sc)
    obtain n c' where "invalidate E c name kind sc = (n, c')" "cache_inv E cfg c' (map (fst \<circ> snd) rs)"
      by (rule invalidate_step[OF ci])
    then show ?thesis unfolding st Invalidate by (simp add: run_inv_def)
  next
    case UnusableScope
    then show ?thesis unfolding st using ci by (simp add: record_unusable_scope_def Let_def run_inv_def)
  next
    case (StoreAnswer query response sc now ep)
    with q have "queries query \<noteq> []" by (simp add: has_question_def)
    then show ?thesis unfolding st StoreAnswer cache_exec.simps insert_decision_if_epoch_def by (rule store_step(1)[OF ci maxv])
  next
    case (StoreRefresh query response sc now ep)
    with q have "queries query \<noteq> []" by (simp add: has_question_def)
    then show ?thesis unfolding st StoreRefresh cache_exec.simps insert_refresh_if_epoch_def by (rule store_step(1)[OF ci maxv])
  next
    case (StoreRestored query response sc now ep r)
    with q have "queries query \<noteq> []" by (simp add: has_question_def)
    then show ?thesis unfolding st StoreRestored cache_exec.simps by (rule store_step(2)[OF ci maxv])
  qed
qed

end

subsection \<open>Budgets\<close>

lemma portion_sum:
  assumes "0 < n"
  shows "(\<Sum>i<n. portion n a i) = a"
proof -
  have "{i. i < n \<and> i < a mod n} = {..<a mod n}" using assms by (auto intro: less_trans mod_less_divisor)
  then have "(\<Sum>i<n. (if i < a mod n then 1 else 0)) = a mod n"
    using sum.inter_filter[of "{..<n}" "\<lambda>_. 1::nat" "\<lambda>i. i < a mod n"] by (simp add: Collect_conj_eq lessThan_def)
  then show ?thesis by (simp add: portion_def sum.distrib mult.commute)
qed

lemma sum_list_nth_le:
  assumes "\<And>i. i < length xs \<Longrightarrow> f (xs ! i) \<le> b i"
  shows "sum_list (map f xs) \<le> (\<Sum>i<length xs. (b i :: nat))"
  unfolding sum_list_sum_nth atLeast0LessThan length_map by (rule sum_mono) (simp add: assms)

lemma shard_new_budgets:
  "max_entries (part neg (shard_new E cfg i)) = portion (shard_count cfg) (if neg then negative_entries cfg else c_max_entries cfg - negative_entries cfg) i"
  "max_bytes (part neg (shard_new E cfg i)) = portion (shard_count cfg) (if neg then negative_bytes cfg else c_max_bytes cfg - negative_bytes cfg) i"
  by (simp_all add: part_def shard_new_def Let_def partition_new_def)

lemma negative_share: "c_negative_percent cfg \<le> 100 \<Longrightarrow> negative_entries cfg \<le> c_max_entries cfg \<and> negative_bytes cfg \<le> c_max_bytes cfg"
proof -
  assume "c_negative_percent cfg \<le> 100"
  then have "a * c_negative_percent cfg div 100 \<le> a" for a
    by (metis div_le_mono mult_le_mono2 nonzero_mult_div_cancel_right zero_neq_numeral)
  then show ?thesis by (simp add: negative_entries_def negative_bytes_def)
qed

context cache_world
begin

lemma part_bounds:
  assumes "shard_inv E maxv sh"
  shows "lru_len (e_lru E) (p_lru (part neg sh)) \<le> max_entries (part neg sh)" and "charged (part neg sh) \<le> max_bytes (part neg sh)"
proof -
  have "shard_core E maxv (live E sh) sh" using assms by (simp add: shard_inv_def)
  note C = coreD[OF this[unfolded shard_core_def]]
  show "lru_len (e_lru E) (p_lru (part neg sh)) \<le> max_entries (part neg sh)"
    unfolding card_part[OF inv_lru_wf[OF assms]] by (rule C(10))
  show "charged (part neg sh) \<le> max_bytes (part neg sh)" by (rule C(12))
qed

lemma cache_budgets:
  assumes inv: "cache_inv E cfg c es" and "c_negative_percent cfg \<le> 100" and "snapshot_entries E c = (p, n, b)"
  shows "p + n \<le> c_max_entries cfg \<and> n \<le> negative_entries cfg \<and> b \<le> c_max_bytes cfg"
proof -
  let ?k = "shard_count cfg"
  have k: "length (shards c) = ?k" by (rule cache_invD(2)[OF inv])
  have sh: "shard_inv E (c_max_variants cfg) (shards c ! i)" "budgets_kept (shard_new E cfg i) (shards c ! i)" if "i < ?k" for i
    using inv that by (simp_all add: cache_inv_def)
  have e: "lru_len (e_lru E) (p_lru (part neg (shards c ! i))) \<le> max_entries (part neg (shard_new E cfg i))"
    and m: "charged (part neg (shards c ! i)) \<le> max_bytes (part neg (shard_new E cfg i))" if "i < ?k" for neg i
    using part_bounds[OF sh(1)[OF that], of neg] sh(2)[OF that] by (simp_all add: budgets_kept_def)
  have lens: "sum_list (map (\<lambda>sh. lru_len (e_lru E) (p_lru (part neg sh))) (shards c)) \<le>
      (if neg then negative_entries cfg else c_max_entries cfg - negative_entries cfg)" for neg
    using sum_list_nth_le[where f = "\<lambda>sh. lru_len (e_lru E) (p_lru (part neg sh))", OF e[unfolded k[symmetric]]]
    unfolding k shard_new_budgets portion_sum[OF shard_count_pos] .
  have byts: "sum_list (map (\<lambda>sh. charged (part neg sh)) (shards c)) \<le>
      (if neg then negative_bytes cfg else c_max_bytes cfg - negative_bytes cfg)" for neg
    using sum_list_nth_le[where f = "\<lambda>sh. charged (part neg sh)", OF m[unfolded k[symmetric]]]
    unfolding k shard_new_budgets portion_sum[OF shard_count_pos] .
  have "p = sum_list (map (\<lambda>sh. lru_len (e_lru E) (p_lru (part False sh))) (shards c))"
    "n = sum_list (map (\<lambda>sh. lru_len (e_lru E) (p_lru (part True sh))) (shards c))"
    "b = sum_list (map (\<lambda>sh. charged (part False sh)) (shards c)) + sum_list (map (\<lambda>sh. charged (part True sh)) (shards c))"
    using assms(3) by (simp_all add: snapshot_entries_def sum_list_addf part_def)
  then show ?thesis using lens[of False] lens[of True] byts[of False] byts[of True] negative_share[OF assms(2)] by auto
qed

end

subsection \<open>A running cache\<close>

locale cache_run = cache_world E
  for E :: "('n, 'w, 'd, 'l, 's) cache_env" +
  fixes cfg :: cache_config
  assumes variants: "0 < c_max_variants cfg"

sublocale cache_run \<subseteq> running: guarded_panic_free "cache_exec E" "run_inv E cfg" has_question
  by unfold_locales (rule exec_step[OF _ variants])

context cache_run
begin

lemma run_from_new:
  assumes "cache_new E cfg = Some c" and "list_all has_question evs"
  obtains c' rs where "run_steps (cache_exec E) (c, []) evs = Some (c', rs)" and "cache_inv E cfg c' (map (fst \<circ> snd) rs)"
proof -
  have "run_inv E cfg (c, [])" using cache_new_inv(1)[OF assms(1)] by (simp add: run_inv_def)
  from running.guarded_run[OF this assms(2)] obtain st where "run_steps (cache_exec E) (c, []) evs = Some st" "run_inv E cfg st"
    by blast
  then show ?thesis using that[of "fst st" "snd st"] by (simp add: run_inv_def)
qed

end

definition demo_env :: "(ref_name, ref_name message, bytes, (nat \<times> (ref_name, ref_name message) entry) list,
    (ref_name sh_class \<times> phase) list) cache_env" where
  "demo_env = \<lparr>e_net = cidr, e_dns = ref_dns, e_dec = list_dec, e_lru = recency_list, e_cls = recency_list,
     e_hash = (\<lambda>_. 0), e_enc = ref_enc, e_overhead = 64\<rparr>"

lemma demo_env_sel [simp]:
  "e_net demo_env = cidr" "e_dns demo_env = ref_dns" "e_dec demo_env = list_dec" "e_lru demo_env = recency_list"
  "e_cls demo_env = recency_list" "e_hash demo_env k = 0" "e_enc demo_env = ref_enc" "e_overhead demo_env = 64"
  by (simp_all add: demo_env_def)

lemma demo_world: "cache_world demo_env"
  unfolding cache_world_def class_table_def demo_env_sel
  by (intro conjI cidr_net.ip_network_axioms ref_lib.dns_library_axioms recency.lru_cache_axioms)

interpretation demo_cache: cache_run demo_env demo_cache_config
  by (rule cache_run.intro[OF demo_world]) (simp add: cache_run_axioms_def demo_cache_config_def)

end
