(* ===== verification/Cache_Contract.thy ===== *)
theory Cache_Contract
  imports Cache_Trace
begin

text \<open>
  What the cache promises its clients, over every reachable state of a running cache.
\<close>

subsection \<open>Reachable caches\<close>

inductive cache_reach ::
  "('n, 'w, 'd, 'l, 's) cache_env \<Rightarrow> cache_config \<Rightarrow> ('n, 'w, 'l, 's) cache \<Rightarrow> ('n, 'w) reader list \<Rightarrow> bool" for E cfg where
  new: "cache_new E cfg = Some c \<Longrightarrow> cache_reach E cfg c []"
| step: "cache_reach E cfg c rs \<Longrightarrow> has_question ev \<Longrightarrow> cache_exec E (c, rs) ev = Some (c', rs') \<Longrightarrow> cache_reach E cfg c' rs'"

context cache_run
begin

lemma reach_inv: "cache_reach E cfg c rs \<Longrightarrow> cache_inv E cfg c (map (fst \<circ> snd) rs)"
proof (induction rule: cache_reach.induct)
  case (new c)
  then show ?case using cache_new_inv(1) by simp
next
  case (step c rs ev c' rs')
  from step.IH have "run_inv E cfg (c, rs)" by (simp add: run_inv_def comp_def)
  from exec_step[OF this variants step.hyps(2)] step.hyps(3) show ?case by (auto simp: run_inv_def comp_def)
qed

lemma reach_shard:
  assumes "cache_reach E cfg c rs" and "sh \<in> set (shards c)"
  shows "shard_inv E (c_max_variants cfg) sh"
  using reach_inv[OF assms(1)] assms(2) unfolding cache_inv_def by (metis in_set_conv_nth)

end

lemma cache_runI: "cache_world E \<Longrightarrow> 0 < c_max_variants cfg \<Longrightarrow> cache_run E cfg"
  by (simp add: cache_run.intro cache_run_axioms_def)

subsection \<open>A concrete cache\<close>

definition demo_cache0 :: "(ref_name, ref_name message, (nat \<times> (ref_name, ref_name message) entry) list,
    (ref_name sh_class \<times> phase) list) cache" where
  "demo_cache0 = \<lparr>config = demo_cache_config, shards = [shard_new demo_env demo_cache_config 0], rules = demo_compiled, epoch = 0,
     stats = \<lparr>bypasses = 0, refresh_useful = 0, refresh_unused = 0\<rparr>, diag = diagnostics_default\<rparr>"

lemma demo_shard_count: "shard_count demo_cache_config = 1"
  unfolding shard_count_def Let_def negative_entries_def negative_bytes_def demo_cache_config_def by simp

lemma demo_new: "cache_new demo_env demo_cache_config = Some demo_cache0"
  by (simp add: cache_new_def demo_compile demo_shard_count demo_cache0_def)

definition demo_upstream :: "ref_name message" where
  "demo_upstream = demo_two [demo_rr 60 1, demo_rr 7 2]"

definition demo_events :: "ref_name cache_event list" where
  "demo_events = [StoreAnswer demo_query demo_upstream NoEcs 0 0, BeginLookup demo_query None 5 False True,
     Invalidate None None None, EndLookup 0]"

lemma demo_events_ok: "list_all has_question demo_events"
  by (simp add: demo_events_def has_question_def demo_query_def)

definition demo_qkey :: "ref_name key" where
  "demo_qkey = \<lparr>k_name = [''example'', ''test''], k_kind = A, k_class = IN, k_dnssec_ok = True, k_checking_disabled = False,
     k_recursion_desired = True, k_edns = True\<rparr>"

abbreviation demo_shard0 :: "(ref_name, ref_name message, (nat \<times> (ref_name, ref_name message) entry) list,
    (ref_name sh_class \<times> phase) list) shard" where
  "demo_shard0 \<equiv> shard_new demo_env demo_cache_config 0"

definition demo_pol :: policy where
  "demo_pol = policy_for ref_dns demo_cache_config demo_compiled demo_qkey [''example'', ''test'']"

lemma demo_pol_eq: "demo_pol = \<lparr>rule_index = Some 1, bypass = False, max_ttl_secs = 30, negative_ttl_cap_secs = 900,
     p_prefetch = False, p_stale = True\<rparr>"
  by (simp add: demo_pol_def policy_for_def demo_cache_config_def demo_compiled_def demo_rules_def rule_matches_def demo_qkey_def)

lemma demo_key_of: "key_of ref_dns demo_query = Some (Some demo_qkey)"
  by (simp add: key_of_def demo_query_def demo_question_def plain_edns_def edns_within_def demo_defs demo_qkey_def key_name_def edns_codes)

lemma demo_prepared: "prepared demo_env demo_question demo_upstream demo_pol OAnswer =
  Inr ((demo_two [demo_rr 30 1, demo_rr 7 2])\<lparr>id := 0, edns := None\<rparr>, 7, False)"
  unfolding demo_pol_eq
  by (simp add: prepared_def prepare_response_def plain_edns_def edns_within_def is_negative_def demo_two_def demo_rr_def demo_defs
      demo_upstream_def edns_codes i32_max_def origin_restore_def)

definition demo_wire :: "ref_name message" where
  "demo_wire = (demo_two [demo_rr 30 1, demo_rr 7 2])\<lparr>id := 0, edns := None\<rparr>"

definition demo_entry :: "(ref_name, ref_name message) entry" where
  "demo_entry = entry_of demo_qkey (answer_record demo_cache_config demo_pol demo_wire 7 False NoEcs OAnswer)
     (charge ref_dns 64 demo_wire demo_qkey) 0 1"

definition demo_shard1 where
  "demo_shard1 = publish demo_env demo_qkey (answer_record demo_cache_config demo_pol demo_wire 7 False NoEcs OAnswer)
     (charge ref_dns 64 demo_wire demo_qkey) 0 demo_shard0"

lemma demo_charge: "charge ref_dns 64 demo_wire demo_qkey = 321"
  by (simp add: charge_def demo_wire_def demo_qkey_def demo_two_def demo_rr_def demo_defs ref_wire_len_def)

lemma demo_budgets: "max_entries (part False demo_shard0) = 80" "max_bytes (part False demo_shard0) = 160000"
  unfolding shard_new_budgets demo_shard_count
  by (simp_all add: portion_def negative_entries_def negative_bytes_def demo_cache_config_def)

lemma demo_place:
  "place demo_env demo_cache_config demo_qkey (answer_record demo_cache_config demo_pol demo_wire 7 False NoEcs OAnswer) 0 False (g, demo_shard0) =
   Some (\<lparr>outcome = Admitted, reason = None\<rparr>, g, demo_shard1)"
  by (simp add: place_def Let_def demo_charge demo_budgets make_variant_room_def demo_shard1_def first_pairs.simps)

lemma demo_locked:
  "admit_locked demo_env demo_cache_config demo_qkey demo_pol (Inr (demo_wire, 7, False)) fp NoEcs 0 OAnswer (g, demo_shard0) =
   Some (\<lparr>outcome = Admitted, reason = None\<rparr>, g, demo_shard1)"
proof -
  have "demo_shard0\<lparr>sharing := sharing demo_shard0, counts := counts demo_shard0\<rparr> = demo_shard0" by simp
  moreover have "answer_record demo_cache_config demo_pol demo_wire 7 False NoEcs OAnswer =
      \<lparr>s_wire = demo_wire, s_scope = NoEcs, s_lifetime = from_secs 7,
       s_retention = from_secs 7 + from_secs (retention_secs (c_stale demo_cache_config)), s_negative = False,
       s_failure = None, s_prefetch = p_prefetch demo_pol, s_refreshed = False, s_accessed = None\<rparr>"
    by (simp add: answer_record_def demo_pol_eq origin_restore_def)
  moreover have "p_stale demo_pol" by (simp add: demo_pol_eq)
  ultimately show ?thesis
    using demo_place
    by (simp add: admit_locked_def prune_def Let_def origin_restore_def observe_def overlapping_def del: shard_new_sel(7))
qed

lemma demo_refusal: "admit_refusal demo_upstream = None"
  by (simp add: admit_refusal_def demo_upstream_def demo_two_def demo_defs superseding_edns_def edns_within_def edns_codes)

lemma demo_admit: "admit demo_env demo_cache0 demo_query demo_upstream NoEcs 0 0 OAnswer =
  Some (\<lparr>outcome = Admitted, reason = None\<rparr>, demo_cache0\<lparr>shards := [demo_shard1]\<rparr>)"
proof -
  have q: "hd (queries demo_query) = demo_question" "q_name demo_question = [''example'', ''test'']" by (simp_all add: demo_defs)
  have "\<not> bypass demo_pol" by (simp add: demo_pol_eq)
  then show ?thesis
    by (simp add: admit_def demo_key_of q demo_cache0_def demo_pol_def[symmetric] demo_refusal demo_prepared
        demo_wire_def[symmetric] Let_def with_shard_def shard_index_def demo_locked)
qed

abbreviation demo_cache1 :: "(ref_name, ref_name message, (nat \<times> (ref_name, ref_name message) entry) list,
    (ref_name sh_class \<times> phase) list) cache" where
  "demo_cache1 \<equiv> demo_cache0\<lparr>shards := [demo_shard1], diag := diagnostics_store diagnostics_default \<lparr>outcome = Admitted, reason = None\<rparr>\<rparr>"

lemma demo_insert: "insert_decision_if_epoch demo_env demo_cache0 demo_query demo_upstream NoEcs 0 0 =
  Some (\<lparr>outcome = Admitted, reason = None\<rparr>, demo_cache1)"
  by (simp add: insert_decision_if_epoch_def demo_admit count_store_def) (simp add: demo_cache0_def)

lemma demo_reach0: "cache_reach demo_env demo_cache_config demo_cache0 []"
  by (rule cache_reach.new) (rule demo_new)

lemma demo_reach1: "cache_reach demo_env demo_cache_config demo_cache1 []"
  by (rule cache_reach.step[OF demo_reach0, of "StoreAnswer demo_query demo_upstream NoEcs 0 0"])
     (simp_all add: has_question_def demo_query_def demo_insert[unfolded demo_query_def] keep_readers_def)

lemma demo_bucket: "bucket_of demo_qkey demo_shard1 = [demo_entry]"
  unfolding bucket_of_def demo_shard1_def publish_fields(7) by (simp add: demo_entry_def bucket_of_def)

subsection \<open>Safety and budgets\<close>

text \<open>C20. A running cache never panics and never exceeds its budgets: whatever lookups, stores,
  failures, restores and invalidations interleave, with readers finishing in any order, every
  step succeeds, the entries and the bytes stay within the configured totals, the negative
  entries within their share, and no question has more than the configured variants.\<close>

theorem cache_run_safe:
  assumes "cache_world E" and "0 < c_max_variants cfg" and "c_negative_percent cfg \<le> 100"
    and "cache_new E cfg = Some c" and "list_all has_question evs"
  shows "\<exists>c' rs p n b. run_steps (cache_exec E) (c, []) evs = Some (c', rs) \<and> snapshot_entries E c' = (p, n, b) \<and>
    p + n \<le> c_max_entries cfg \<and> n \<le> negative_entries cfg \<and> b \<le> c_max_bytes cfg \<and>
    (\<forall>sh \<in> set (shards c'). \<forall>k. length (bucket_of k sh) \<le> c_max_variants cfg)"
proof -
  have run: "cache_run E cfg" by (rule cache_runI[OF assms(1,2)])
  obtain c' rs where r: "run_steps (cache_exec E) (c, []) evs = Some (c', rs)" and inv: "cache_inv E cfg c' (map (fst \<circ> snd) rs)"
    by (rule cache_run.run_from_new[OF run assms(4,5)])
  obtain p n b where s: "snapshot_entries E c' = (p, n, b)" by (rule prod_cases3)
  note budget = cache_world.cache_budgets[OF assms(1) inv assms(3) s]
  have "length (bucket_of k sh) \<le> c_max_variants cfg" if "sh \<in> set (shards c')" for sh k
  proof -
    have "shard_inv E (c_max_variants cfg) sh" using inv that unfolding cache_inv_def by (metis in_set_conv_nth)
    then show ?thesis by (rule cache_world.bucket_le[OF assms(1)])
  qed
  with r s budget show ?thesis by blast
qed

theorem cache_run_safe_witness:
  "\<exists>c' rs p n b. run_steps (cache_exec demo_env) (demo_cache0, []) demo_events = Some (c', rs) \<and>
     snapshot_entries demo_env c' = (p, n, b) \<and> p + n \<le> 100 \<and> b \<le> 200000"
  using cache_run_safe[OF demo_world _ _ demo_new demo_events_ok] by (auto simp: demo_cache_config_def)

text \<open>C21. At most one answer for a client: in every reachable cache, two stored answers to the
  same question (or two stored failures) whose namespaces both match a client are the same
  entry.\<close>

theorem cache_one_answer:
  assumes "cache_world E" and "0 < c_max_variants cfg" and "cache_reach E cfg c rs" and "sh \<in> set (shards c)"
    and "e \<in> set (bucket_of k sh)" and "e' \<in> set (bucket_of k sh)" and "e_failure e = None \<longleftrightarrow> e_failure e' = None"
    and "matches (e_net E) (e_scope e) out" and "matches (e_net E) (e_scope e') out"
  shows "e = e'"
proof (rule ccontr)
  assume ne: "e \<noteq> e'"
  have inv: "shard_inv E (c_max_variants cfg) sh"
    by (rule cache_run.reach_shard[OF cache_runI[OF assms(1,2)] assms(3,4)])
  then have core: "shard_core E (c_max_variants cfg) (live E sh) sh" by (simp add: shard_inv_def)
  have l: "e \<in> live E sh" "e' \<in> live E sh" "e_key e = e_key e'"
    using assms(5,6) cache_world.bucket_live[OF assms(1) inv, of k] by simp_all
  have "ip_network (e_net E)" using assms(1) by (simp add: cache_world_def)
  then have "scopes_overlap (e_net E) (e_scope e) (e_scope e')" by (rule ip_network.matches_overlap[OF _ assms(8,9)])
  with ne l(3) assms(7) have "clash (e_net E) e e'" by (simp only: clash_def simp_thms)
  with coreD(13)[OF core[unfolded shard_core_def] l(1,2)] show False by simp
qed

theorem cache_one_answer_witness:
  "demo_entry \<in> set (bucket_of demo_qkey demo_shard1) \<and> matches cidr (e_scope demo_entry) None \<and>
   hd (bucket_of demo_qkey demo_shard1) = demo_entry"
proof -
  have m: "matches cidr (e_scope demo_entry) None" by (simp add: demo_entry_def)
  have b: "demo_entry \<in> set (bucket_of demo_qkey demo_shard1)" "hd (bucket_of demo_qkey demo_shard1) \<in> set (bucket_of demo_qkey demo_shard1)"
    by (simp_all add: demo_bucket)
  have "hd (bucket_of demo_qkey demo_shard1) = demo_entry"
    by (rule cache_one_answer[OF demo_world _ demo_reach1 _ b(2,1), where out = None])
       (use m in \<open>simp_all add: demo_bucket demo_cache_config_def\<close>)
  with m b show ?thesis by blast
qed

subsection \<open>Serving\<close>

context cache_world
begin

lemma lookup_inner_step:
  assumes inv: "cache_inv E cfg c es" and q: "queries query \<noteq> []"
  obtains r c' where "lookup_inner E c query out now allow_stale obs = Some (r, c')" and "cache_inv E cfg c' es"
    and "lookup_post E c query out now allow_stale (Inl r) \<or>
      (\<exists>e n. lookup_post E c query out now allow_stale (Inr e) \<and> r = lookup_reply E cfg query e now n)"
proof -
  obtain r c' where b: "lookup_begin E c query out now allow_stale obs = Some (r, c')"
    "cache_inv E cfg c' (case r of Inl _ \<Rightarrow> es | Inr e \<Rightarrow> e # es)" "epoch c' = epoch c" "rules c' = rules c"
    "lookup_post E c query out now allow_stale r"
    by (rule lookup_begin_step[OF inv q])
  show ?thesis
  proof (cases r)
    case (Inl l)
    with b show ?thesis by (intro that[of l c']) (simp_all add: lookup_inner_def)
  next
    case (Inr e)
    with b(2) have inv': "cache_inv E cfg c' (e # es)" by simp
    obtain c'' n where e: "lookup_end E c' query e now obs = Some (lookup_reply E (config c') query e now n, c'')"
      "cache_inv E cfg c'' (remove1 e (e # es))"
      by (rule lookup_end_step[OF inv' list.set_intros(1)])
    have "lookup_inner E c query out now allow_stale obs = Some (lookup_reply E cfg query e now n, c'')"
      unfolding lookup_inner_def b(1) Inr using e(1) cache_invD(1)[OF inv'] by simp
    then show ?thesis by (rule that) (use e(2) b(5) Inr in auto)
  qed
qed

end

lemma replay_fields:
  "id (replay D cfg query e now m) = id query" "queries (replay D cfg query e now m) = queries query"
  "authentic_data (replay D cfg query e now m) = False" "response_code (replay D cfg query e now m) = response_code m"
  "answers (replay D cfg query e now m) = map (age_record cfg (e_lifetime e \<le> age_of now e) (min (as_secs (age_of now e)) u32_max)) (answers m)"
  "authorities (replay D cfg query e now m) = map (age_record cfg (e_lifetime e \<le> age_of now e) (min (as_secs (age_of now e)) u32_max)) (authorities m)"
  "additionals (replay D cfg query e now m) = map (age_record cfg (e_lifetime e \<le> age_of now e) (min (as_secs (age_of now e)) u32_max)) (additionals m)"
  by (simp_all add: replay_def Let_def split: option.split)

text \<open>C22. What a lookup serves: in every reachable cache, a hit comes from a stored entry of the
  asked question whose namespace matches the client and whose retention has not ended; it is
  marked stale exactly when its lifetime is over, a stale one is served only to a lookup that
  allows it, is never a failure, and never hides a fresh one; the reply carries the query's
  identity and never the authentic-data flag.\<close>

theorem lookup_sound:
  assumes "cache_world E" and "0 < c_max_variants cfg" and "cache_reach E cfg c rs" and "queries query \<noteq> []"
    and "lookup_inner E c query out now allow_stale obs = Some (r, c')" and "l_hit r = Some h"
  shows "\<exists>key e m. key_of (e_dns E) query = Some (Some key) \<and>
    e \<in> set (bucket_of key (shards c ! shard_index E c key)) \<and> e_key e = key \<and>
    matches (e_net E) (e_scope e) out \<and> h_scope h = e_scope e \<and> h_failure h = e_failure e \<and>
    age_of now e < e_retention e \<and> (h_stale h \<longleftrightarrow> e_lifetime e \<le> age_of now e) \<and>
    (h_stale h \<longrightarrow> allow_stale \<and> e_failure e = None \<and>
       (\<forall>x \<in> set (bucket_of key (shards c ! shard_index E c key)).
          selectable (e_net E) out now allow_stale x \<longrightarrow> e_lifetime x \<le> age_of now x)) \<and>
    decode (e_dns E) (e_dec E) (e_wire e) = Some m \<and> h_message h = replay (e_dns E) cfg query e now m \<and>
    id (h_message h) = id query \<and> queries (h_message h) = queries query \<and> \<not> authentic_data (h_message h)"
proof -
  have inv: "cache_inv E cfg c (map (fst \<circ> snd) rs)" by (rule cache_run.reach_inv[OF cache_runI[OF assms(1,2)] assms(3)])
  note D = cache_invD[OF inv]
  from cache_world.lookup_inner_step[OF assms(1) inv assms(4), of out now allow_stale obs] assms(5)
  have "lookup_post E c query out now allow_stale (Inl r) \<or>
      (\<exists>e n. lookup_post E c query out now allow_stale (Inr e) \<and> r = lookup_reply E cfg query e now n)"
    by (metis option.inject prod.inject)
  moreover have "\<not> lookup_post E c query out now allow_stale (Inl r)" using assms(6) by (simp add: lookup_post_def)
  ultimately obtain e n where e: "lookup_post E c query out now allow_stale (Inr e)" and r: "r = lookup_reply E cfg query e now n"
    by blast
  from e obtain key where key: "key_of (e_dns E) query = Some (Some key)"
    and best: "best_for E (live E (shards c ! home E cfg key)) key out now allow_stale e"
    unfolding lookup_post_def sum.case D(1) by blast
  from r assms(6) obtain m where m: "decode (e_dns E) (e_dec E) (e_wire e) = Some m"
    and h: "h = \<lparr>h_message = replay (e_dns E) cfg query e now m, h_scope = e_scope e, h_stale = (e_lifetime e \<le> age_of now e),
       h_refresh = refresh_due cfg e (age_of now e) n, h_authentic = (authentic_data m \<and> \<not> e_lifetime e \<le> age_of now e), h_failure = e_failure e\<rparr>"
    by (auto simp: lookup_reply_def lookup_empty_def Let_def split: option.splits)
  have bk: "set (bucket_of key (shards c ! shard_index E c key)) = {x \<in> live E (shards c ! home E cfg key). e_key x = key}"
    unfolding D(3) by (rule cache_world.bucket_live[OF assms(1) D(4)])
  from best have b: "e \<in> live E (shards c ! home E cfg key)" "e_key e = key" "selectable (e_net E) out now allow_stale e"
    and mx: "\<And>x. x \<in> live E (shards c ! home E cfg key) \<Longrightarrow> e_key x = key \<and> selectable (e_net E) out now allow_stale x \<Longrightarrow>
        (age_of now x < e_lifetime x, scope_prefix_len (e_scope x)) \<le> (age_of now e < e_lifetime e, scope_prefix_len (e_scope e))"
    unfolding best_for_def by blast+
  have stale: "e_lifetime x \<le> age_of now x" if "e_lifetime e \<le> age_of now e" "x \<in> live E (shards c ! home E cfg key)" "e_key x = key"
    "selectable (e_net E) out now allow_stale x" for x
    using mx[OF that(2)] that(1,3,4) by (auto simp: less_eq_prod_def)
  have "e \<in> set (bucket_of key (shards c ! shard_index E c key))" unfolding bk using b(1,2) by blast
  moreover have "matches (e_net E) (e_scope e) out" "age_of now e < e_retention e"
    "e_lifetime e \<le> age_of now e \<Longrightarrow> allow_stale \<and> e_failure e = None" using b(3) by (auto simp: selectable_def)
  moreover have "\<forall>x \<in> set (bucket_of key (shards c ! shard_index E c key)). selectable (e_net E) out now allow_stale x \<longrightarrow> e_lifetime x \<le> age_of now x"
    if "e_lifetime e \<le> age_of now e" unfolding bk using stale[OF that] by blast
  ultimately show ?thesis using key b(2) m h by (intro exI[of _ key] exI[of _ e] exI[of _ m]) (simp add: replay_fields)
qed

lemma demo_entry_sel:
  "e_id demo_entry = 1" "e_key demo_entry = demo_qkey" "e_wire demo_entry = demo_wire" "e_scope demo_entry = NoEcs" "e_inserted demo_entry = 0"
  "e_lifetime demo_entry = 7000000000" "e_retention demo_entry = 307000000000" "e_failure demo_entry = None" "e_negative demo_entry = False"
  by (simp_all add: demo_entry_def) (simp_all add: answer_record_def from_secs_def demo_pol_eq demo_cache_config_def)

lemma demo_select: "now < 7000000000 \<Longrightarrow> select demo_env demo_shard1 demo_qkey None now allow_stale = Some (False, 1)"
  by (simp add: select_def demo_bucket selectable_def demo_entry_sel saturating_duration_since_def)

lemma demo_peek1: "lru_peek recency_list 1 (p_lru (part False demo_shard1)) = Some demo_entry"
  unfolding demo_shard1_def publish_fields(1) by (simp add: answer_record_def origin_restore_def demo_entry_def del_key_def)

lemma demo_decode: "decode ref_dns list_dec demo_wire = Some demo_wire"
  by (simp add: decode_def demo_wire_def MAX_MESSAGE_def ref_wire_len_def demo_two_def demo_defs)

definition demo_result :: "ref_name lookup_result" where
  "demo_result = lookup_reply demo_env demo_cache_config demo_query demo_entry 5 0"

lemma demo_peek_lookup: "\<exists>c'. lookup_inner demo_env demo_cache1 demo_query None 5 False False = Some (demo_result, c')"
proof -
  have q: "q_name (hd (queries demo_query)) = [''example'', ''test'']" by (simp add: demo_defs)
  have "lookup_begin demo_env demo_cache1 demo_query None 5 False False =
      Some (Inr demo_entry, demo_cache1\<lparr>shards := [demo_shard1\<lparr>held := demo_entry # held demo_shard1\<rparr>]\<rparr>)"
    using demo_peek1
    by (simp add: lookup_begin_def demo_key_of q demo_cache0_def demo_pol_def[symmetric] demo_pol_eq with_shard_def shard_index_def lookup_locked_def demo_select)
  then show ?thesis
    by (simp add: lookup_inner_def lookup_end_def with_shard_def shard_index_def Let_def demo_cache0_def demo_result_def)
       (simp add: demo_entry_sel demo_shard1_def publish_def Let_def shard_new_def)
qed

lemma demo_hit: "l_hit demo_result = Some \<lparr>h_message = replay ref_dns demo_cache_config demo_query demo_entry 5 demo_wire,
    h_scope = NoEcs, h_stale = False, h_refresh = False, h_authentic = False, h_failure = None\<rparr>"
  by (simp add: demo_result_def lookup_reply_def demo_entry_sel demo_decode Let_def refresh_due_def saturating_duration_since_def)
     (simp add: demo_entry_def answer_record_def demo_pol_eq demo_wire_def demo_two_def demo_defs)

theorem lookup_sound_witness:
  "\<exists>c' h. lookup_inner demo_env demo_cache1 demo_query None 5 False False = Some (demo_result, c') \<and>
     l_hit demo_result = Some h \<and> \<not> h_stale h \<and> message.id (h_message h) = 7"
proof -
  obtain c' where l: "lookup_inner demo_env demo_cache1 demo_query None 5 False False = Some (demo_result, c')"
    using demo_peek_lookup by blast
  have "0 < c_max_variants demo_cache_config" "queries demo_query \<noteq> []" by (simp_all add: demo_cache_config_def demo_query_def)
  from lookup_sound[OF demo_world this(1) demo_reach1 this(2) l demo_hit]
  have "message.id (replay ref_dns demo_cache_config demo_query demo_entry 5 demo_wire) = message.id demo_query" by (elim exE conjE) simp
  then show ?thesis using l demo_hit by (simp add: demo_query_def)
qed

subsection \<open>Storing and serving\<close>

context cache_world
begin

text \<open>After an admitted answer only that answer can be selected by the clients it matches.\<close>

lemma admitted_best:
  assumes "cleared E key sc' L" and "matches (e_net E) sc' out" and "e_scope e = sc'"
    and "best_for E (insert e L) key out now allow_stale x"
  shows "x = e"
proof (rule ccontr)
  assume "x \<noteq> e"
  with assms(4) have x: "x \<in> L" "e_key x = key" "matches (e_net E) (e_scope x) out"
    unfolding best_for_def selectable_def by blast+
  with net.matches_overlap[OF x(3) assms(2)] assms(1) show False unfolding cleared_def by simp
qed

end

lemma prepared_wire:
  assumes "dns_library (e_dns E)" and "prepared E q response pol OAnswer = Inr (w, l, neg)" and "wire_len (e_dns E) w \<le> MAX_MESSAGE"
  obtains stored where "prepare_response (e_dns E) q response pol = Inr (stored, l, neg)" and "decode (e_dns E) (e_dec E) w = Some stored"
proof -
  from assms(2) obtain stored where p: "prepare_response (e_dns E) q response pol = Inr (stored, l, neg)" and v: "to_vec (e_dns E) stored = Some w"
    by (auto simp: prepared_def origin_restore_def Let_def split: sum.splits prod.splits if_splits option.splits)
  have "edns stored = None" using prepare_facts[OF p] by blast
  then have "decode (e_dns E) (e_dec E) w = Some stored"
    using dns_library.read_to_vec[OF assms(1) v] assms(3) by (simp add: decode_def)
  with p show ?thesis by (rule that)
qed

lemma list_all2_ex: "list_all2 P xs ys \<Longrightarrow> y \<in> set ys \<Longrightarrow> \<exists>x \<in> set xs. P x y"
  by (induction rule: list_all2_induct) auto

lemma aged_fresh:
  assumes "prepare_response D q response pol = Inr (stored, l, neg)" and "age < from_secs l"
    and "rr \<in> set (answers stored @ authorities stored)"
  shows "min (as_secs age) u32_max = as_secs age" and "as_secs age < ttl rr"
proof -
  have "as_secs age < l" using assms(2) by (simp add: as_secs_def from_secs_def div_less_iff_less_mult)
  have P: "\<forall>r \<in> set (answers stored @ authorities stored @ additionals stored). l \<le> ttl r \<and> ttl r \<le> max_ttl_secs pol \<and> rr_type r \<notin> {SIG, TSIG}"
    "list_all2 (\<lambda>r r'. ttl r' \<le> ttl r \<and> r' = r\<lparr>ttl := ttl r'\<rparr> \<and> ttl r \<le> i32_max)
      (answers response @ authorities response @ additionals response) (answers stored @ authorities stored @ additionals stored)"
    using prepare_facts[OF assms(1)] by - (elim conjE, assumption)+
  have rr: "rr \<in> set (answers stored @ authorities stored @ additionals stored)" using assms(3) by auto
  then have t: "l \<le> ttl rr" by (rule bspec[OF P(1), THEN conjunct1])
  with \<open>as_secs age < l\<close> show "as_secs age < ttl rr" by simp
  from list_all2_ex[OF P(2) rr] obtain r where "ttl rr \<le> ttl r \<and> rr = r\<lparr>ttl := ttl rr\<rparr> \<and> ttl r \<le> i32_max" by (rule bexE)
  then have "ttl rr \<le> i32_max" by simp
  with t \<open>as_secs age < l\<close> show "min (as_secs age) u32_max = as_secs age" by (simp add: i32_max_def u32_max_def)
qed

lemma admit_post_entry:
  assumes "admit_post E c query response sc now ep org c'" and "config c = cfg" and "key_of (e_dns E) query = Some (Some key)"
    and "prepared E (hd (queries query)) response (query_policy E c key query) org = Inr (w, l, neg)"
  obtains sc' i L where "widens sc sc'" and "cleared E key sc' L" and "\<not> bypass (query_policy E c key query)" and "ep = epoch c"
    and "live E (shards c' ! home E cfg key) = insert (entry_of key (answer_record cfg (query_policy E c key query) w l neg sc' org)
      (charge (e_dns E) (e_overhead E) w key) now i) L"
proof -
  from assms(1) obtain k sc' w' l' neg' i L where p: "key_of (e_dns E) query = Some (Some k)" "ep = epoch c"
    "\<not> bypass (query_policy E c k query)"
    "prepared E (hd (queries query)) response (query_policy E c k query) org = Inr (w', l', neg')"
    "widens sc sc'" "cleared E k sc' L"
    "live E (shards c' ! home E (config c) k) = insert (entry_of k (answer_record (config c) (query_policy E c k query) w' l' neg' sc' org)
      (charge (e_dns E) (e_overhead E) w' k) now i) L"
    unfolding admit_post_def by (elim exE conjE)
  have k: "k = key" using p(1) assms(3) by simp
  have "w' = w" "l' = l" "neg' = neg" using p(4) assms(4) by (simp_all add: k)
  with p k assms(2) show ?thesis by (intro that) simp_all
qed

text \<open>A lookup right after an admitted store finds the stored entry.\<close>

context cache_world
begin

lemma lookup_stored:
  assumes inv: "cache_inv E cfg c es" and q: "key_of (e_dns E) query = Some (Some key)" "\<not> bypass (query_policy E c key query)"
    and lv: "live E (shards c ! home E cfg key) = insert e L" and "cleared E key (e_scope e) L" and "e_key e = key" "e_failure e = None"
    and m: "matches (e_net E) (e_scope e) out" and "age_of now e < e_lifetime e" "e_lifetime e \<le> e_retention e"
  shows "\<exists>n c'. lookup_inner E c query out now allow_stale obs = Some (lookup_reply E cfg query e now n, c')"
proof -
  have "queries query \<noteq> []" using q(1) by (auto simp: key_of_def)
  then obtain r c' where r: "lookup_inner E c query out now allow_stale obs = Some (r, c')"
    and cases: "lookup_post E c query out now allow_stale (Inl r) \<or>
      (\<exists>e n. lookup_post E c query out now allow_stale (Inr e) \<and> r = lookup_reply E cfg query e now n)"
    by (rule lookup_inner_step[OF inv])
  have conf: "config c = cfg" by (rule cache_invD(1)[OF inv])
  have "selectable (e_net E) out now allow_stale e" using assms(7-10) by (simp add: selectable_def)
  then have "\<exists>x \<in> live E (shards c ! home E cfg key). e_key x = key \<and> selectable (e_net E) out now allow_stale x"
    unfolding lv using assms(6) by (intro bexI[of _ e] conjI insertI1)
  then have "\<not> lookup_post E c query out now allow_stale (Inl r)"
    unfolding lookup_post_def sum.case q(1) using q(2) conf by (auto simp only: option.inject)
  with cases obtain x n where x: "lookup_post E c query out now allow_stale (Inr x)" "r = lookup_reply E cfg query x now n" by blast
  then have "best_for E (insert e L) key out now allow_stale x" unfolding lookup_post_def sum.case q(1) conf lv[symmetric] option.inject by (elim exE conjE) (simp only:)
  with assms(5) m have "x = e" by (intro admitted_best) simp_all
  with r x(2) show ?thesis by blast
qed

end

lemma count_store_Some:
  assumes "count_store r = Some (d, c')"
  obtains c1 where "r = Some (d, c1)" and "c' = c1\<lparr>diag := diagnostics_store (diag c1) d\<rparr>"
  using assms by (cases r) (auto simp: count_store_def)

text \<open>C23. What is stored is served: after an admitted store of an answer, a lookup of the same
  question by any client its namespace matches, before the stored lifetime is over, hits and
  replies with the stored answer: fresh, with every TTL reduced by the whole seconds that passed
  and still positive, under the identity of the new query.\<close>

theorem cache_round_trip:
  assumes "cache_world E" and "0 < c_max_variants cfg" and "cache_reach E cfg c rs"
    and "insert_decision_if_epoch E c query response sc now ep = Some (d, c')" and "admitted d"
    and "key_of (e_dns E) query = Some (Some key)"
    and "prepared E (hd (queries query)) response (query_policy E c key query) OAnswer = Inr (w, l, neg)"
    and "wire_len (e_dns E) w \<le> MAX_MESSAGE"
    and "queries query' = queries query" and "key_of (e_dns E) query' = Some (Some key)"
    and "matches (e_net E) sc out" and "now \<le> now'" and "now' - now < from_secs l"
  shows "\<exists>r c'' h stored. lookup_with_decision E c' query' out now' allow_stale = Some (r, c'') \<and> l_hit r = Some h \<and>
    \<not> h_stale h \<and> h_failure h = None \<and>
    prepare_response (e_dns E) (hd (queries query)) response (query_policy E c key query) = Inr (stored, l, neg) \<and>
    id (h_message h) = id query' \<and> queries (h_message h) = queries query \<and> response_code (h_message h) = response_code stored \<and>
    answers (h_message h) = map (\<lambda>rr. rr\<lparr>ttl := ttl rr - as_secs (now' - now)\<rparr>) (answers stored) \<and>
    authorities (h_message h) = map (\<lambda>rr. rr\<lparr>ttl := ttl rr - as_secs (now' - now)\<rparr>) (authorities stored) \<and>
    (\<forall>rr \<in> set (answers (h_message h) @ authorities (h_message h)). 0 < ttl rr)"
proof -
  have q: "queries query \<noteq> []" using assms(6) by (auto simp: key_of_def)
  have inv: "cache_inv E cfg c (map (fst \<circ> snd) rs)" by (rule cache_run.reach_inv[OF cache_runI[OF assms(1,2)] assms(3)])
  note D = cache_invD[OF inv]
  obtain c1 where c1: "admit E c query response sc now ep OAnswer = Some (d, c1)" "c' = c1\<lparr>diag := diagnostics_store (diag c1) d\<rparr>"
    by (rule count_store_Some[OF assms(4)[unfolded insert_decision_if_epoch_def]])
  have inv1: "cache_inv E cfg c1 (map (fst \<circ> snd) rs)" and rul: "rules c1 = rules c"
    and post: "admit_post E c query response sc now ep OAnswer c1"
    using cache_world.admit_step[OF assms(1) inv assms(2) q, of response sc now ep OAnswer] c1(1) assms(5)
    by (metis option.inject prod.inject)+
  define pol where "pol = query_policy E c key query"
  obtain sc' i L where sc': "widens sc sc'" "cleared E key sc' L" "\<not> bypass pol"
    and lv: "live E (shards c1 ! home E cfg key) = insert (entry_of key (answer_record cfg pol w l neg sc' OAnswer)
            (charge (e_dns E) (e_overhead E) w key) now i) L"
    unfolding pol_def by (rule admit_post_entry[OF post D(1) assms(6,7)])
  define e where "e = entry_of key (answer_record cfg pol w l neg sc' OAnswer) (charge (e_dns E) (e_overhead E) w key) now i"
  have es: "e_key e = key" "e_scope e = sc'" "e_failure e = None" "e_lifetime e = from_secs l" "e_lifetime e \<le> e_retention e"
    "e_inserted e = now" "e_wire e = w" by (simp_all add: e_def)
  have age: "age_of now' e = now' - now" by (simp add: es(6) saturating_duration_since_def)
  have net: "ip_network (e_net E)" and dns: "dns_library (e_dns E)" using assms(1) by (simp_all add: cache_world_def)
  have inv': "cache_inv E cfg c' (map (fst \<circ> snd) rs)" using inv1 by (simp add: c1(2))
  have "\<not> bypass (query_policy E c' key query')"
    using sc'(3) cache_invD(1)[OF inv'] D(1) rul assms(9) by (simp add: c1(2) pol_def)
  from cache_world.lookup_stored[OF assms(1) inv' assms(10) this, of e L out now' allow_stale True] obtain n c2 where
    lk: "lookup_inner E c' query' out now' allow_stale True = Some (lookup_reply E cfg query' e now' n, c2)"
    using lv sc'(2) es age assms(13) ip_network.widens_matches[OF net sc'(1) assms(11)] by (auto simp: c1(2) e_def[symmetric])
  obtain stored where st: "prepare_response (e_dns E) (hd (queries query)) response pol = Inr (stored, l, neg)"
    "decode (e_dns E) (e_dec E) w = Some stored"
    by (rule prepared_wire[OF dns assms(7)[folded pol_def] assms(8)])
  note aged = aged_fresh[OF st(1) assms(13)]
  have fresh: "\<not> e_lifetime e \<le> age_of now' e" using age es(4) assms(13) by simp
  have rec: "map (age_record cfg False (min (as_secs (now' - now)) u32_max)) rrs = map (\<lambda>rr. rr\<lparr>ttl := ttl rr - as_secs (now' - now)\<rparr>) rrs"
    if "set rrs \<subseteq> set (answers stored @ authorities stored)" for rrs
  proof (intro map_cong refl)
    fix x assume "x \<in> set rrs"
    then have "x \<in> set (answers stored @ authorities stored)" using that by blast
    from aged(1)[OF this] show "age_record cfg False (min (as_secs (now' - now)) u32_max) x = x\<lparr>ttl := ttl x - as_secs (now' - now)\<rparr>"
      by (simp add: age_record_def)
  qed
  have pos: "0 < ttl rr - as_secs (now' - now)" if "rr \<in> set (answers stored @ authorities stored)" for rr
    using aged(2)[OF that] by simp
  show ?thesis
    unfolding pol_def[symmetric]
    using lk st fresh rec[of "answers stored"] rec[of "authorities stored"] pos
    by (simp add: lookup_with_decision_def lookup_reply_def es Let_def replay_fields assms(9) saturating_duration_since_def) auto
qed

theorem cache_round_trip_witness:
  "\<exists>r c'' h. lookup_with_decision demo_env demo_cache1 demo_query None 5000000000 False = Some (r, c'') \<and> l_hit r = Some h \<and>
     \<not> h_stale h \<and> map ttl (answers (h_message h)) = [25, 2]"
proof -
  have len: "wire_len ref_dns demo_wire \<le> MAX_MESSAGE"
    by (simp add: demo_wire_def MAX_MESSAGE_def ref_wire_len_def demo_two_def demo_defs)
  have q: "hd (queries demo_query) = demo_question" "q_name demo_question = [''example'', ''test'']" by (simp_all add: demo_defs)
  have pol': "policy_for ref_dns (config demo_cache0) (rules demo_cache0) demo_qkey [''example'', ''test''] = demo_pol"
    by (simp add: demo_cache0_def demo_pol_def)
  have pol: "query_policy demo_env demo_cache0 demo_qkey demo_query = demo_pol" by (simp add: demo_cache0_def demo_pol_def q)
  have prep: "prepared demo_env (hd (queries demo_query)) demo_upstream (query_policy demo_env demo_cache0 demo_qkey demo_query) OAnswer =
      Inr (demo_wire, 7, False)" using demo_prepared pol q by (simp add: demo_wire_def)
  have st: "prepare_response ref_dns demo_question demo_upstream demo_pol = Inr (s', 7, False) \<Longrightarrow> map ttl (answers s') = [30, 7]" for s'
    unfolding demo_pol_eq
    by (simp add: prepare_response_def plain_edns_def edns_within_def is_negative_def demo_two_def demo_rr_def demo_defs
        demo_upstream_def edns_codes i32_max_def) auto
  from cache_round_trip[OF demo_world _ demo_reach0 demo_insert _ _ prep, of demo_query None 5000000000 False]
  obtain r c'' h s' where r: "lookup_with_decision demo_env demo_cache1 demo_query None 5000000000 False = Some (r, c'')"
    "l_hit r = Some h" "\<not> h_stale h" "prepare_response ref_dns demo_question demo_upstream demo_pol = Inr (s', 7, False)"
    "answers (h_message h) = map (\<lambda>rr. rr\<lparr>ttl := ttl rr - as_secs (5000000000 - 0)\<rparr>) (answers s')"
    using len demo_key_of
    by (simp add: demo_cache_config_def admitted_def from_secs_def q pol') blast
  have "map ttl (answers (h_message h)) = map (\<lambda>t. t - 5) (map ttl (answers s'))" by (simp add: r(5) as_secs_def)
  with r st[OF r(4)] show ?thesis by auto
qed

subsection \<open>Invalidation\<close>

lemma live_reject_update [simp]: "live E (shs[j := reject (shs ! j)] ! i) = live E (shs ! i)"
  by (cases "j < length shs"; cases "i = j") (simp_all add: list_update_beyond)

lemma admit_old_epoch:
  assumes "admit E c query response sc now ep org = Some (d, c')" and "ep \<noteq> epoch c"
  shows "\<not> admitted d" and "\<And>i. i < length (shards c) \<Longrightarrow> live E (shards c' ! i) = live E (shards c ! i)"
proof -
  have ws: "\<not> admitted d \<and> (\<forall>i < length (shards c). live E (shards c' ! i) = live E (shards c ! i))"
    if "with_shard E key (\<lambda>(g, sh). if ep \<noteq> epoch c
          then Some (skipped EpochChanged, g, if origin_restore org = None then reject sh else sh) else f g sh) c = Some (d, c')" for key f
    using that assms(2) by (auto simp: with_shard_def Let_def split: if_splits)
  have "\<not> admitted d \<and> (\<forall>i < length (shards c). live E (shards c' ! i) = live E (shards c ! i))"
    using assms(1) unfolding admit_def Let_def
    by (auto split: option.splits if_splits dest!: ws)
  then show "\<not> admitted d" "\<And>i. i < length (shards c) \<Longrightarrow> live E (shards c' ! i) = live E (shards c ! i)" by blast+
qed



subsection \<open>Failures\<close>


definition demo_servfail :: "ref_name message" where
  "demo_servfail = demo_upstream\<lparr>response_code := ServFail, answers := []\<rparr>"


subsection \<open>Eviction\<close>

text \<open>C26. The eviction loop ends: in every shard of a reachable cache it returns within one
  round more than the partition has entries, never panics, and then either the new entry
  fits the partition's entry and byte budgets or the partition is empty.\<close>

theorem eviction_ends:
  assumes "cache_world E" and "0 < c_max_variants cfg" and "cache_reach E cfg c rs" and "sh \<in> set (shards c)"
    and "lru_len (e_lru E) (p_lru (part neg sh)) < fuel"
  shows "\<exists>ok g' sh'. make_room E neg ch now fuel (g, sh) = Some (ok, g', sh') \<and>
    (if ok then lru_len (e_lru E) (p_lru (part neg sh')) < max_entries (part neg sh') \<and>
                charged (part neg sh') + ch \<le> max_bytes (part neg sh')
     else lru_len (e_lru E) (p_lru (part neg sh')) = 0)"
proof -
  have inv: "shard_inv E (c_max_variants cfg) sh" by (rule cache_run.reach_shard[OF cache_runI[OF assms(1,2)] assms(3,4)])
  from cache_world.make_room_ok[OF assms(1) inv assms(5), of ch now g] obtain ok g' sh' where
    r: "make_room E neg ch now fuel (g, sh) = Some (ok, g', sh')" "shard_inv E (c_max_variants cfg) sh'" "keeps sh sh'"
    and room: "if ok then card {x \<in> live E sh'. e_negative x = neg} < max_entries (part neg sh) \<and> charged (part neg sh') + ch \<le> max_bytes (part neg sh)
     else {x \<in> live E sh'. e_negative x = neg} = {}"
    by (elim exE conjE)
  have "max_entries (part neg sh') = max_entries (part neg sh)" "max_bytes (part neg sh') = max_bytes (part neg sh)"
    using r(3) by (simp_all add: keeps_def)
  moreover have "lru_len (e_lru E) (p_lru (part neg sh')) = card {x \<in> live E sh'. e_negative x = neg}"
    by (rule cache_world.card_part[OF assms(1) cache_world.inv_lru_wf[OF assms(1) r(2)]])
  ultimately show ?thesis using r(1) room by (intro exI[of _ ok] exI[of _ g'] exI[of _ sh']) (auto split: if_splits)
qed

theorem eviction_ends_witness:
  "\<exists>ok g' sh'. make_room demo_env False 159900 0 2 (stats demo_cache1, demo_shard1) = Some (ok, g', sh') \<and>
     lru_len recency_list (p_lru (part False demo_shard1)) = 1"
proof -
  have len: "lru_len recency_list (p_lru (part False demo_shard1)) = 1"
    unfolding demo_shard1_def publish_fields(1) by (simp add: answer_record_def origin_restore_def del_key_def)
  from eviction_ends[OF demo_world _ demo_reach1, of demo_shard1 False 2 159900 0 "stats demo_cache1"] len
  show ?thesis by (auto simp: demo_cache_config_def)
qed

end
