(* ===== verification/Flight.thy ===== *)
theory Flight
  imports Protocol
begin

text \<open>
  In-flight sharing of identical queries, \<open>src/src/flight.rs\<close>. A \<open>Shared\<close> future and its weak
  handle come from the \<open>futures\<close> crate: their operations are the fields of \<open>shared_ops\<close>, with
  their documented behaviour as the locale \<open>shared_future\<close>. The registry, the explicit count
  of holds and the roles are modelled as written. The counter and the handle of a hold change
  at different moments, so a run takes them as separate steps, and a join that holds the lock
  is interleaved with holders that leave.
\<close>

record 's shared_ops =
  shr_new :: 's
  shr_upgrade :: "'s \<Rightarrow> 's option"
  shr_drop :: "'s \<Rightarrow> 's"
  shr_finish :: "'s \<Rightarrow> 's"
  shr_peek :: "'s \<Rightarrow> bool"

locale shared_future =
  fixes S :: "'s shared_ops" and handles :: "'s \<Rightarrow> nat"
  assumes handles_new: "handles (shr_new S) = 1" and peek_new: "\<not> shr_peek S (shr_new S)"
    and upgrade_dead: "handles s = 0 \<Longrightarrow> shr_upgrade S s = None"
    and upgrade_live: "0 < handles s \<Longrightarrow> \<exists>s'. shr_upgrade S s = Some s' \<and> handles s' = handles s + 1 \<and> shr_peek S s' = shr_peek S s"
    and handles_drop: "handles (shr_drop S s) = handles s - 1" and peek_drop: "shr_peek S (shr_drop S s) = shr_peek S s"
    and handles_finish: "handles (shr_finish S s) = handles s" and peek_finish: "shr_peek S (shr_finish S s)"

subsection \<open>The registry\<close>

record coalescing_config =
  co_enabled :: bool
  max_groups :: nat
  max_waiters :: nat

datatype role = Bypass | Leader | Joined

text \<open>One unit of shared work: the future and the counter of its holds.\<close>

record 's flight_cell =
  fc_shared :: 's
  fc_holds :: nat

record flight_group =
  g_cell :: nat
  g_sent :: nat

record ('w, 's) flights =
  fl_config :: coalescing_config
  fl_groups :: "('w, flight_group) fmap"
  fl_cells :: "nat \<Rightarrow> 's flight_cell"
  fl_next :: nat

definition flights_new :: "'s shared_ops \<Rightarrow> coalescing_config \<Rightarrow> ('w, 's) flights" where
  "flights_new S cfg = \<lparr>fl_config = cfg, fl_groups = fmempty, fl_cells = (\<lambda>_. \<lparr>fc_shared = shr_new S, fc_holds = 0\<rparr>), fl_next = 0\<rparr>"

definition set_cell :: "nat \<Rightarrow> 's flight_cell \<Rightarrow> ('w, 's) flights \<Rightarrow> ('w, 's) flights" where
  "set_cell w c fl = fl\<lparr>fl_cells := (fl_cells fl)(w := c)\<rparr>"

definition hold_new :: "nat \<Rightarrow> ('w, 's) flights \<Rightarrow> ('w, 's) flights" where
  "hold_new w fl = (let c = fl_cells fl w in set_cell w (c\<lparr>fc_holds := fc_holds c + 1\<rparr>) fl)"

text \<open>\<open>Hold::leave\<close>: whether this hold is the last, which stays counted.\<close>

definition hold_leave :: "nat \<Rightarrow> ('w, 's) flights \<Rightarrow> bool \<times> ('w, 's) flights" where
  "hold_leave w fl = (let c = fl_cells fl w in
     if 1 < fc_holds c then (False, set_cell w (c\<lparr>fc_holds := fc_holds c - 1\<rparr>) fl) else (True, fl))"

text \<open>\<open>Hold::drop\<close> of a counted hold, and the later drop of its handle.\<close>

definition hold_drop :: "nat \<Rightarrow> ('w, 's) flights \<Rightarrow> ('w, 's) flights" where
  "hold_drop w fl = (let c = fl_cells fl w in set_cell w (c\<lparr>fc_holds := fc_holds c - 1\<rparr>) fl)"

definition hold_release :: "'s shared_ops \<Rightarrow> nat \<Rightarrow> ('w, 's) flights \<Rightarrow> ('w, 's) flights" where
  "hold_release S w fl = (let c = fl_cells fl w in set_cell w (c\<lparr>fc_shared := shr_drop S (fc_shared c)\<rparr>) fl)"

definition new_cell :: "'s shared_ops \<Rightarrow> ('w, 's) flights \<Rightarrow> nat \<times> ('w, 's) flights" where
  "new_cell S fl = (fl_next fl, (set_cell (fl_next fl) \<lparr>fc_shared = shr_new S, fc_holds = 0\<rparr> fl)\<lparr>fl_next := fl_next fl + 1\<rparr>)"

definition pending_group :: "'s shared_ops \<Rightarrow> ('w, 's) flights \<Rightarrow> flight_group \<Rightarrow> bool" where
  "pending_group S fl g = (case shr_upgrade S (fc_shared (fl_cells fl (g_cell g))) of None \<Rightarrow> False | Some f \<Rightarrow> \<not> shr_peek S f)"

definition reap :: "'s shared_ops \<Rightarrow> ('w, 's) flights \<Rightarrow> ('w, 's) flights" where
  "reap S fl = fl\<lparr>fl_groups :=
     fmfilter (\<lambda>k. case fmlookup (fl_groups fl) k of None \<Rightarrow> False | Some g \<Rightarrow> pending_group S fl g) (fl_groups fl)\<rparr>"

text \<open>The rest of \<open>Flights::join\<close> under the lock, up to the new hold; \<open>None\<close> is the overload error.\<close>

definition join_lead ::
  "'s shared_ops \<Rightarrow> ('w, 's) flights \<Rightarrow> 'w \<Rightarrow> nat \<Rightarrow> (nat \<times> role \<times> nat) option \<times> ('w, 's) flights" where
  "join_lead S fl key sent =
     (if max_groups (fl_config fl) \<le> fmsize (fl_groups fl) then (None, fl)
      else case new_cell S fl of (w, fl') \<Rightarrow>
        (Some (w, Leader, sent), fl'\<lparr>fl_groups := fmupd key \<lparr>g_cell = w, g_sent = sent\<rparr> (fl_groups fl')\<rparr>))"

definition join_find ::
  "'s shared_ops \<Rightarrow> ('w, 's) flights \<Rightarrow> 'w \<Rightarrow> nat \<Rightarrow> (nat \<times> role \<times> nat) option \<times> ('w, 's) flights" where
  "join_find S fl key sent = (case fmlookup (fl_groups fl) key of
     None \<Rightarrow> join_lead S fl key sent
   | Some g \<Rightarrow>
       (let c = fl_cells fl (g_cell g) in
        case shr_upgrade S (fc_shared c) of
          None \<Rightarrow> join_lead S fl key sent
        | Some f \<Rightarrow>
            if max_waiters (fl_config fl) \<le> fc_holds c then (None, fl)
            else (Some (g_cell g, Joined, g_sent g), set_cell (g_cell g) (c\<lparr>fc_shared := f\<rparr>) fl)))"

definition flight_key :: "('n, 'w) dns_ops \<Rightarrow> coalescing_config \<Rightarrow> 'n message \<Rightarrow> 'w option" where
  "flight_key D cfg query = (if co_enabled cfg then canonical_work_key D query else None)"

definition join ::
  "('n, 'w) dns_ops \<Rightarrow> 's shared_ops \<Rightarrow> ('w, 's) flights \<Rightarrow> 'n message \<Rightarrow> nat \<Rightarrow> (nat \<times> role \<times> nat) option \<times> ('w, 's) flights" where
  "join D S fl query sent = (case flight_key D (fl_config fl) query of
     None \<Rightarrow> (case new_cell S fl of (w, fl') \<Rightarrow> (Some (w, Bypass, sent), hold_new w fl'))
   | Some key \<Rightarrow>
       (case join_find S (reap S fl) key sent of
          (None, fl') \<Rightarrow> (None, fl')
        | (Some (w, r, s), fl') \<Rightarrow> (Some (w, r, s), hold_new w fl')))"

subsection \<open>Runs\<close>

text \<open>A holder counts until it leaves or is dropped, and keeps its handle a little longer.\<close>

record holder =
  ho_cell :: nat
  ho_counted :: bool

datatype 'w pending = Locked 'w nat | Found nat

text \<open>\<open>fs_key\<close> records the key each unit of work was started for.\<close>

record ('w, 's) flight_sys =
  fs_fl :: "('w, 's) flights"
  fs_holders :: "holder multiset"
  fs_pending :: "'w pending option"
  fs_key :: "nat \<Rightarrow> 'w option"

inductive flight_step :: "'s shared_ops \<Rightarrow> ('w, 's) flight_sys \<Rightarrow> ('w, 's) flight_sys \<Rightarrow> bool" for S where
  bypass: "new_cell S fl = (w, fl') \<Longrightarrow>
    flight_step S \<lparr>fs_fl = fl, fs_holders = H, fs_pending = p, fs_key = K\<rparr>
      \<lparr>fs_fl = hold_new w fl', fs_holders = add_mset \<lparr>ho_cell = w, ho_counted = True\<rparr> H, fs_pending = p, fs_key = K(w := None)\<rparr>"
| lock: "flight_step S \<lparr>fs_fl = fl, fs_holders = H, fs_pending = None, fs_key = K\<rparr>
      \<lparr>fs_fl = reap S fl, fs_holders = H, fs_pending = Some (Locked key sent), fs_key = K\<rparr>"
| refuse: "join_find S fl key sent = (None, fl') \<Longrightarrow>
    flight_step S \<lparr>fs_fl = fl, fs_holders = H, fs_pending = Some (Locked key sent), fs_key = K\<rparr>
      \<lparr>fs_fl = fl', fs_holders = H, fs_pending = None, fs_key = K\<rparr>"
| find: "join_find S fl key sent = (Some (w, r, s), fl') \<Longrightarrow>
    flight_step S \<lparr>fs_fl = fl, fs_holders = H, fs_pending = Some (Locked key sent), fs_key = K\<rparr>
      \<lparr>fs_fl = fl', fs_holders = H, fs_pending = Some (Found w), fs_key = (if r = Leader then K(w := Some key) else K)\<rparr>"
| count: "flight_step S \<lparr>fs_fl = fl, fs_holders = H, fs_pending = Some (Found w), fs_key = K\<rparr>
      \<lparr>fs_fl = hold_new w fl, fs_holders = add_mset \<lparr>ho_cell = w, ho_counted = True\<rparr> H, fs_pending = None, fs_key = K\<rparr>"
| leave: "hold_leave w fl = (is_last, fl') \<Longrightarrow>
    flight_step S \<lparr>fs_fl = fl, fs_holders = add_mset \<lparr>ho_cell = w, ho_counted = True\<rparr> H, fs_pending = p, fs_key = K\<rparr>
      \<lparr>fs_fl = fl', fs_holders = add_mset \<lparr>ho_cell = w, ho_counted = is_last\<rparr> H, fs_pending = p, fs_key = K\<rparr>"
| drop: "flight_step S \<lparr>fs_fl = fl, fs_holders = add_mset \<lparr>ho_cell = w, ho_counted = True\<rparr> H, fs_pending = p, fs_key = K\<rparr>
      \<lparr>fs_fl = hold_drop w fl, fs_holders = add_mset \<lparr>ho_cell = w, ho_counted = False\<rparr> H, fs_pending = p, fs_key = K\<rparr>"
| release: "flight_step S \<lparr>fs_fl = fl, fs_holders = add_mset \<lparr>ho_cell = w, ho_counted = False\<rparr> H, fs_pending = p, fs_key = K\<rparr>
      \<lparr>fs_fl = hold_release S w fl, fs_holders = H, fs_pending = p, fs_key = K\<rparr>"
| finish: "ho_cell h = w \<Longrightarrow> h \<in># H \<Longrightarrow>
    flight_step S \<lparr>fs_fl = fl, fs_holders = H, fs_pending = p, fs_key = K\<rparr>
      \<lparr>fs_fl = set_cell w ((fl_cells fl w)\<lparr>fc_shared := shr_finish S (fc_shared (fl_cells fl w))\<rparr>) fl, fs_holders = H,
       fs_pending = p, fs_key = K\<rparr>"

inductive flight_reach :: "'s shared_ops \<Rightarrow> coalescing_config \<Rightarrow> ('w, 's) flight_sys \<Rightarrow> bool" for S cfg where
  init: "flight_reach S cfg \<lparr>fs_fl = flights_new S cfg, fs_holders = {#}, fs_pending = None, fs_key = (\<lambda>_. None)\<rparr>"
| step: "flight_reach S cfg s \<Longrightarrow> flight_step S s s' \<Longrightarrow> flight_reach S cfg s'"

subsection \<open>The invariant\<close>

abbreviation at_cell :: "nat \<Rightarrow> holder multiset \<Rightarrow> holder multiset" where
  "at_cell w H \<equiv> filter_mset (\<lambda>h. ho_cell h = w) H"

abbreviation counted_at :: "nat \<Rightarrow> holder multiset \<Rightarrow> holder multiset" where
  "counted_at w H \<equiv> filter_mset (\<lambda>h. ho_cell h = w \<and> ho_counted h) H"

definition found_at :: "'w pending option \<Rightarrow> nat \<Rightarrow> nat" where
  "found_at p w = (if p = Some (Found w) then 1 else 0)"

lemma found_at_simps [simp]:
  "found_at None w = 0" "found_at (Some (Locked k s)) w = 0" "found_at (Some (Found v)) w = (if v = w then 1 else 0)"
  by (auto simp: found_at_def)

text \<open>The counters and handles agree with the holders, and the limits hold.\<close>

definition cell_ok :: "('s \<Rightarrow> nat) \<Rightarrow> ('w, 's) flight_sys \<Rightarrow> nat \<Rightarrow> bool" where
  "cell_ok handles s w = (let c = fl_cells (fs_fl s) w in
     if w < fl_next (fs_fl s) then
       fc_holds c = size (counted_at w (fs_holders s))
       \<and> handles (fc_shared c) = size (at_cell w (fs_holders s)) + found_at (fs_pending s) w
       \<and> fc_holds c + found_at (fs_pending s) w \<le> max 1 (max_waiters (fl_config (fs_fl s)))
     else size (at_cell w (fs_holders s)) = 0 \<and> size (counted_at w (fs_holders s)) = 0 \<and> found_at (fs_pending s) w = 0)"

text \<open>Unfinished work that anyone holds is the registered work of its key.\<close>

definition groups_ok :: "'s shared_ops \<Rightarrow> ('s \<Rightarrow> nat) \<Rightarrow> ('w, 's) flight_sys \<Rightarrow> bool" where
  "groups_ok S handles s = (let fl = fs_fl s in
     (\<forall>k g. fmlookup (fl_groups fl) k = Some g \<longrightarrow> g_cell g < fl_next fl \<and> fs_key s (g_cell g) = Some k)
     \<and> (\<forall>w k. w < fl_next fl \<longrightarrow> fs_key s w = Some k \<longrightarrow> 0 < handles (fc_shared (fl_cells fl w)) \<longrightarrow>
          \<not> shr_peek S (fc_shared (fl_cells fl w)) \<longrightarrow> (\<exists>g. fmlookup (fl_groups fl) k = Some g \<and> g_cell g = w))
     \<and> fmsize (fl_groups fl) \<le> max_groups (fl_config fl))"

lemmas flight_ops = new_cell_def hold_new_def hold_leave_def hold_drop_def hold_release_def set_cell_def Let_def

context shared_future
begin

lemma pending_iff: "pending_group S fl g \<longleftrightarrow>
   0 < handles (fc_shared (fl_cells fl (g_cell g))) \<and> \<not> shr_peek S (fc_shared (fl_cells fl (g_cell g)))"
  using upgrade_dead[of "fc_shared (fl_cells fl (g_cell g))"] upgrade_live[of "fc_shared (fl_cells fl (g_cell g))"]
  by (cases "handles (fc_shared (fl_cells fl (g_cell g)))") (auto simp: pending_group_def)

lemma upgradeD: "shr_upgrade S s = Some s' \<Longrightarrow> 0 < handles s \<and> handles s' = handles s + 1 \<and> shr_peek S s' = shr_peek S s"
  using upgrade_dead[of s] upgrade_live[of s] by (cases "handles s") auto

lemma reap_lookup: "fmlookup (fl_groups (reap S fl)) k = Some g \<longleftrightarrow>
   fmlookup (fl_groups fl) k = Some g \<and> 0 < handles (fc_shared (fl_cells fl (g_cell g))) \<and> \<not> shr_peek S (fc_shared (fl_cells fl (g_cell g)))"
  by (auto simp: reap_def pending_iff split: option.splits if_splits)

lemma reap_size: "fmsize (fl_groups (reap S fl)) \<le> fmsize (fl_groups fl)"
  by (auto simp: reap_def intro!: fcard_mono)

lemma reap_other [simp]: "fl_config (reap S fl) = fl_config fl" "fl_cells (reap S fl) = fl_cells fl" "fl_next (reap S fl) = fl_next fl"
  by (simp_all add: reap_def)

lemma join_find_cases:
  assumes "join_find S fl key sent = (Some (w, r, t), fl')"
  obtains (lead) "r = Leader" "w = fl_next fl" "fmsize (fl_groups fl) < max_groups (fl_config fl)"
      "\<forall>g. fmlookup (fl_groups fl) key = Some g \<longrightarrow> handles (fc_shared (fl_cells fl (g_cell g))) = 0"
      "fl' = (set_cell w \<lparr>fc_shared = shr_new S, fc_holds = 0\<rparr> fl)\<lparr>fl_next := fl_next fl + 1, fl_groups := fmupd key \<lparr>g_cell = w, g_sent = sent\<rparr> (fl_groups fl)\<rparr>"
    | (joined) g f where "r = Joined" "w = g_cell g" "fmlookup (fl_groups fl) key = Some g"
      "fc_holds (fl_cells fl w) < max_waiters (fl_config fl)" "0 < handles (fc_shared (fl_cells fl w))"
      "handles f = handles (fc_shared (fl_cells fl w)) + 1" "shr_peek S f = shr_peek S (fc_shared (fl_cells fl w))"
      "fl' = set_cell w ((fl_cells fl w)\<lparr>fc_shared := f\<rparr>) fl"
proof (cases "\<forall>g. fmlookup (fl_groups fl) key = Some g \<longrightarrow> shr_upgrade S (fc_shared (fl_cells fl (g_cell g))) = None")
  case True
  then have "join_find S fl key sent = join_lead S fl key sent"
    by (auto simp: join_find_def Let_def split: option.splits)
  moreover have "\<forall>g. fmlookup (fl_groups fl) key = Some g \<longrightarrow> handles (fc_shared (fl_cells fl (g_cell g))) = 0"
    using True upgrade_live by fastforce
  ultimately show ?thesis
    using assms by (intro lead) (auto simp: join_lead_def new_cell_def set_cell_def split: if_splits)
next
  case False
  then obtain g f where g: "fmlookup (fl_groups fl) key = Some g" "shr_upgrade S (fc_shared (fl_cells fl (g_cell g))) = Some f"
    by auto
  with assms have "r = Joined" "w = g_cell g" "fc_holds (fl_cells fl w) < max_waiters (fl_config fl)"
    "fl' = set_cell w ((fl_cells fl w)\<lparr>fc_shared := f\<rparr>) fl"
    by (auto simp: join_find_def Let_def split: if_splits)
  with g upgradeD[OF g(2)] show ?thesis
    by (intro joined[of g f]) auto
qed

lemma join_find_refused: "join_find S fl key sent = (None, fl') \<Longrightarrow> fl' = fl"
  by (auto simp: join_find_def join_lead_def Let_def new_cell_def split: option.splits if_splits)

lemma cell_ok_step:
  assumes "flight_step S s s'" "\<And>v. cell_ok handles s v" "groups_ok S handles s"
  shows "cell_ok handles s' v"
  using assms(1)
proof (cases rule: flight_step.cases)
  case (bypass fl w fl' H p K)
  with assms(2)[of v] show ?thesis
    by (auto simp: cell_ok_def flight_ops handles_new simp del: size_eq_0_iff_empty split: if_splits)
next
  case (lock fl H K key sent)
  with assms(2)[of v] show ?thesis
    by (auto simp: cell_ok_def Let_def simp del: size_eq_0_iff_empty split: if_splits)
next
  case (refuse fl key sent fl' H K)
  with assms(2)[of v] join_find_refused[OF refuse(3)] show ?thesis
    by (auto simp: cell_ok_def Let_def simp del: size_eq_0_iff_empty split: if_splits)
next
  case (find fl key sent w r t fl' H K)
  from find(3) show ?thesis
  proof (cases rule: join_find_cases)
    case lead
    with assms(2)[of v] find(1,2) show ?thesis
      by (auto simp: cell_ok_def flight_ops handles_new simp del: size_eq_0_iff_empty split: if_splits)
  next
    case (joined g f)
    with assms(3) find(1) have "w < fl_next fl" by (auto simp: groups_ok_def Let_def)
    with joined(1,2,4,6,8) assms(2)[of v] find(1,2) show ?thesis
      by (auto simp: cell_ok_def flight_ops simp del: size_eq_0_iff_empty split: if_splits)
  qed
next
  case (count fl H w K)
  with assms(2)[of v] show ?thesis
    by (auto simp: cell_ok_def flight_ops simp del: size_eq_0_iff_empty split: if_splits)
next
  case (leave w fl is_last fl' H p K)
  with assms(2)[of v] show ?thesis
    by (auto simp: cell_ok_def flight_ops simp del: size_eq_0_iff_empty split: if_splits)
next
  case (drop fl w H p K)
  with assms(2)[of v] show ?thesis
    by (auto simp: cell_ok_def flight_ops simp del: size_eq_0_iff_empty split: if_splits)
next
  case (release fl w H p K)
  with assms(2)[of v] show ?thesis
    by (auto simp: cell_ok_def flight_ops handles_drop simp del: size_eq_0_iff_empty split: if_splits)
next
  case (finish h w H fl p K)
  with assms(2)[of v] show ?thesis
    by (auto simp: cell_ok_def flight_ops handles_finish simp del: size_eq_0_iff_empty split: if_splits)
qed

lemma groups_ok_step:
  assumes "flight_step S s s'" "\<And>v. cell_ok handles s v" "groups_ok S handles s"
  shows "groups_ok S handles s'"
  using assms(1)
proof (cases rule: flight_step.cases)
  case (bypass fl w fl' H p K)
  with assms(3) show ?thesis
    by (fastforce simp: groups_ok_def flight_ops less_Suc_eq)
next
  case (lock fl H K key sent)
  with assms(3) reap_size[of fl] show ?thesis
    by (fastforce simp: groups_ok_def Let_def reap_lookup)
next
  case (refuse fl key sent fl' H K)
  with assms(3) join_find_refused[OF refuse(3)] show ?thesis by (simp add: groups_ok_def Let_def)
next
  case (find fl key sent w r t fl' H K)
  from find(3) show ?thesis
  proof (cases rule: join_find_cases)
    case lead
    with assms(3) find(1,2) show ?thesis
      by (fastforce simp: groups_ok_def flight_ops fcard_finsert_if less_Suc_eq)
  next
    case (joined g f)
    with assms(3) find(1,2) show ?thesis
      by (auto simp: groups_ok_def flight_ops)
  qed
next
  case (count fl H w K)
  with assms(3) show ?thesis by (simp add: groups_ok_def flight_ops)
next
  case (leave w fl is_last fl' H p K)
  with assms(3) show ?thesis by (auto simp: groups_ok_def flight_ops split: if_splits)
next
  case (drop fl w H p K)
  with assms(3) show ?thesis by (simp add: groups_ok_def flight_ops)
next
  case (release fl w H p K)
  with assms(3) show ?thesis by (auto simp: groups_ok_def flight_ops handles_drop peek_drop)
next
  case (finish h w H fl p K)
  with assms(3) show ?thesis by (auto simp: groups_ok_def flight_ops peek_finish)
qed

theorem flight_reach_ok:
  assumes "flight_reach S cfg s"
  shows "(\<forall>v. cell_ok handles s v) \<and> groups_ok S handles s \<and> fl_config (fs_fl s) = cfg"
  using assms
proof induction
  case init
  show ?case by (simp add: cell_ok_def groups_ok_def flights_new_def Let_def fcard_fempty)
next
  case (step s s')
  moreover have "fl_config (fs_fl s') = fl_config (fs_fl s)"
    using step(2) by cases (auto simp: flight_ops reap_def join_find_def join_lead_def split: option.splits if_splits)
  ultimately show ?case
    using cell_ok_step[OF step(2)] groups_ok_step[OF step(2)] by simp
qed

end

subsection \<open>Whole operations as runs\<close>

text \<open>A join that no other caller interleaves with is a run of the steps above.\<close>

lemma join_reach:
  assumes "flight_reach S cfg s" "fs_pending s = None" "join D S (fs_fl s) query sent = (Some (w, r, t), fl')"
  shows "flight_reach S cfg (s\<lparr>fs_fl := fl', fs_holders := add_mset \<lparr>ho_cell = w, ho_counted = True\<rparr> (fs_holders s),
    fs_key := if r = Joined then fs_key s else (fs_key s)(w := flight_key D (fl_config (fs_fl s)) query)\<rparr>)"
proof (cases "flight_key D (fl_config (fs_fl s)) query")
  case None
  then obtain fl1 where "new_cell S (fs_fl s) = (w, fl1)" "fl' = hold_new w fl1" "r = Bypass"
    using assms(3) by (auto simp: join_def split: prod.splits)
  with flight_step.bypass[of S "fs_fl s" w fl1 "fs_holders s" "fs_pending s" "fs_key s"] assms(1) None show ?thesis
    by (cases s) (auto intro: flight_reach.step)
next
  case (Some key)
  then obtain fl1 where fl1: "join_find S (reap S (fs_fl s)) key sent = (Some (w, r, t), fl1)" "fl' = hold_new w fl1"
    using assms(3) by (auto simp: join_def split: prod.splits option.splits)
  have r: "r \<noteq> Bypass"
    using fl1(1) by (auto simp: join_find_def join_lead_def Let_def new_cell_def split: option.splits if_splits)
  obtain fl H K where s: "s = \<lparr>fs_fl = fl, fs_holders = H, fs_pending = None, fs_key = K\<rparr>"
    using assms(2) by (cases s) auto
  have "flight_reach S cfg \<lparr>fs_fl = fl1, fs_holders = H, fs_pending = Some (Found w), fs_key = (if r = Leader then K(w := Some key) else K)\<rparr>"
    using flight_reach.step[OF flight_reach.step[OF assms(1)[unfolded s] flight_step.lock] flight_step.find] fl1(1) s by simp
  from flight_reach.step[OF this flight_step.count] show ?thesis
    using s Some r fl1(2) by (cases r) simp_all
qed

subsection \<open>What callers rely on\<close>

text \<open>A counter of handles with a completion flag is such a future.\<close>

definition ref_shared :: "(nat \<times> bool) shared_ops" where
  "ref_shared = \<lparr>shr_new = (1, False), shr_upgrade = (\<lambda>(n, d). if n = 0 then None else Some (n + 1, d)),
     shr_drop = (\<lambda>(n, d). (n - 1, d)), shr_finish = (\<lambda>(n, d). (n, True)), shr_peek = snd\<rparr>"

interpretation ref_shared: shared_future ref_shared fst
  by unfold_locales (auto simp: ref_shared_def)

text \<open>Two identical queries: the first leads and the second joins it.\<close>

definition demo_coalescing :: coalescing_config where
  "demo_coalescing = \<lparr>co_enabled = True, max_groups = 4, max_waiters = 2\<rparr>"

definition demo_flights :: "nat \<Rightarrow> (ref_name message, nat \<times> bool) flights" where
  "demo_flights n = ((\<lambda>fl. snd (join ref_dns ref_shared fl demo_query 0)) ^^ n) (flights_new ref_shared demo_coalescing)"

definition demo_flight_sys :: "(ref_name message, nat \<times> bool) flight_sys" where
  "demo_flight_sys = \<lparr>fs_fl = demo_flights 2, fs_holders = {#\<lparr>ho_cell = 0, ho_counted = True\<rparr>, \<lparr>ho_cell = 0, ho_counted = True\<rparr>#},
     fs_pending = None, fs_key = (\<lambda>_. None)(0 := Some (demo_query\<lparr>id := 0\<rparr>))\<rparr>"

lemmas demo_flight_simps = join_def flight_key_def work_key_demo join_find_def join_lead_def reap_def pending_group_def
  flight_ops flights_new_def ref_shared_def demo_coalescing_def fcard_fempty fcard_finsert_if

lemma demo_joins:
  "join ref_dns ref_shared (demo_flights 0) demo_query 0 = (Some (0, Leader, 0), demo_flights 1)"
  "join ref_dns ref_shared (demo_flights 1) demo_query 0 = (Some (0, Joined, 0), demo_flights 2)"
  by (simp_all add: demo_flights_def numeral_2_eq_2 demo_flight_simps)

lemma demo_flight_reach: "flight_reach ref_shared demo_coalescing demo_flight_sys"
proof -
  have "flight_reach ref_shared demo_coalescing \<lparr>fs_fl = demo_flights 0, fs_holders = {#}, fs_pending = None, fs_key = (\<lambda>_. None)\<rparr>"
    using flight_reach.init[of ref_shared demo_coalescing] by (simp add: demo_flights_def)
  from join_reach[OF this, simplified, OF demo_joins(1)]
  have one: "flight_reach ref_shared demo_coalescing \<lparr>fs_fl = demo_flights 1, fs_holders = {#\<lparr>ho_cell = 0, ho_counted = True\<rparr>#},
      fs_pending = None, fs_key = (\<lambda>_. None)(0 := Some (demo_query\<lparr>id := 0\<rparr>))\<rparr>"
    by (simp add: demo_flights_def flight_key_def flights_new_def demo_coalescing_def work_key_demo)
  from join_reach[OF one, simplified, OF demo_joins(2)[simplified]] show ?thesis
    by (simp add: demo_flight_sys_def)
qed

text \<open>C27. Single flight: in every reachable interleaving, two callers that hold unfinished shared
  work of one key hold the same work; no work has more counted holders than \<open>max_waiters\<close>
  (one, when that is zero), and the registry never exceeds \<open>max_groups\<close>.
\<close>

theorem single_flight:
  assumes "shared_future S handles" "flight_reach S cfg s" "h1 \<in># fs_holders s" "h2 \<in># fs_holders s"
    and "fs_key s (ho_cell h1) = Some key" "fs_key s (ho_cell h2) = Some key"
    and "\<not> shr_peek S (fc_shared (fl_cells (fs_fl s) (ho_cell h1)))"
    and "\<not> shr_peek S (fc_shared (fl_cells (fs_fl s) (ho_cell h2)))"
  shows "ho_cell h1 = ho_cell h2
    \<and> size (counted_at (ho_cell h1) (fs_holders s)) \<le> max 1 (max_waiters cfg)
    \<and> fmsize (fl_groups (fs_fl s)) \<le> max_groups cfg"
proof -
  note ok = shared_future.flight_reach_ok[OF assms(1,2)]
  have held: "ho_cell h < fl_next (fs_fl s) \<and> 0 < handles (fc_shared (fl_cells (fs_fl s) (ho_cell h)))
      \<and> size (counted_at (ho_cell h) (fs_holders s)) \<le> max 1 (max_waiters cfg)" if "h \<in># fs_holders s" for h
  proof -
    have "at_cell (ho_cell h) (fs_holders s) \<noteq> {#}" using that by auto
    then have "0 < size (at_cell (ho_cell h) (fs_holders s))" by (simp only: nonempty_has_size)
    moreover have "cell_ok handles s (ho_cell h)" using ok by simp
    ultimately show ?thesis
      using ok by (auto simp: cell_ok_def Let_def simp del: size_eq_0_iff_empty size_empty nonempty_has_size split: if_splits)
  qed
  have "\<exists>g. fmlookup (fl_groups (fs_fl s)) key = Some g \<and> g_cell g = ho_cell h1"
    "\<exists>g. fmlookup (fl_groups (fs_fl s)) key = Some g \<and> g_cell g = ho_cell h2"
    using held[OF assms(3)] held[OF assms(4)] assms(5-) ok by (auto simp: groups_ok_def Let_def)
  then show ?thesis
    using held[OF assms(3)] ok by (auto simp: groups_ok_def Let_def)
qed

theorem single_flight_witness: "fmsize (fl_groups (fs_fl demo_flight_sys)) \<le> 4"
proof -
  have "\<not> shr_peek ref_shared (fc_shared (fl_cells (fs_fl demo_flight_sys) 0))"
    by (simp add: demo_flight_sys_def demo_flights_def numeral_2_eq_2 demo_flight_simps)
  then show ?thesis
    using single_flight[OF ref_shared.shared_future_axioms demo_flight_reach,
      of "\<lparr>ho_cell = 0, ho_counted = True\<rparr>" "\<lparr>ho_cell = 0, ho_counted = True\<rparr>" "demo_query\<lparr>id := 0\<rparr>"]
    by (simp add: demo_flight_sys_def demo_coalescing_def)
qed

text \<open>C28. Exactly one last: when a counted holder leaves, in any reachable interleaving, it is
  told that it is the last exactly when no other counted holder is left; otherwise at least
  one counted holder remains and its counter records exactly the others.
\<close>

theorem leave_last:
  assumes "shared_future S handles" "flight_reach S cfg s"
    and "fs_holders s = add_mset \<lparr>ho_cell = w, ho_counted = True\<rparr> others"
  shows "(fst (hold_leave w (fs_fl s)) \<longleftrightarrow> counted_at w others = {#})
    \<and> fc_holds (fl_cells (snd (hold_leave w (fs_fl s))) w) = max 1 (size (counted_at w others))"
proof -
  have "cell_ok handles s w" using shared_future.flight_reach_ok[OF assms(1,2)] by simp
  then have "fc_holds (fl_cells (fs_fl s) w) = Suc (size (counted_at w others))"
    using assms(3) by (auto simp: cell_ok_def Let_def split: if_splits)
  then show ?thesis
    unfolding size_eq_0_iff_empty[symmetric]
    by (simp add: hold_leave_def Let_def set_cell_def del: size_eq_0_iff_empty)
qed

theorem leave_last_witness: "\<not> fst (hold_leave 0 (demo_flights 2)) \<and> fc_holds (fl_cells (snd (hold_leave 0 (demo_flights 2))) 0) = 1"
  using leave_last[OF ref_shared.shared_future_axioms demo_flight_reach, of 0 "{#\<lparr>ho_cell = 0, ho_counted = True\<rparr>#}"]
  by (simp add: demo_flight_sys_def)

end
