(* ===== verification/Refresh.thy ===== *)
theory Refresh
  imports Answer
begin

text \<open>
  Background refresh of one cache generation, \<open>src/src/resolver/refresh.rs\<close>. Every operation
  takes the state lock once, so an operation is one step. The task set is tokio's \<open>JoinSet\<close>:
  what the owner sees of it is the completion guard of each task, which is dropped once, with the
  result of the work or, when the task was aborted, with none. A task's key is the work
  key followed by the eight bytes of the epoch, here a pair. The iteration order of the
  cooldown table is an argument.
\<close>

datatype purpose = Prefetch | Fill

type_synonym 'w refresh_key = "'w \<times> nat"

record 'w completion =
  done_key :: "'w refresh_key"
  done_backoff :: duration
  done_capacity :: nat

record 'w refresh_task =
  rt_done :: "'w completion"
  rt_aborted :: bool

record 'w refresh =
  rf_closed :: bool
  rf_tasks :: "'w refresh_task list"
  rf_finished :: nat
  rf_active :: "'w refresh_key fset"
  rf_cooldown :: "('w refresh_key, instant) fmap"
  rf_starts :: "instant list"
  rf_scheduled :: "64 word"
  rf_success :: "64 word"
  rf_failure :: "64 word"
  rf_rejected_duplicate :: "64 word"
  rf_rejected_cooldown :: "64 word"
  rf_rejected_budget :: "64 word"
  rf_cancelled_fill_rejected :: "64 word"

definition refresh_new :: "'w refresh" where
  "refresh_new = \<lparr>rf_closed = False, rf_tasks = [], rf_finished = 0, rf_active = {||}, rf_cooldown = fmempty, rf_starts = [],
     rf_scheduled = 0, rf_success = 0, rf_failure = 0, rf_rejected_duplicate = 0, rf_rejected_cooldown = 0,
     rf_rejected_budget = 0, rf_cancelled_fill_rejected = 0\<rparr>"

record snapshot =
  sn_active :: nat
  sn_scheduled :: "64 word"
  sn_success :: "64 word"
  sn_failure :: "64 word"
  sn_rejected_duplicate :: "64 word"
  sn_rejected_cooldown :: "64 word"
  sn_rejected_budget :: "64 word"
  sn_cancelled_fill_rejected :: "64 word"

definition snapshot_of :: "'w refresh \<Rightarrow> snapshot" where
  "snapshot_of r = \<lparr>sn_active = fcard (rf_active r), sn_scheduled = rf_scheduled r, sn_success = rf_success r,
     sn_failure = rf_failure r, sn_rejected_duplicate = rf_rejected_duplicate r, sn_rejected_cooldown = rf_rejected_cooldown r,
     sn_rejected_budget = rf_rejected_budget r, sn_cancelled_fill_rejected = rf_cancelled_fill_rejected r\<rparr>"

subsection \<open>Scheduling\<close>

definition refresh_capacity :: "prefetch_config \<Rightarrow> nat" where
  "refresh_capacity cfg = clamp 64 4096 (saturating_mul (max_inflight cfg) 8)"

text \<open>The upkeep at the start of \<open>schedule\<close>.\<close>

definition refresh_sweep :: "instant \<Rightarrow> 'w refresh \<Rightarrow> 'w refresh" where
  "refresh_sweep now r = r\<lparr>rf_finished := 0,
     rf_cooldown := fmfilter (\<lambda>k. case fmlookup (rf_cooldown r) k of None \<Rightarrow> False | Some until \<Rightarrow> now < until) (rf_cooldown r),
     rf_starts := dropWhile (\<lambda>start. from_secs 1 \<le> saturating_duration_since now start) (rf_starts r)\<rparr>"

datatype rejection = RejectedDuplicate | RejectedCooldown | RejectedBudget

definition refresh_rejected :: "prefetch_config \<Rightarrow> 'w refresh \<Rightarrow> 'w refresh_key \<Rightarrow> rejection option" where
  "refresh_rejected cfg r key =
     (if key |\<in>| rf_active r then Some RejectedDuplicate
      else if key |\<in>| fmdom (rf_cooldown r) then Some RejectedCooldown
      else if max_inflight cfg \<le> fcard (rf_active r) \<or> rate_per_sec cfg \<le> length (rf_starts r) then Some RejectedBudget
      else None)"

fun count_rejection :: "purpose \<Rightarrow> rejection \<Rightarrow> 'w refresh \<Rightarrow> 'w refresh" where
  "count_rejection Fill _ r = r\<lparr>rf_cancelled_fill_rejected := rf_cancelled_fill_rejected r + 1\<rparr>"
| "count_rejection Prefetch RejectedDuplicate r = r\<lparr>rf_rejected_duplicate := rf_rejected_duplicate r + 1\<rparr>"
| "count_rejection Prefetch RejectedCooldown r = r\<lparr>rf_rejected_cooldown := rf_rejected_cooldown r + 1\<rparr>"
| "count_rejection Prefetch RejectedBudget r = r\<lparr>rf_rejected_budget := rf_rejected_budget r + 1\<rparr>"

definition refresh_start :: "prefetch_config \<Rightarrow> instant \<Rightarrow> 'w refresh_key \<Rightarrow> 'w refresh \<Rightarrow> 'w refresh" where
  "refresh_start cfg now key r = r\<lparr>rf_active := finsert key (rf_active r), rf_starts := rf_starts r @ [now],
     rf_scheduled := rf_scheduled r + 1,
     rf_tasks := rf_tasks r @ [\<lparr>rt_done = \<lparr>done_key = key, done_backoff = from_secs (backoff_secs cfg),
        done_capacity = refresh_capacity cfg\<rparr>, rt_aborted = False\<rparr>]\<rparr>"

text \<open>The whole of \<open>Refresh::schedule\<close>, with whether the work was started.\<close>

definition schedule ::
  "('n, 'w) dns_ops \<Rightarrow> prefetch_config \<Rightarrow> 'w refresh \<Rightarrow> 'n message \<Rightarrow> nat \<Rightarrow> purpose \<Rightarrow> instant \<Rightarrow> bool \<times> 'w refresh" where
  "schedule D cfg r query epoch purpose now =
     (case canonical_work_key D query of
        None \<Rightarrow> (False, r)
      | Some wire \<Rightarrow>
          (let key = (wire, epoch); r = refresh_sweep now r in
           if rf_closed r then (False, r)
           else case refresh_rejected cfg r key of
                  Some counter \<Rightarrow> (False, count_rejection purpose counter r)
                | None \<Rightarrow> (True, refresh_start cfg now key r)))"

definition refresh_cancel :: "'w refresh \<Rightarrow> 'w refresh" where
  "refresh_cancel r = r\<lparr>rf_closed := True, rf_tasks := map (\<lambda>t. t\<lparr>rt_aborted := True\<rparr>) (rf_tasks r)\<rparr>"

subsection \<open>Completion\<close>

text \<open>\<open>Completion::drop\<close> at time \<open>now\<close>; \<open>order\<close> lists the cooldown table.\<close>

definition cooldown_insert ::
  "'w completion \<Rightarrow> 'w refresh_key list \<Rightarrow> instant \<Rightarrow> ('w refresh_key, instant) fmap \<Rightarrow> ('w refresh_key, instant) fmap" where
  "cooldown_insert c order now m =
     (let m = (if done_capacity c \<le> fmsize m
               then (case min_by_key (\<lambda>k. case fmlookup m k of None \<Rightarrow> 0 | Some until \<Rightarrow> until) order of
                       None \<Rightarrow> m | Some oldest \<Rightarrow> fmdrop oldest m)
               else m)
      in fmupd (done_key c) (now + done_backoff c) m)"

definition complete :: "'w completion \<Rightarrow> bool option \<Rightarrow> 'w refresh_key list \<Rightarrow> instant \<Rightarrow> 'w refresh \<Rightarrow> 'w refresh" where
  "complete c result order now r =
     (let r = r\<lparr>rf_active := rf_active r |-| {|done_key c|}\<rparr> in
      case result of
        Some True \<Rightarrow> r\<lparr>rf_success := rf_success r + 1\<rparr>
      | Some False \<Rightarrow>
          (let r = r\<lparr>rf_failure := rf_failure r + 1\<rparr> in
           if rf_closed r then r else r\<lparr>rf_cooldown := cooldown_insert c order now (rf_cooldown r)\<rparr>)
      | None \<Rightarrow> r)"

text \<open>The \<open>i\<close>-th running task ends. Only an aborted task ends without a result.\<close>

definition task_end ::
  "nat \<Rightarrow> bool option \<Rightarrow> 'w refresh_key list \<Rightarrow> instant \<Rightarrow> 'w refresh \<Rightarrow> 'w refresh option" where
  "task_end i result order now r =
     (if i < length (rf_tasks r) \<and> (result = None \<longrightarrow> rt_aborted (rf_tasks r ! i))
         \<and> distinct order \<and> set order = fset (fmdom (rf_cooldown r))
      then Some (complete (rt_done (rf_tasks r ! i)) result order now
        (r\<lparr>rf_tasks := take i (rf_tasks r) @ drop (Suc i) (rf_tasks r), rf_finished := rf_finished r + 1\<rparr>))
      else None)"

subsection \<open>Runs\<close>

text \<open>\<open>Cancel\<close> is \<open>cancel\<close>, and also the start of \<open>shutdown\<close>, which then waits for the tasks to end.
  A run logs the starts and counts the tasks that ended without a result.\<close>

datatype ('n, 'w) refresh_event =
    Schedule (ev_now: instant) "'n message" nat purpose
  | TaskEnd (ev_now: instant) nat "bool option" "'w refresh_key list"
  | Cancel (ev_now: instant)

record 'w refresh_sys =
  rs_refresh :: "'w refresh"
  rs_log :: "instant list"
  rs_cancelled :: nat

definition refresh_init :: "'w refresh_sys" where
  "refresh_init = \<lparr>rs_refresh = refresh_new, rs_log = [], rs_cancelled = 0\<rparr>"

fun refresh_exec ::
  "('n, 'w) dns_ops \<Rightarrow> prefetch_config \<Rightarrow> 'w refresh_sys \<Rightarrow> ('n, 'w) refresh_event \<Rightarrow> 'w refresh_sys option" where
  "refresh_exec D cfg sys (Schedule now query epoch purpose) =
     (case schedule D cfg (rs_refresh sys) query epoch purpose now of (started, r) \<Rightarrow>
        Some (sys\<lparr>rs_refresh := r, rs_log := rs_log sys @ (if started then [now] else [])\<rparr>))"
| "refresh_exec D cfg sys (TaskEnd now i result order) =
     (case task_end i result order now (rs_refresh sys) of
        None \<Rightarrow> None
      | Some r \<Rightarrow> Some (sys\<lparr>rs_refresh := r, rs_cancelled := rs_cancelled sys + (if result = None then 1 else 0)\<rparr>))"
| "refresh_exec D cfg sys (Cancel now) = Some (sys\<lparr>rs_refresh := refresh_cancel (rs_refresh sys)\<rparr>)"

subsection \<open>The invariant\<close>

abbreviation task_keys :: "'w refresh \<Rightarrow> 'w refresh_key list" where
  "task_keys r \<equiv> map (\<lambda>t. done_key (rt_done t)) (rf_tasks r)"

definition refresh_inv :: "prefetch_config \<Rightarrow> 'w refresh_sys \<Rightarrow> bool" where
  "refresh_inv cfg sys = (let r = rs_refresh sys in
     fset (rf_active r) = set (task_keys r) \<and> distinct (task_keys r)
     \<and> fcard (rf_active r) \<le> max_inflight cfg
     \<and> fmsize (rf_cooldown r) \<le> refresh_capacity cfg
     \<and> list_all (\<lambda>t. done_capacity (rt_done t) = refresh_capacity cfg) (rf_tasks r)
     \<and> rf_scheduled r = rf_success r + rf_failure r + of_nat (rs_cancelled sys) + of_nat (length (rf_tasks r)))"

lemma fcard_tasks: "fset (rf_active r) = set (task_keys r) \<Longrightarrow> distinct (task_keys r) \<Longrightarrow> fcard (rf_active r) = length (rf_tasks r)"
  by (metis distinct_card fcard.rep_eq length_map)

lemma sweep_simps [simp]:
  "rf_closed (refresh_sweep now r) = rf_closed r" "rf_tasks (refresh_sweep now r) = rf_tasks r"
  "rf_active (refresh_sweep now r) = rf_active r" "rf_scheduled (refresh_sweep now r) = rf_scheduled r"
  "rf_success (refresh_sweep now r) = rf_success r" "rf_failure (refresh_sweep now r) = rf_failure r"
  by (simp_all add: refresh_sweep_def)

lemma count_rejection_simps [simp]:
  "rf_closed (count_rejection p c r) = rf_closed r" "rf_tasks (count_rejection p c r) = rf_tasks r"
  "rf_active (count_rejection p c r) = rf_active r" "rf_scheduled (count_rejection p c r) = rf_scheduled r"
  "rf_success (count_rejection p c r) = rf_success r" "rf_failure (count_rejection p c r) = rf_failure r"
  "rf_cooldown (count_rejection p c r) = rf_cooldown r" "rf_starts (count_rejection p c r) = rf_starts r"
  by (cases "(p, c, r)" rule: count_rejection.cases; simp)+

lemma sweep_cooldown: "fmsize (rf_cooldown (refresh_sweep now r)) \<le> fmsize (rf_cooldown r)"
  by (auto simp: refresh_sweep_def intro!: fcard_mono)

lemma sweep_cooldown_lookup: "fmlookup (rf_cooldown (refresh_sweep now r)) k = Some until \<longleftrightarrow>
    fmlookup (rf_cooldown r) k = Some until \<and> now < until"
  by (auto simp: refresh_sweep_def split: option.splits if_splits)

lemma schedule_inv:
  assumes "refresh_inv cfg sys" "schedule D cfg (rs_refresh sys) query epoch purpose now = (started, r)"
  shows "refresh_inv cfg (sys\<lparr>rs_refresh := r, rs_log := l\<rparr>)"
proof -
  have "fmsize (rf_cooldown (refresh_sweep now (rs_refresh sys))) \<le> refresh_capacity cfg"
    using assms(1) sweep_cooldown[of now "rs_refresh sys"] by (simp add: refresh_inv_def Let_def)
  with assms show ?thesis
    by (auto simp: refresh_inv_def schedule_def refresh_start_def refresh_rejected_def Let_def fcard_finsert_if
        split: option.splits if_splits)
qed

lemma cooldown_insert_size:
  assumes "fmsize m \<le> done_capacity c" "0 < done_capacity c" "set order = fset (fmdom m)"
  shows "fmsize (cooldown_insert c order now m) \<le> done_capacity c"
proof (cases "done_capacity c \<le> fmsize m")
  case True
  then have "fset (fmdom m) \<noteq> {}" using assms(2) by (auto simp: fcard.rep_eq)
  then obtain k where k: "min_by_key (\<lambda>k. case fmlookup m k of None \<Rightarrow> 0 | Some u \<Rightarrow> u) order = Some k"
    using assms(3) by (cases "min_by_key (\<lambda>k. case fmlookup m k of None \<Rightarrow> 0 | Some u \<Rightarrow> u) order") auto
  then have "k |\<in>| fmdom m" using assms(3) min_by_key_in by fastforce
  then have "Suc (fmsize (fmdrop k m)) \<le> done_capacity c" using fmsize_fmdrop[of k m] assms(1) by simp
  with True k show ?thesis by (auto simp: cooldown_insert_def fcard_finsert_if)
next
  case False
  then show ?thesis by (auto simp: cooldown_insert_def fcard_finsert_if)
qed

lemma distinct_remove_nth: "distinct xs \<Longrightarrow> i < length xs \<Longrightarrow> set (take i xs @ drop (Suc i) xs) = set xs - {xs ! i}"
  by (subst (3) id_take_nth_drop, assumption, subst (asm) id_take_nth_drop, assumption) auto

lemma list_all_remove_nth: "list_all P xs \<Longrightarrow> list_all P (take i xs @ drop (Suc i) xs)"
  by (auto simp: list_all_iff dest: in_set_takeD in_set_dropD)

lemma task_end_inv:
  assumes "refresh_inv cfg sys" "task_end i result order now (rs_refresh sys) = Some r"
  shows "refresh_inv cfg (sys\<lparr>rs_refresh := r, rs_cancelled := rs_cancelled sys + (if result = None then 1 else 0)\<rparr>)"
proof -
  let ?r = "rs_refresh sys" let ?t = "rf_tasks ?r ! i"
  from assms(2) have i: "i < length (rf_tasks ?r)" and order: "set order = fset (fmdom (rf_cooldown ?r))"
    and r: "r = complete (rt_done ?t) result order now
        (?r\<lparr>rf_tasks := take i (rf_tasks ?r) @ drop (Suc i) (rf_tasks ?r), rf_finished := rf_finished ?r + 1\<rparr>)"
    by (auto simp: task_end_def split: if_splits)
  have cap: "done_capacity (rt_done ?t) = refresh_capacity cfg"
    using assms(1) i by (auto simp: refresh_inv_def Let_def list_all_length)
  have "0 < refresh_capacity cfg" using clamp_bounds[of 64 4096] by (simp add: refresh_capacity_def less_le_trans[of 0 64])
  then have room: "fmsize (cooldown_insert (rt_done ?t) order now (rf_cooldown ?r)) \<le> refresh_capacity cfg"
    using cooldown_insert_size[of "rf_cooldown ?r" "rt_done ?t" order now] assms(1) cap order by (simp add: refresh_inv_def Let_def)
  have keys: "task_keys r = take i (task_keys ?r) @ drop (Suc i) (task_keys ?r)"
    and act: "rf_active r = rf_active ?r |-| {|task_keys ?r ! i|}"
    using i by (auto simp: r complete_def Let_def take_map drop_map split: option.splits bool.splits)
  have inv: "fset (rf_active ?r) = set (task_keys ?r)" "distinct (task_keys ?r)" "fcard (rf_active ?r) \<le> max_inflight cfg"
    "fmsize (rf_cooldown ?r) \<le> refresh_capacity cfg"
    "list_all (\<lambda>t. done_capacity (rt_done t) = refresh_capacity cfg) (rf_tasks ?r)"
    "rf_scheduled ?r = rf_success ?r + rf_failure ?r + of_nat (rs_cancelled sys) + of_nat (length (rf_tasks ?r))"
    using assms(1) by (simp_all add: refresh_inv_def Let_def)
  have tasks: "rf_tasks r = take i (rf_tasks ?r) @ drop (Suc i) (rf_tasks ?r)"
    by (auto simp: r complete_def Let_def split: option.splits bool.splits)
  obtain n where n: "length (rf_tasks ?r) = Suc n" "length (rf_tasks r) = n"
    using i tasks by (cases "length (rf_tasks ?r)") auto
  have "fset (rf_active r) = set (task_keys r)"
    unfolding keys act using distinct_remove_nth[OF inv(2)] i inv(1) by simp
  moreover have "distinct (task_keys r)"
    unfolding keys using inv(2) i by (metis distinct_append distinct_take distinct_drop set_take_disj_set_drop_if_distinct le_SucI order_refl)
  moreover have "fcard (rf_active r) \<le> max_inflight cfg"
    unfolding act using inv(3) fcard_mono[of "rf_active ?r |-| {|task_keys ?r ! i|}" "rf_active ?r"] by fastforce
  moreover have "fmsize (rf_cooldown r) \<le> refresh_capacity cfg"
    using inv(4) room by (auto simp: r complete_def Let_def split: option.splits bool.splits)
  moreover have "list_all (\<lambda>t. done_capacity (rt_done t) = refresh_capacity cfg) (rf_tasks r)"
    unfolding tasks by (rule list_all_remove_nth[OF inv(5)])
  moreover have "rf_scheduled r = rf_success r + rf_failure r + of_nat (rs_cancelled sys + (if result = None then 1 else 0)) + of_nat n"
    using inv(6) n(1) by (auto simp: r complete_def Let_def split: option.splits bool.splits)
  ultimately show ?thesis by (simp add: refresh_inv_def Let_def n(2))
qed

lemma cancel_inv: "refresh_inv cfg sys \<Longrightarrow> refresh_inv cfg (sys\<lparr>rs_refresh := refresh_cancel (rs_refresh sys)\<rparr>)"
  by (simp add: refresh_inv_def refresh_cancel_def Let_def comp_def list_all_iff image_image)

lemma refresh_exec_inv: "refresh_inv cfg sys \<Longrightarrow> refresh_exec D cfg sys e = Some sys' \<Longrightarrow> refresh_inv cfg sys'"
  by (cases e) (auto intro: schedule_inv task_end_inv cancel_inv split: prod.splits option.splits)

subsection \<open>The start rate\<close>

definition in_second :: "instant \<Rightarrow> instant \<Rightarrow> bool" where
  "in_second t x \<longleftrightarrow> t \<le> x \<and> x < t + from_secs 1"

abbreviation recent :: "instant \<Rightarrow> instant list \<Rightarrow> instant list" where
  "recent now xs \<equiv> filter (\<lambda>x. now - x < from_secs 1) xs"

text \<open>At time \<open>T\<close> the start queue holds every start of the last second.\<close>

definition rate_ok :: "prefetch_config \<Rightarrow> instant \<Rightarrow> 'w refresh_sys \<Rightarrow> bool" where
  "rate_ok cfg T sys = (sorted (rf_starts (rs_refresh sys)) \<and> list_all (\<lambda>x. x \<le> T) (rf_starts (rs_refresh sys))
     \<and> list_all (\<lambda>x. x \<le> T) (rs_log sys) \<and> recent T (rs_log sys) = recent T (rf_starts (rs_refresh sys))
     \<and> (\<forall>t. length (filter (in_second t) (rs_log sys)) \<le> rate_per_sec cfg))"

lemma dropWhile_recent: "sorted xs \<Longrightarrow> dropWhile (\<lambda>x. from_secs 1 \<le> saturating_duration_since now x) xs = recent now xs"
proof (induction xs)
  case (Cons x xs)
  have "now - y < from_secs 1" if "\<not> from_secs 1 \<le> now - x" "y \<in> set xs" for y
    using Cons.prems that diff_le_mono2[of x y now] by auto
  with Cons show ?case by (auto simp: rust_simps)
qed simp

lemma recent_later: "T \<le> now \<Longrightarrow> recent T xs = recent T ys \<Longrightarrow> list_all (\<lambda>x. x \<le> T) xs \<Longrightarrow> list_all (\<lambda>x. x \<le> T) ys \<Longrightarrow>
    recent now xs = recent now ys"
proof -
  assume a: "T \<le> now" "recent T xs = recent T ys" "list_all (\<lambda>x. x \<le> T) xs" "list_all (\<lambda>x. x \<le> T) ys"
  have "recent now zs = recent now (recent T zs)" if "list_all (\<lambda>x. x \<le> T) zs" for zs
    using that a(1) by (auto simp: filter_filter list_all_iff intro!: filter_cong)
  with a show ?thesis by metis
qed

lemma in_second_recent: "in_second t now \<Longrightarrow> length (filter (in_second t) xs) \<le> length (recent now xs)"
proof -
  assume "in_second t now"
  then have "filter (in_second t) xs = filter (in_second t) (recent now xs)"
    by (auto simp: in_second_def filter_filter from_secs_def intro!: filter_cong)
  then show ?thesis by (metis length_filter_le)
qed

lemma rate_later:
  assumes "rate_ok cfg T sys" "T \<le> now"
  shows "rate_ok cfg now sys"
proof -
  from assms(1) have "recent now (rs_log sys) = recent now (rf_starts (rs_refresh sys))"
    unfolding rate_ok_def using recent_later[OF assms(2)] by blast
  with assms show ?thesis by (auto simp: rate_ok_def list_all_iff)
qed

lemma rate_start:
  assumes "rate_ok cfg now sys" "length (recent now (rf_starts (rs_refresh sys))) < rate_per_sec cfg"
    and "rf_starts r = recent now (rf_starts (rs_refresh sys)) @ [now]"
  shows "rate_ok cfg now (sys\<lparr>rs_refresh := r, rs_log := rs_log sys @ [now]\<rparr>)"
proof -
  have "length (filter (in_second t) (rs_log sys @ [now])) \<le> rate_per_sec cfg" for t
    using assms(1,2) in_second_recent[of t now "rs_log sys"] by (auto simp: rate_ok_def)
  with assms show ?thesis
    by (auto simp: rate_ok_def list_all_iff sorted_append sorted_wrt_filter)
qed

lemma rate_sweep:
  assumes "rate_ok cfg now sys" "rf_starts r = recent now (rf_starts (rs_refresh sys)) \<or> rf_starts r = rf_starts (rs_refresh sys)"
  shows "rate_ok cfg now (sys\<lparr>rs_refresh := r, rs_cancelled := c\<rparr>)"
  using assms by (auto simp: rate_ok_def list_all_iff sorted_wrt_filter)

lemma complete_starts [simp]: "rf_starts (complete c res order now r) = rf_starts r" "rf_closed (complete c res order now r) = rf_closed r"
  "rf_tasks (complete c res order now r) = rf_tasks r"
  by (auto simp: complete_def Let_def split: option.splits bool.splits)

lemma schedule_starts:
  assumes "schedule D cfg r query epoch purpose now = (started, r')" "sorted (rf_starts r)"
  shows "if started then rf_starts r' = recent now (rf_starts r) @ [now] \<and> length (recent now (rf_starts r)) < rate_per_sec cfg
    else rf_starts r' = recent now (rf_starts r) \<or> rf_starts r' = rf_starts r"
proof -
  have "rf_starts (refresh_sweep now r) = recent now (rf_starts r)"
    using dropWhile_recent[OF assms(2)] by (simp add: refresh_sweep_def)
  with assms(1) show ?thesis
    by (auto simp: schedule_def Let_def refresh_start_def refresh_rejected_def split: option.splits if_splits)
qed

lemma refresh_exec_rate:
  assumes "rate_ok cfg T sys" "T \<le> ev_now e" "refresh_exec D cfg sys e = Some sys'"
  shows "rate_ok cfg (ev_now e) sys'"
proof -
  note ok = rate_later[OF assms(1,2)]
  show ?thesis
  proof (cases e)
    case (Schedule now query epoch purpose)
    obtain started r where sch: "schedule D cfg (rs_refresh sys) query epoch purpose now = (started, r)" by fastforce
    have "sorted (rf_starts (rs_refresh sys))" using ok by (simp add: rate_ok_def)
    from schedule_starts[OF sch this] sch Schedule assms(3) rate_start[of cfg now sys r] rate_sweep[of cfg now sys r "rs_cancelled sys"] ok
    show ?thesis by (cases started) auto
  next
    case (TaskEnd now i res order)
    with assms(3) ok show ?thesis
      by (auto simp: rate_ok_def task_end_def split: if_splits option.splits)
  next
    case (Cancel now)
    with assms(3) ok show ?thesis by (auto simp: rate_ok_def refresh_cancel_def)
  qed
qed

lemma refresh_run_ok:
  assumes "run_steps (refresh_exec D cfg) sys es = Some sys'" "refresh_inv cfg sys"
  shows "refresh_inv cfg sys'"
  using assms by (induction es arbitrary: sys) (auto split: option.splits dest: refresh_exec_inv)

lemma refresh_run_rate:
  assumes "run_steps (refresh_exec D cfg) sys es = Some sys'" "rate_ok cfg T sys" "sorted (T # map ev_now es)"
  shows "\<exists>T'. rate_ok cfg T' sys'"
  using assms
proof (induction es arbitrary: sys T)
  case (Cons e es)
  from Cons.prems(1) obtain sys1 where "refresh_exec D cfg sys e = Some sys1" "run_steps (refresh_exec D cfg) sys1 es = Some sys'"
    by (auto split: option.splits)
  with Cons.prems(3) refresh_exec_rate[OF Cons.prems(2) _ this(1)] show ?case
    by (intro Cons.IH[of sys1 "ev_now e"]) auto
qed auto

lemma refresh_init_ok: "refresh_inv cfg refresh_init" "rate_ok cfg T refresh_init"
  by (simp_all add: refresh_inv_def rate_ok_def refresh_init_def refresh_new_def fcard_fempty)

subsection \<open>What the resolver relies on\<close>


subsection \<open>Shutting down\<close>

definition refresh_closing :: "'w refresh \<Rightarrow> bool" where
  "refresh_closing r = (rf_closed r \<and> list_all rt_aborted (rf_tasks r))"

abbreviation task_ends :: "('n, 'w) refresh_event list \<Rightarrow> nat" where
  "task_ends es \<equiv> length (filter (\<lambda>e. \<not> is_Schedule e \<and> \<not> is_Cancel e) es)"

lemma closing_exec:
  assumes "refresh_closing (rs_refresh sys)" "refresh_exec D cfg sys e = Some sys'"
  shows "refresh_closing (rs_refresh sys') \<and> rs_log sys' = rs_log sys
    \<and> length (rf_tasks (rs_refresh sys')) + task_ends [e] = length (rf_tasks (rs_refresh sys))"
proof (cases e)
  case (Schedule now query epoch purpose)
  with assms show ?thesis
    by (auto simp: refresh_closing_def schedule_def Let_def split: option.splits if_splits)
next
  case (TaskEnd now i res order)
  with assms show ?thesis
    by (auto simp: refresh_closing_def task_end_def list_all_remove_nth[unfolded list_all_append] split: option.splits if_splits)
next
  case (Cancel now)
  with assms show ?thesis by (auto simp: refresh_closing_def refresh_cancel_def list_all_iff)
qed

lemma closing_run:
  assumes "refresh_closing (rs_refresh sys)" "run_steps (refresh_exec D cfg) sys es = Some sys'"
  shows "refresh_closing (rs_refresh sys') \<and> rs_log sys' = rs_log sys
    \<and> length (rf_tasks (rs_refresh sys')) + task_ends es = length (rf_tasks (rs_refresh sys))"
  using assms
proof (induction es arbitrary: sys)
  case (Cons e es)
  from Cons.prems(2) obtain sys1 where one: "refresh_exec D cfg sys e = Some sys1" "run_steps (refresh_exec D cfg) sys1 es = Some sys'"
    by (auto split: option.splits)
  from closing_exec[OF Cons.prems(1) one(1)] Cons.IH[OF _ one(2)] show ?case by auto
qed simp

text \<open>While tasks are left, aborting one of them is possible.\<close>

lemma closing_drain:
  assumes "refresh_closing (rs_refresh sys)" "refresh_inv cfg sys"
  shows "\<exists>es sys'. run_steps (refresh_exec D cfg) sys es = Some sys' \<and> task_ends es = length es
    \<and> rf_tasks (rs_refresh sys') = []"
  using assms
proof (induction "rf_tasks (rs_refresh sys)" arbitrary: sys)
  case Nil
  then show ?case by (intro exI[of _ "[]"]) auto
next
  case (Cons t ts)
  obtain order where order: "set order = fset (fmdom (rf_cooldown (rs_refresh sys)))" "distinct order"
    using finite_distinct_list[OF finite_fset, of "fmdom (rf_cooldown (rs_refresh sys))"] by (elim exE conjE)
  define sys1 where "sys1 = sys\<lparr>rs_refresh := complete (rt_done t) None order 0
      ((rs_refresh sys)\<lparr>rf_tasks := ts, rf_finished := rf_finished (rs_refresh sys) + 1\<rparr>), rs_cancelled := rs_cancelled sys + 1\<rparr>"
  have step: "refresh_exec D cfg sys (TaskEnd 0 0 None order) = Some sys1"
    using Cons.prems(1) Cons.hyps(2)[symmetric] order by (simp add: task_end_def sys1_def refresh_closing_def)
  have "ts = rf_tasks (rs_refresh sys1)" by (simp add: sys1_def)
  moreover have "refresh_closing (rs_refresh sys1)" using closing_exec[OF Cons.prems(1) step] by simp
  moreover have "refresh_inv cfg sys1" by (rule refresh_exec_inv[OF Cons.prems(2) step])
  ultimately have "\<exists>es sys'. run_steps (refresh_exec D cfg) sys1 es = Some sys' \<and> task_ends es = length es \<and> rf_tasks (rs_refresh sys') = []"
    by (rule Cons.hyps(1))
  then obtain es sys' where "run_steps (refresh_exec D cfg) sys1 es = Some sys'" "task_ends es = length es" "rf_tasks (rs_refresh sys') = []"
    by (elim exE conjE)
  with step show ?case by (intro exI[of _ "TaskEnd 0 0 None order # es"] exI[of _ sys']) simp
qed

text \<open>One slot: the second query is refused, the first one fails and cools down.\<close>

definition demo_prefetch :: prefetch_config where
  "demo_prefetch = \<lparr>pf_enabled = True, min_hits = 1, remaining_percent = 25, max_inflight = 1, rate_per_sec = 2, backoff_secs = 5\<rparr>"

definition demo_refresh_events :: "(ref_name, ref_name message) refresh_event list" where
  "demo_refresh_events = [Schedule 10 demo_query 0 Prefetch, Schedule 11 demo_query 1 Fill, TaskEnd 12 0 (Some False) [],
     Schedule 13 demo_query 0 Prefetch, Schedule 14 demo_query 1 Prefetch, Cancel 15]"

lemmas demo_refresh_simps = demo_refresh_events_def demo_prefetch_def schedule_def work_key_demo refresh_init_def refresh_new_def
  refresh_sweep_def refresh_rejected_def refresh_start_def task_end_def complete_def cooldown_insert_def refresh_cancel_def
  refresh_capacity_def clamp_def saturating_mul_def usize_max_def from_secs_def rust_simps eval_simps Let_def snapshot_of_def

lemma demo_refresh_run: "\<exists>sys. run_steps (refresh_exec ref_dns demo_prefetch) refresh_init demo_refresh_events = Some sys
    \<and> rf_scheduled (rs_refresh sys) = 2 \<and> rs_log sys = [10, 14] \<and> rf_rejected_cooldown (rs_refresh sys) = 1
    \<and> rf_cancelled_fill_rejected (rs_refresh sys) = 1 \<and> rf_failure (rs_refresh sys) = 1 \<and> length (rf_tasks (rs_refresh sys)) = 1"
  by (simp add: demo_refresh_simps)

text \<open>C30. Shutting down ends: once \<open>cancel\<close> or \<open>shutdown\<close> closed the generation, no later call starts
  work, every task that ends brings the number of running tasks down by one, no running
  task can be kept from ending, and when the last one has ended no key is active.
\<close>

theorem refresh_shutdown_drains:
  assumes "run_steps (refresh_exec D cfg) refresh_init (es @ [Cancel t]) = Some sys"
  shows "(\<forall>es' sys'. run_steps (refresh_exec D cfg) sys es' = Some sys' \<longrightarrow>
        rs_log sys' = rs_log sys \<and> task_ends es' \<le> length (rf_tasks (rs_refresh sys))
        \<and> (task_ends es' = length (rf_tasks (rs_refresh sys)) \<longrightarrow> rf_active (rs_refresh sys') = {||}))
    \<and> (\<exists>es' sys'. run_steps (refresh_exec D cfg) sys es' = Some sys' \<and> task_ends es' = length (rf_tasks (rs_refresh sys)))"
proof -
  from assms obtain sys0 where "sys = sys0\<lparr>rs_refresh := refresh_cancel (rs_refresh sys0)\<rparr>"
    by (auto simp: run_steps_append split: option.splits)
  then have closing: "refresh_closing (rs_refresh sys)" by (auto simp: refresh_closing_def refresh_cancel_def list_all_iff)
  have inv: "refresh_inv cfg sys" by (rule refresh_run_ok[OF assms refresh_init_ok(1)])
  have idle: "rf_active (rs_refresh sys') = {||}" if "refresh_inv cfg sys'" "rf_tasks (rs_refresh sys') = []" for sys'
    using that by (auto simp: refresh_inv_def Let_def fset_inverse)
  from closing_drain[OF closing inv, of D] obtain es' sys' where
    "run_steps (refresh_exec D cfg) sys es' = Some sys'" "rf_tasks (rs_refresh sys') = []" by blast
  with closing_run[OF closing this(1)] have "\<exists>es' sys'. run_steps (refresh_exec D cfg) sys es' = Some sys' \<and> task_ends es' = length (rf_tasks (rs_refresh sys))"
    by (intro exI[of _ es'] exI[of _ sys']) simp
  moreover have "rs_log sys2 = rs_log sys \<and> task_ends es2 \<le> length (rf_tasks (rs_refresh sys))
        \<and> (task_ends es2 = length (rf_tasks (rs_refresh sys)) \<longrightarrow> rf_active (rs_refresh sys2) = {||})"
    if "run_steps (refresh_exec D cfg) sys es2 = Some sys2" for es2 sys2
    using closing_run[OF closing that] idle[OF refresh_run_ok[OF that inv]] by auto
  ultimately show ?thesis by blast
qed

theorem refresh_shutdown_drains_witness:
  "\<exists>sys es' sys'. run_steps (refresh_exec ref_dns demo_prefetch) refresh_init demo_refresh_events = Some sys
     \<and> run_steps (refresh_exec ref_dns demo_prefetch) sys es' = Some sys' \<and> task_ends es' = 1"
proof -
  from demo_refresh_run obtain sys where sys:
    "run_steps (refresh_exec ref_dns demo_prefetch) refresh_init demo_refresh_events = Some sys" "length (rf_tasks (rs_refresh sys)) = 1"
    by (elim exE conjE)
  have "demo_refresh_events = butlast demo_refresh_events @ [Cancel 15]" by (simp add: demo_refresh_events_def)
  with sys(1) have "run_steps (refresh_exec ref_dns demo_prefetch) refresh_init (butlast demo_refresh_events @ [Cancel 15]) = Some sys"
    by simp
  from refresh_shutdown_drains[OF this] sys show ?thesis by auto
qed


end
