(* ===== verification/Filter_Key.thy ===== *)
theory Filter_Key
  imports Prelude "HOL-Library.Sublist" "HOL-Library.List_Lexorder" "HOL-Library.Product_Lexorder"
begin

text \<open>
  The ground of the filtering policy, \<open>src/src/policy/canonical.rs\<close>: the encoded form of a domain
  (labels from the root down, each after its length byte, in lower case), the memory budget that
  every buffer of a candidate index is charged to, and buffers that grow within it.

  Texts are byte lists. A buffer is its contents and its capacity; the allocator is a parameter
  that may fail and may give more than was asked for. A panic is the value \<open>None\<close>.
\<close>

datatype error_kind =
    InvalidDomain | InvalidSource | InvalidLimits | MemoryLimit | RuleLimit | Allocation | InputLimit | LineLimit
  | InvalidUtf8 | UnsupportedSyntax | HostsRewrite | EmptySource | Io | Cancelled

record filter_error =
  err_line :: nat
  err_kind :: error_kind

definition filter_error :: "error_kind \<Rightarrow> filter_error" where
  "filter_error k = \<lparr>err_line = 0, err_kind = k\<rparr>"

datatype group = AllowSuffix | AllowExact | BlockSuffix | BlockExact

text \<open>\<open>group as u8\<close>.\<close>

fun group_index :: "group \<Rightarrow> nat" where
  "group_index AllowSuffix = 0"
| "group_index AllowExact = 1"
| "group_index BlockSuffix = 2"
| "group_index BlockExact = 3"

lemma group_index_inj [simp]: "group_index g = group_index h \<longleftrightarrow> g = h"
  by (cases g; cases h) simp_all

lemma group_index_less: "group_index g < 4"
  by (cases g) simp_all

subsection \<open>Characters\<close>

definition chr_byte :: "char \<Rightarrow> u8" where
  "chr_byte c = of_nat (of_char c)"

definition is_ascii_lowercase :: "u8 \<Rightarrow> bool" where
  "is_ascii_lowercase b = (97 \<le> b \<and> b \<le> 122)"

definition is_ascii_uppercase :: "u8 \<Rightarrow> bool" where
  "is_ascii_uppercase b = (65 \<le> b \<and> b \<le> 90)"

definition is_ascii_digit :: "u8 \<Rightarrow> bool" where
  "is_ascii_digit b = (48 \<le> b \<and> b \<le> 57)"

definition is_ascii_alphanumeric :: "u8 \<Rightarrow> bool" where
  "is_ascii_alphanumeric b = (is_ascii_lowercase b \<or> is_ascii_uppercase b \<or> is_ascii_digit b)"

definition to_ascii_lowercase :: "u8 \<Rightarrow> u8" where
  "to_ascii_lowercase b = (if is_ascii_uppercase b then b + 32 else b)"

text \<open>\<open>str::split\<close> at one byte: one piece more than there are separators.\<close>

fun split_at :: "u8 \<Rightarrow> bytes \<Rightarrow> bytes list" where
  "split_at s [] = [[]]"
| "split_at s (b # bs) =
     (if b = s then [] # split_at s bs
      else case split_at s bs of [] \<Rightarrow> [[b]] | p # ps \<Rightarrow> (b # p) # ps)"

lemma split_at_not_Nil [simp]: "split_at s bs \<noteq> []"
  by (cases bs) (auto split: list.splits)

lemma split_at_length: "sum_list (map length (split_at s bs)) + length (split_at s bs) = Suc (length bs)"
  by (induction bs) (auto split: list.splits)

subsection \<open>Encoded domains\<close>

text \<open>\<open>Key::push\<close>, which indexes an array of 255 bytes.\<close>

definition push :: "bytes \<Rightarrow> bytes \<Rightarrow> bytes option" where
  "push key label =
     (if length key + 1 + length label \<le> 255
      then Some (key @ of_nat (length label) # map to_ascii_lowercase label) else None)"

fun push_all :: "bytes \<Rightarrow> bytes list \<Rightarrow> bytes option" where
  "push_all key [] = Some key"
| "push_all key (l # ls) = (case push key l of None \<Rightarrow> None | Some key \<Rightarrow> push_all key ls)"

text \<open>\<open>Key::query\<close> of a name with the given labels, and \<open>Key::rule\<close>.\<close>

definition key_query :: "bytes list \<Rightarrow> bytes option" where
  "key_query labels = push_all [] (rev labels)"

definition rule_label_ok :: "bytes \<Rightarrow> bool" where
  "rule_label_ok l = (l \<noteq> [] \<and> length l \<le> 63 \<and>
     list_all (\<lambda>b. is_ascii_alphanumeric b \<or> b = chr_byte CHR ''-'' \<or> b = chr_byte CHR ''_'') l)"

fun rule_labels :: "bytes \<Rightarrow> bytes list \<Rightarrow> (filter_error + bytes) option" where
  "rule_labels key [] = Some (Inr key)"
| "rule_labels key (l # ls) =
     (if \<not> rule_label_ok l then Some (Inl (filter_error InvalidDomain))
      else case push key l of None \<Rightarrow> None | Some key \<Rightarrow> rule_labels key ls)"

definition strip_dot :: "bytes \<Rightarrow> bytes" where
  "strip_dot text = (if text \<noteq> [] \<and> last text = chr_byte CHR ''.'' then butlast text else text)"

definition key_rule :: "bytes \<Rightarrow> (filter_error + bytes) option" where
  "key_rule text = (let text = strip_dot text in
     if text = [] \<or> 253 < length text then Some (Inl (filter_error InvalidDomain))
     else rule_labels [] (rev (split_at (chr_byte CHR ''.'') text)))"

text \<open>The reference encoding, of labels from the root down.\<close>

definition enc_label :: "bytes \<Rightarrow> bytes" where
  "enc_label l = of_nat (length l) # map to_ascii_lowercase l"

definition enc_key :: "bytes list \<Rightarrow> bytes" where
  "enc_key ls = concat (map enc_label ls)"

definition label_ok :: "bytes \<Rightarrow> bool" where
  "label_ok l = (l \<noteq> [] \<and> length l \<le> 63)"

lemma length_enc_label [simp]: "length (enc_label l) = Suc (length l)"
  by (simp add: enc_label_def)

lemma enc_key_simps [simp]: "enc_key [] = []" "enc_key (l # ls) = enc_label l @ enc_key ls"
  "enc_key (xs @ ys) = enc_key xs @ enc_key ys"
  by (simp_all add: enc_key_def)

lemma length_enc_key: "length (enc_key ls) = sum_list (map length ls) + length ls"
  by (induction ls) simp_all

lemma length_enc_key_rev [simp]: "length (enc_key (rev ls)) = length (enc_key ls)"
  by (simp add: length_enc_key rev_map[symmetric] sum_list_rev)

lemma push_enc: "push key l = (if length key + Suc (length l) \<le> 255 then Some (key @ enc_label l) else None)"
  by (simp add: push_def enc_label_def)

lemma push_all_enc: "length key + length (enc_key ls) \<le> 255 \<Longrightarrow> push_all key ls = Some (key @ enc_key ls)"
  by (induction ls arbitrary: key) (auto simp: push_enc)

lemma key_query_enc: "length (enc_key ls) \<le> 255 \<Longrightarrow> key_query ls = Some (enc_key (rev ls))"
  using push_all_enc[of "[]" "rev ls"] by (simp add: key_query_def)

lemma rule_labels_enc:
  assumes "length key + length (enc_key ls) \<le> 255"
  shows "rule_labels key ls = Some (if list_all rule_label_ok ls then Inr (key @ enc_key ls) else Inl (filter_error InvalidDomain))"
  using assms by (induction ls arbitrary: key) (auto simp: push_enc)

text \<open>A rule text is accepted exactly when its labels are, and never overruns the key.\<close>

lemma key_rule_enc:
  defines "labels \<equiv> \<lambda>text. split_at (chr_byte CHR ''.'') (strip_dot text)"
  shows "key_rule text = Some
     (if strip_dot text \<noteq> [] \<and> length (strip_dot text) \<le> 253 \<and> list_all rule_label_ok (labels text)
      then Inr (enc_key (rev (labels text))) else Inl (filter_error InvalidDomain))"
proof -
  have "length (enc_key (rev (labels text))) = Suc (length (strip_dot text))"
    by (simp add: length_enc_key labels_def split_at_length rev_map[symmetric] sum_list_rev)
  then show ?thesis
    using rule_labels_enc[of "[]" "rev (labels text)"] by (auto simp: key_rule_def Let_def labels_def list_all_rev)
qed

subsection \<open>Keys nest as domains do\<close>

abbreviation lower :: "bytes list \<Rightarrow> bytes list" where
  "lower ls \<equiv> map (map to_ascii_lowercase) ls"

lemma enc_label_prefix:
  assumes "length l < 256" "length m < 256"
  shows "prefix (enc_label l @ xs) (enc_label m @ ys) \<longleftrightarrow> map to_ascii_lowercase l = map to_ascii_lowercase m \<and> prefix xs ys"
proof -
  have same: "(of_nat (length l) :: u8) = of_nat (length m) \<longleftrightarrow> length l = length m"
    using assms by (simp add: word_of_nat_eq_iff take_bit_nat_eq_self)
  show ?thesis
  proof (cases "length l = length m")
    case True
    then have "prefix (map to_ascii_lowercase l @ xs) (map to_ascii_lowercase m @ ys) \<longleftrightarrow>
        map to_ascii_lowercase l = map to_ascii_lowercase m \<and> prefix xs ys"
      by (auto simp: prefix_def)
    with same True show ?thesis by (simp add: enc_label_def)
  next
    case False
    with same have "\<not> prefix (enc_label l @ xs) (enc_label m @ ys)" by (simp add: enc_label_def)
    with False show ?thesis by (metis length_map)
  qed
qed

lemma enc_key_prefix:
  assumes "list_all (\<lambda>l. length l < 256) ks" "list_all (\<lambda>l. length l < 256) ls"
  shows "prefix (enc_key ks) (enc_key ls) \<longleftrightarrow> prefix (lower ks) (lower ls)"
  using assms
proof (induction ks arbitrary: ls)
  case (Cons k ks)
  show ?case
  proof (cases ls)
    case Nil
    then show ?thesis by (simp add: enc_label_def)
  next
    case (Cons l ls')
    with Cons.prems Cons.IH[of ls'] enc_label_prefix[of k l] show ?thesis by simp
  qed
qed simp

subsection \<open>The memory budget\<close>

record budget =
  bu_live :: nat
  bu_peak :: nat
  bu_limit :: nat

definition checked_add :: "nat \<Rightarrow> nat \<Rightarrow> nat option" where
  "checked_add a b = (if a + b \<le> usize_max then Some (a + b) else None)"

definition checked_mul :: "nat \<Rightarrow> nat \<Rightarrow> nat option" where
  "checked_mul a b = (if a * b \<le> usize_max then Some (a * b) else None)"

definition bu_reserve :: "budget \<Rightarrow> nat \<Rightarrow> filter_error + budget" where
  "bu_reserve b n = (case checked_add (bu_live b) n of
     None \<Rightarrow> Inl (filter_error MemoryLimit)
   | Some next \<Rightarrow>
       if bu_limit b < next then Inl (filter_error MemoryLimit)
       else Inr (b\<lparr>bu_live := next, bu_peak := max (bu_peak b) next\<rparr>))"

text \<open>\<open>Budget::release\<close>; what is released was reserved, so the subtraction does not underflow.\<close>

definition bu_release :: "budget \<Rightarrow> nat \<Rightarrow> budget" where
  "bu_release b n = b\<lparr>bu_live := bu_live b - n\<rparr>"

record 'a rvec =
  items :: "'a list"
  cap :: nat

definition vec_new :: "'a rvec" where
  "vec_new = \<lparr>items = [], cap = 0\<rparr>"

type_synonym allocator = "nat \<Rightarrow> nat option"

text \<open>The second half of \<open>grow\<close>: the new buffer, whose capacity may exceed the request. The budget
  is returned with the error too.\<close>

definition grow_into :: "allocator \<Rightarrow> nat \<Rightarrow> nat \<Rightarrow> nat \<Rightarrow> 'a rvec \<Rightarrow> budget \<Rightarrow> (filter_error + 'a rvec) \<times> budget" where
  "grow_into A sz target bytes v b = (case A target of
     None \<Rightarrow> (Inl (filter_error Allocation), bu_release b bytes)
   | Some capacity \<Rightarrow>
       (case checked_mul capacity sz of
          None \<Rightarrow> (Inl (filter_error MemoryLimit), b)
        | Some actual \<Rightarrow>
            (case (if bytes < actual then bu_reserve b (actual - bytes) else Inr b) of
               Inl _ \<Rightarrow> (Inl (filter_error MemoryLimit), bu_release b bytes)
             | Inr b \<Rightarrow> (Inr \<lparr>items = items v, cap = capacity\<rparr>, bu_release b (cap v * sz)))))"

definition grow :: "allocator \<Rightarrow> nat \<Rightarrow> 'a rvec \<Rightarrow> nat \<Rightarrow> budget \<Rightarrow> (filter_error + 'a rvec) \<times> budget" where
  "grow A sz v needed b =
     (if needed \<le> cap v then (Inr v, b)
      else case checked_add (cap v) (cap v div 2) of
        None \<Rightarrow> (Inl (filter_error MemoryLimit), b)
      | Some half \<Rightarrow>
          (let target = max needed half in
           case checked_mul target sz of
             None \<Rightarrow> (Inl (filter_error MemoryLimit), b)
           | Some bytes \<Rightarrow>
               (case bu_reserve b bytes of
                  Inl e \<Rightarrow> (Inl e, b)
                | Inr b \<Rightarrow> grow_into A sz target bytes v b)))"

text \<open>An allocator gives at least what it is asked for.\<close>

locale alloc =
  fixes A :: allocator
  assumes alloc_enough: "A n = Some c \<Longrightarrow> n \<le> c"

definition budget_ok :: "budget \<Rightarrow> bool" where
  "budget_ok b = (bu_live b \<le> bu_peak b \<and> bu_peak b \<le> bu_limit b)"

lemma reserve_ok:
  assumes "bu_reserve b n = Inr b'" "budget_ok b"
  shows "budget_ok b' \<and> bu_live b' = bu_live b + n \<and> bu_limit b' = bu_limit b"
  using assms by (auto simp: bu_reserve_def budget_ok_def checked_add_def split: option.splits if_splits)

context alloc
begin

text \<open>A buffer that grew holds the same items, has the room that was asked for, and is charged
  for its capacity in place of the old one.\<close>

lemma grow_ok:
  assumes "grow A sz v needed b = (Inr v', b')" "budget_ok b" "cap v * sz \<le> bu_live b"
  shows "items v' = items v \<and> needed \<le> cap v' \<and> cap v \<le> cap v' \<and> budget_ok b' \<and> bu_limit b' = bu_limit b
    \<and> bu_live b' + cap v * sz = bu_live b + cap v' * sz"
proof (cases "needed \<le> cap v")
  case True
  with assms show ?thesis by (simp add: grow_def)
next
  case False
  with assms(1) obtain half bytes b1 where g: "checked_add (cap v) (cap v div 2) = Some half"
    "checked_mul (max needed half) sz = Some bytes" "bu_reserve b bytes = Inr b1"
    "grow_into A sz (max needed half) bytes v b1 = (Inr v', b')"
    by (auto simp: grow_def Let_def split: option.splits sum.splits)
  from g(4) obtain capacity actual b2 where h: "A (max needed half) = Some capacity" "checked_mul capacity sz = Some actual"
    "(if bytes < actual then bu_reserve b1 (actual - bytes) else Inr b1) = Inr b2"
    "v' = \<lparr>items = items v, cap = capacity\<rparr>" "b' = bu_release b2 (cap v * sz)"
    by (auto simp: grow_into_def split: option.splits sum.splits)
  have b1: "budget_ok b1" "bu_live b1 = bu_live b + bytes" "bu_limit b1 = bu_limit b"
    using reserve_ok[OF g(3) assms(2)] by simp_all
  have "max needed half \<le> capacity" by (rule alloc_enough[OF h(1)])
  moreover have "bytes = max needed half * sz" "actual = capacity * sz"
    using g(2) h(2) by (auto simp: checked_mul_def split: if_splits)
  ultimately have le: "bytes \<le> actual" by (simp only: mult_le_mono1)
  have b2: "budget_ok b2" "bu_live b2 = bu_live b + actual" "bu_limit b2 = bu_limit b"
    using h(3) b1 le reserve_ok[of b1 "actual - bytes" b2] by (auto split: if_splits)
  have "cap v \<le> half" using g(1) by (auto simp: checked_add_def split: if_splits)
  with b2 h(4,5) \<open>actual = capacity * sz\<close> \<open>max needed half \<le> capacity\<close> assms(3) show ?thesis
    by (auto simp: bu_release_def budget_ok_def)
qed

end

text \<open>A failed growth keeps within the limit too.\<close>

lemma grow_error_ok: "grow A sz v needed b = (Inl e, b') \<Longrightarrow> budget_ok b \<Longrightarrow>
    budget_ok b' \<and> bu_limit b' = bu_limit b \<and> bu_live b \<le> bu_live b'"
  by (auto simp: grow_def grow_into_def bu_release_def bu_reserve_def checked_add_def budget_ok_def Let_def
      split: option.splits sum.splits if_splits)

text \<open>The allocator that gives exactly what it is asked for.\<close>

definition exact_alloc :: allocator where
  "exact_alloc n = Some n"

interpretation exact_alloc: alloc exact_alloc
  by unfold_locales (simp add: exact_alloc_def)

end
