(* ===== verification/Filter_Rules.thy ===== *)
theory Filter_Rules
  imports Filter_Key
begin

text \<open>
  The rule builder, \<open>src/src/policy/canonical.rs\<close>: rules are appended to an arena of encoded
  domains and a table of records, both charged to the budget; \<open>prepare_with_check\<close> sorts them
  and drops the ones that cannot change an answer.

  The sort is the stable one: records that compare equal have the same group, domain and slot. The
  kept records are written to the front of the table in place, always behind the
  reader; here they are a list of their own. The cancellation check is called as \<open>check n\<close> at its
  \<open>n\<close>-th call. SHA-256 is a parameter.
\<close>

definition as_u32 :: "nat \<Rightarrow> nat" where
  "as_u32 n = n mod 2 ^ 32"

definition as_u16 :: "nat \<Rightarrow> nat" where
  "as_u16 n = n mod 2 ^ 16"

lemma as_u32_id: "n < 2 ^ 32 \<Longrightarrow> as_u32 n = n"
  by (simp add: as_u32_def)

lemma as_u16_id: "n < 2 ^ 16 \<Longrightarrow> as_u16 n = n"
  by (simp add: as_u16_def)

text \<open>\<open>to_be_bytes\<close> of an integer of \<open>k\<close> bytes.\<close>

fun be_bytes :: "nat \<Rightarrow> nat \<Rightarrow> bytes" where
  "be_bytes 0 n = []"
| "be_bytes (Suc k) n = be_bytes k (n div 256) @ [of_nat n]"

text \<open>\<open>slice::binary_search_by_key\<close>.\<close>

function bsearch :: "('a \<Rightarrow> 'k::linorder) \<Rightarrow> 'a list \<Rightarrow> 'k \<Rightarrow> nat \<Rightarrow> nat \<Rightarrow> nat option" where
  "bsearch f xs k lo hi =
     (if hi \<le> lo then None
      else let mid = lo + (hi - lo) div 2; x = f (xs ! mid) in
        if x = k then Some mid else if x < k then bsearch f xs k (mid + 1) hi else bsearch f xs k lo mid)"
  by pat_completeness auto
termination by (relation "measure (\<lambda>(f, xs, k, lo, hi). hi - lo)") auto

declare bsearch.simps [simp del]

definition binary_search :: "('a \<Rightarrow> 'k::linorder) \<Rightarrow> 'a list \<Rightarrow> 'k \<Rightarrow> nat option" where
  "binary_search f xs k = bsearch f xs k 0 (length xs)"

lemma bsearch_sound: "bsearch f xs k lo hi = Some i \<Longrightarrow> lo \<le> i \<and> i < hi \<and> f (xs ! i) = k"
proof (induction f xs k lo hi rule: bsearch.induct)
  case (1 f xs k lo hi)
  let ?m = "lo + (hi - lo) div 2"
  from "1.prems" have lt: "lo < hi" by (subst (asm) bsearch.simps) (auto split: if_splits)
  consider "f (xs ! ?m) = k" | "f (xs ! ?m) < k" | "k < f (xs ! ?m)" by (rule linorder_cases[of "f (xs ! ?m)" k]) auto
  then show ?case
  proof cases
    case 1
    then show ?thesis using "1.prems" lt by (subst (asm) bsearch.simps) (auto simp: Let_def)
  next
    case 2
    then have "bsearch f xs k (?m + 1) hi = Some i" using "1.prems" lt by (subst (asm) bsearch.simps) (auto simp: Let_def split: if_splits)
    then show ?thesis using "1.IH"(1)[OF _ refl refl] 2 lt by force
  next
    case 3
    then have "bsearch f xs k lo ?m = Some i" using "1.prems" lt by (subst (asm) bsearch.simps) (auto simp: Let_def split: if_splits)
    then show ?thesis using "1.IH"(2)[OF _ refl refl] 3 lt by force
  qed
qed

lemma bsearch_complete:
  assumes "sorted_wrt (<) (map f xs)" "hi \<le> length xs" "lo \<le> i" "i < hi" "f (xs ! i) = k"
  shows "bsearch f xs k lo hi \<noteq> None"
  using assms
proof (induction f xs k lo hi rule: bsearch.induct)
  case (1 f xs k lo hi)
  let ?m = "lo + (hi - lo) div 2"
  have m: "?m < hi" "lo \<le> ?m" using "1.prems" by auto
  have below: "f (xs ! j) < f (xs ! j')" if "j < j'" "j' < length xs" for j j'
    using "1.prems"(1) that by (auto simp: sorted_wrt_iff_nth_less)
  consider "i = ?m" | "i < ?m" | "?m < i" by linarith
  then show ?case
  proof cases
    case 1
    then show ?thesis using "1.prems" by (subst bsearch.simps) (auto simp: Let_def)
  next
    case 2
    then have "k < f (xs ! ?m)" using below[of i ?m] "1.prems" m by auto
    then show ?thesis using "1.IH"(2)[OF _ refl refl] "1.prems" 2 m by (subst bsearch.simps) (auto simp: Let_def)
  next
    case 3
    then have "f (xs ! ?m) < k" using below[of ?m i] "1.prems" by auto
    then show ?thesis using "1.IH"(1)[OF _ refl refl] "1.prems" 3 m by (subst bsearch.simps) (auto simp: Let_def)
  qed
qed

text \<open>On strictly sorted keys the search finds exactly the index of the key.\<close>

lemma binary_search_iff:
  assumes "sorted_wrt (<) (map f xs)"
  shows "binary_search f xs k = Some i \<longleftrightarrow> i < length xs \<and> f (xs ! i) = k"
proof
  show "binary_search f xs k = Some i \<Longrightarrow> i < length xs \<and> f (xs ! i) = k"
    using bsearch_sound[of f xs k 0 "length xs" i] by (simp add: binary_search_def)
next
  assume i: "i < length xs \<and> f (xs ! i) = k"
  then obtain j where j: "binary_search f xs k = Some j"
    using bsearch_complete[OF assms order_refl, of 0 i k] by (auto simp: binary_search_def)
  then have "j < length xs \<and> f (xs ! j) = k" using bsearch_sound[of f xs k 0 "length xs" j] by (simp add: binary_search_def)
  moreover have "f (xs ! a) < f (xs ! b)" if "a < b" "b < length xs" for a b
    using assms that by (auto simp: sorted_wrt_iff_nth_less)
  ultimately have "i = j" using i by (metis less_irrefl linorder_neqE_nat)
  with j show "binary_search f xs k = Some i" by simp
qed

lemma binary_search_None:
  assumes "sorted_wrt (<) (map f xs)"
  shows "binary_search f xs k = None \<longleftrightarrow> k \<notin> f ` set xs"
proof -
  have "k \<in> f ` set xs \<longleftrightarrow> (\<exists>i. binary_search f xs k = Some i)"
    unfolding binary_search_iff[OF assms] by (metis image_iff in_set_conv_nth)
  then show ?thesis by (cases "binary_search f xs k") auto
qed

subsection \<open>Records\<close>

record rule_entry =
  e_offset :: nat
  e_len :: nat
  e_slot :: nat

record rule_record =
  rec_entry :: rule_entry
  rec_group :: group

definition size_of_record :: nat where
  "size_of_record = 16"

definition key_at :: "bytes \<Rightarrow> rule_entry \<Rightarrow> bytes" where
  "key_at arena e = take (e_len e) (drop (e_offset e) arena)"

record filter_limits =
  li_max_rules :: nat
  li_max_memory_bytes :: nat
  li_retained_bytes :: nat

definition filter_limits_default :: filter_limits where
  "filter_limits_default = \<lparr>li_max_rules = 1000000, li_max_memory_bytes = 128 * 1024 * 1024, li_retained_bytes = 0\<rparr>"

record builder =
  bd_arena :: "u8 rvec"
  bd_records :: "rule_record rvec"
  bd_budget :: budget
  bd_local_slots :: nat
  bd_classes :: "nat list"
  bd_max_rules :: nat
  bd_decoded :: nat
  bd_failed :: "filter_error option"

definition builder_new :: "filter_limits \<Rightarrow> filter_error + builder" where
  "builder_new l =
     (if li_max_rules l = 0 \<or> 5000000 < li_max_rules l \<or> li_max_memory_bytes l = 0 \<or> 512 * 1024 * 1024 < li_max_memory_bytes l
      then Inl (filter_error InvalidLimits)
      else case bu_reserve \<lparr>bu_live = 0, bu_peak = 0, bu_limit = li_max_memory_bytes l\<rparr> (li_retained_bytes l) of
        Inl e \<Rightarrow> Inl e
      | Inr b \<Rightarrow> Inr \<lparr>bd_arena = vec_new, bd_records = vec_new, bd_budget = b, bd_local_slots = 1, bd_classes = [],
          bd_max_rules = li_max_rules l, bd_decoded = 0, bd_failed = None\<rparr>)"

text \<open>Local text counts against the aggregate of decoded input too.\<close>

definition account_local_text :: "builder \<Rightarrow> nat \<Rightarrow> (filter_error + unit) \<times> builder" where
  "account_local_text b n = (case bd_failed b of
     Some e \<Rightarrow> (Inl e, b)
   | None \<Rightarrow>
       (case checked_add (bd_decoded b) n of
          Some n' \<Rightarrow>
            if n' \<le> 32 * 1024 * 1024 then (Inr (), b\<lparr>bd_decoded := n'\<rparr>)
            else (Inl (filter_error InputLimit), b\<lparr>bd_failed := Some (filter_error InputLimit)\<rparr>)
        | None \<Rightarrow> (Inl (filter_error InputLimit), b\<lparr>bd_failed := Some (filter_error InputLimit)\<rparr>)))"

definition add_encoded :: "allocator \<Rightarrow> builder \<Rightarrow> bytes \<Rightarrow> group \<Rightarrow> nat \<Rightarrow> (filter_error + unit) \<times> builder" where
  "add_encoded A b encoded grp slot =
     (if bd_max_rules b \<le> length (items (bd_records b)) then (Inl (filter_error RuleLimit), b)
      else case checked_add (length (items (bd_arena b))) (length encoded) of
        None \<Rightarrow> (Inl (filter_error MemoryLimit), b)
      | Some end \<Rightarrow>
          if u32_max < end then (Inl (filter_error MemoryLimit), b)
          else (case grow A 1 (bd_arena b) end (bd_budget b) of
            (Inl e, bu) \<Rightarrow> (Inl e, b\<lparr>bd_budget := bu\<rparr>)
          | (Inr arena, bu) \<Rightarrow>
              (case grow A size_of_record (bd_records b) (length (items (bd_records b)) + 1) bu of
                 (Inl e, bu) \<Rightarrow> (Inl e, b\<lparr>bd_arena := arena, bd_budget := bu\<rparr>)
               | (Inr records, bu) \<Rightarrow>
                   (let entry = \<lparr>e_offset = as_u32 (length (items arena)), e_len = as_u16 (length encoded), e_slot = slot\<rparr> in
                    (Inr (), b\<lparr>bd_arena := arena\<lparr>items := items arena @ encoded\<rparr>,
                       bd_records := records\<lparr>items := items records @ [\<lparr>rec_entry = entry, rec_group = grp\<rparr>]\<rparr>,
                       bd_budget := bu\<rparr>)))))"

definition add_inner :: "allocator \<Rightarrow> builder \<Rightarrow> bytes \<Rightarrow> group \<Rightarrow> nat \<Rightarrow> ((filter_error + unit) \<times> builder) option" where
  "add_inner A b domain grp slot =
     (if slot = 65535 then Some (Inl (filter_error InvalidSource), b)
      else case key_rule domain of
        None \<Rightarrow> None
      | Some (Inl e) \<Rightarrow> Some (Inl e, b)
      | Some (Inr encoded) \<Rightarrow> Some (add_encoded A b encoded grp slot))"

definition builder_add :: "allocator \<Rightarrow> builder \<Rightarrow> bytes \<Rightarrow> group \<Rightarrow> nat \<Rightarrow> ((filter_error + unit) \<times> builder) option" where
  "builder_add A b domain grp slot = (case bd_failed b of
     Some e \<Rightarrow> Some (Inl e, b)
   | None \<Rightarrow>
       (case add_inner A b domain grp slot of
          None \<Rightarrow> None
        | Some (Inl e, b) \<Rightarrow> Some (Inl e, b\<lparr>bd_failed := Some e\<rparr>)
        | Some (Inr u, b) \<Rightarrow> Some (Inr u, b)))"

subsection \<open>Canonical rules\<close>

text \<open>The ends of the labels of an encoded domain; more than 128 of them overrun the array.\<close>

function label_ends :: "bytes \<Rightarrow> nat \<Rightarrow> nat list" where
  "label_ends bs position =
     (if position < length bs
      then let position = position + 1 + unat (bs ! position) in position # label_ends bs position else [])"
  by pat_completeness auto
termination by (relation "measure (\<lambda>(bs, p). length bs - p)") auto

declare label_ends.simps [simp del]

fun first_cover :: "bytes \<Rightarrow> rule_record list \<Rightarrow> bytes \<Rightarrow> nat list \<Rightarrow> rule_entry option" where
  "first_cover arena sfx bs [] = None"
| "first_cover arena sfx bs (end # ends) =
     (case binary_search (\<lambda>r. key_at arena (rec_entry r)) sfx (take end bs) of
        Some i \<Rightarrow> Some (rec_entry (sfx ! i))
      | None \<Rightarrow> first_cover arena sfx bs ends)"

definition longest_cover :: "bytes \<Rightarrow> rule_record list \<Rightarrow> bytes \<Rightarrow> rule_entry option option" where
  "longest_cover arena sfx bs = (let ends = label_ends bs 0 in
     if 128 < length ends \<or> list_ex (\<lambda>end. length bs < end) ends then None
     else Some (first_cover arena sfx bs (rev ends)))"

definition class_of :: "nat list \<Rightarrow> nat \<Rightarrow> nat" where
  "class_of classes slot = (if slot < length classes then classes ! slot else 0)"

definition uniform :: "nat list \<Rightarrow> bool" where
  "uniform classes = list_all (\<lambda>(a, b). a = b) (zip classes (tl classes))"

definition covers :: "nat \<Rightarrow> nat list \<Rightarrow> nat \<Rightarrow> rule_entry \<Rightarrow> rule_entry \<Rightarrow> bool" where
  "covers local_slots classes grp cover entry =
     (let local = (\<lambda>e. e_slot e < local_slots) in
      grp < 2 \<or> uniform classes \<or> (local cover \<and> \<not> local entry)
      \<or> (class_of classes (e_slot cover) = class_of classes (e_slot entry) \<and> local cover = local entry))"

type_synonym check = "nat \<Rightarrow> filter_error option"

text \<open>The loop over the records of one group, with the number of records read, the stack of
  covering suffixes (longest first), the last record, the records kept and the calls of the check.\<close>

record scan =
  sc_read :: nat
  sc_ancestors :: "rule_entry list"
  sc_last :: "rule_entry option"
  sc_kept :: "rule_record list"
  sc_calls :: nat

definition scan_check :: "check \<Rightarrow> scan \<Rightarrow> filter_error + scan" where
  "scan_check check s =
     (if 4096 dvd sc_read s then case check (sc_calls s) of Some e \<Rightarrow> Inl e | None \<Rightarrow> Inr (s\<lparr>sc_calls := sc_calls s + 1\<rparr>)
      else Inr s)"

text \<open>One record: the ancestors left and the cover, then whether it is kept.\<close>

definition scan_cover :: "bytes \<Rightarrow> nat \<Rightarrow> rule_record list \<Rightarrow> bytes \<Rightarrow> rule_entry list \<Rightarrow> (rule_entry list \<times> rule_entry option) option" where
  "scan_cover arena grp sfx bs ancestors =
     (if even grp
      then (let anc = dropWhile (\<lambda>a. \<not> prefix (key_at arena a) bs) ancestors in
            Some (anc, case anc of [] \<Rightarrow> None | a # _ \<Rightarrow> Some a))
      else case longest_cover arena sfx bs of None \<Rightarrow> None | Some c \<Rightarrow> Some (ancestors, c))"

definition scan_record :: "builder \<Rightarrow> nat \<Rightarrow> rule_record list \<Rightarrow> rule_record \<Rightarrow> scan \<Rightarrow> scan option" where
  "scan_record b grp sfx record s =
     (let arena = items (bd_arena b); entry = rec_entry record; bs = key_at arena entry;
          duplicate = (case sc_last s of None \<Rightarrow> False | Some l \<Rightarrow> bs = key_at arena l) in
      case scan_cover arena grp sfx bs (sc_ancestors s) of
        None \<Rightarrow> None
      | Some (anc, cover) \<Rightarrow>
          (let redundant = (duplicate \<or> (case cover of None \<Rightarrow> False
                 | Some c \<Rightarrow> covers (bd_local_slots b) (bd_classes b) grp c entry));
               s = s\<lparr>sc_read := sc_read s + 1, sc_ancestors := anc, sc_last := Some entry\<rparr> in
           if redundant then Some s
           else if even grp \<and> 128 \<le> length anc then None
           else Some (s\<lparr>sc_ancestors := (if even grp then entry # anc else anc), sc_kept := sc_kept s @ [record]\<rparr>)))"

fun scan_group :: "check \<Rightarrow> builder \<Rightarrow> nat \<Rightarrow> rule_record list \<Rightarrow> rule_record list \<Rightarrow> scan \<Rightarrow>
    (filter_error + rule_record list \<times> scan) option" where
  "scan_group check b grp sfx [] s = Some (Inr ([], s))"
| "scan_group check b grp sfx (record # records) s =
     (if group_index (rec_group record) \<noteq> grp then Some (Inr (record # records, s))
      else case scan_check check s of
        Inl e \<Rightarrow> Some (Inl e)
      | Inr s \<Rightarrow>
          (case scan_record b grp sfx record s of
             None \<Rightarrow> None
           | Some s \<Rightarrow> scan_group check b grp sfx records s))"

text \<open>The four groups in order, each with the kept records of the one before.\<close>

fun scan_groups :: "check \<Rightarrow> builder \<Rightarrow> nat list \<Rightarrow> rule_record list \<Rightarrow> rule_record list \<Rightarrow> nat \<Rightarrow> nat \<Rightarrow>
    (filter_error + rule_record list list \<times> nat) option" where
  "scan_groups check b [] before records read calls = Some (Inr ([], calls))"
| "scan_groups check b (grp # groups) before records read calls =
     (case scan_group check b grp before records
        \<lparr>sc_read = read, sc_ancestors = [], sc_last = None, sc_kept = [], sc_calls = calls\<rparr> of
        None \<Rightarrow> None
      | Some (Inl e) \<Rightarrow> Some (Inl e)
      | Some (Inr (rest, s)) \<Rightarrow>
          (case scan_groups check b groups (sc_kept s) rest (sc_read s) (sc_calls s) of
             None \<Rightarrow> None
           | Some (Inl e) \<Rightarrow> Some (Inl e)
           | Some (Inr (kept, calls)) \<Rightarrow> Some (Inr (sc_kept s # kept, calls))))"

definition group_digest :: "bytes \<Rightarrow> nat \<Rightarrow> rule_record list \<Rightarrow> bytes" where
  "group_digest arena grp records = of_nat grp # be_bytes 8 (length records)
     @ concat (map (\<lambda>r. be_bytes 2 (e_len (rec_entry r)) @ key_at arena (rec_entry r)) records)"

definition semantic_input :: "bytes \<Rightarrow> rule_record list list \<Rightarrow> bytes" where
  "semantic_input arena ranges = map chr_byte ''parins-policy-semantics-v1'' @ [0]
     @ concat (map (\<lambda>(g, rs). group_digest arena g rs) (List.enumerate 0 ranges))"

record canonical =
  ca_arena :: bytes
  ca_records :: "rule_record list"
  ca_budget :: budget
  ca_semantic_digest :: bytes
  ca_input_rules :: nat

definition rule_order_key :: "bytes \<Rightarrow> rule_record \<Rightarrow> nat \<times> bytes \<times> nat" where
  "rule_order_key arena r = (group_index (rec_group r), key_at arena (rec_entry r), e_slot (rec_entry r))"

definition prepare_with_check :: "check \<Rightarrow> (bytes \<Rightarrow> bytes) \<Rightarrow> builder \<Rightarrow> (filter_error + canonical) option" where
  "prepare_with_check check sha b = (case check 0 of
     Some e \<Rightarrow> Some (Inl e)
   | None \<Rightarrow>
       (case bd_failed b of
          Some e \<Rightarrow> Some (Inl e)
        | None \<Rightarrow>
            (let arena = items (bd_arena b); records = sort_key (rule_order_key arena) (items (bd_records b)) in
             case check 1 of
               Some e \<Rightarrow> Some (Inl e)
             | None \<Rightarrow>
                 (case scan_groups check b [0, 1, 2, 3] [] records 0 2 of
                    None \<Rightarrow> None
                  | Some (Inl e) \<Rightarrow> Some (Inl e)
                  | Some (Inr (ranges, calls)) \<Rightarrow>
                      (case check calls of
                         Some e \<Rightarrow> Some (Inl e)
                       | None \<Rightarrow> Some (Inr \<lparr>ca_arena = arena, ca_records = concat ranges, ca_budget = bd_budget b,
                           ca_semantic_digest = sha (semantic_input arena ranges), ca_input_rules = length records\<rparr>))))))"

end
