(* ===== verification/Filter_Canon.thy ===== *)
theory Filter_Canon
  imports Filter_Rules
begin

text \<open>
  What \<open>prepare_with_check\<close> keeps: it does not panic, it keeps at most one record of each group and
  domain, and a record it drops repeats a kept one or is covered by the longest
  kept suffix that contains it. The reference decision over a set of rules at the end is what the
  index must implement; the kept rules decide every name as all rules do.
\<close>

subsection \<open>Rule keys\<close>

definition key_ok :: "bytes \<Rightarrow> bool" where
  "key_ok k \<longleftrightarrow> (\<exists>ls. ls \<noteq> [] \<and> list_all label_ok ls \<and> k = enc_key ls \<and> length k \<le> 254)"

lemma label_ok_less: "list_all label_ok ls \<Longrightarrow> list_all (\<lambda>l. length l < 256) ls"
  by (auto simp: list_all_iff label_ok_def)

lemma enc_prefix_split:
  assumes "list_all label_ok ks" "list_all label_ok ls" "prefix (enc_key ks) (enc_key ls)"
  obtains us vs where "ls = us @ vs" "length (enc_key us) = length (enc_key ks)" "length us = length ks"
proof -
  have "prefix (lower ks) (lower ls)"
    using assms(3) enc_key_prefix[OF assms(1,2)[THEN label_ok_less]] by simp
  then obtain ms where "lower ls = lower ks @ ms" by (auto simp: prefix_def)
  then obtain us vs where uv: "ls = us @ vs" "lower us = lower ks" by (auto simp: map_eq_append_conv)
  then have "map length us = map length ks" by (metis (no_types, lifting) list.map_comp map_eq_conv comp_apply length_map)
  then have "length (enc_key us) = length (enc_key ks)" "length us = length ks" by (metis length_enc_key length_map)+
  with uv(1) show ?thesis by (rule that)
qed

lemma length_enc_ge: "list_all label_ok ls \<Longrightarrow> 2 * length ls \<le> length (enc_key ls)"
proof (induction ls)
  case (Cons l ls)
  then show ?case by (cases l) (auto simp: label_ok_def)
qed simp

lemma key_ok_length: "key_ok k \<Longrightarrow> 2 \<le> length k \<and> length k \<le> 254"
  using length_enc_ge by (fastforce simp: key_ok_def neq_Nil_conv)

text \<open>A key that properly contains another is at least one label longer.\<close>

lemma key_ok_step:
  assumes "key_ok a" "key_ok b" "strict_prefix a b"
  shows "length a + 2 \<le> length b"
proof -
  obtain ks ls where k: "list_all label_ok ks" "a = enc_key ks" and l: "list_all label_ok ls" "b = enc_key ls"
    using assms by (auto simp: key_ok_def)
  have "prefix (enc_key ks) (enc_key ls)" using assms(3) k(2) l(2) by (simp add: strict_prefix_def)
  then obtain us vs where uv: "ls = us @ vs" "length (enc_key us) = length (enc_key ks)" "length us = length ks"
    by (rule enc_prefix_split[OF k(1) l(1)])
  then have "length (enc_key us) = length a" using k(2) by simp
  moreover have "vs \<noteq> []"
  proof
    assume "vs = []"
    then have "length b = length a" using calculation uv(1) l(2) by simp
    then show False using assms(3) by (auto simp: strict_prefix_def prefix_def)
  qed
  then have "1 \<le> length vs" by (cases vs) auto
  moreover have "2 * length vs \<le> length (enc_key vs)" using l(1) uv(1) by (intro length_enc_ge) auto
  ultimately show ?thesis using l(2) uv(1) by simp
qed

lemma label_ends_enc:
  assumes "list_all label_ok ls"
  shows "label_ends (pre @ enc_key ls) (length pre) = map (\<lambda>i. length pre + length (enc_key (take (Suc i) ls))) [0..<length ls]"
  using assms
proof (induction ls arbitrary: pre)
  case Nil
  then show ?case by (simp add: label_ends.simps)
next
  case (Cons l ls)
  have len: "unat (of_nat (length l) :: u8) = length l"
    using Cons.prems by (auto simp: label_ok_def unat_of_nat)
  have "label_ends ((pre @ enc_label l) @ enc_key ls) (length (pre @ enc_label l)) =
      map (\<lambda>i. length (pre @ enc_label l) + length (enc_key (take (Suc i) ls))) [0..<length ls]"
    using Cons.prems by (intro Cons.IH) simp
  moreover have "(pre @ enc_key (l # ls)) ! length pre = of_nat (length l)" by (simp add: enc_label_def nth_append)
  moreover have "length pre < length (pre @ enc_key (l # ls))" by simp
  ultimately have "label_ends (pre @ enc_key (l # ls)) (length pre) = (length pre + Suc (length l)) #
      map (\<lambda>i. length (pre @ enc_label l) + length (enc_key (take (Suc i) ls))) [0..<length ls]"
    by (subst label_ends.simps) (simp add: len)
  then show ?case by (simp add: upt_conv_Cons map_Suc_upt[symmetric] del: upt_Suc)
qed

lemma key_prefix_end:
  assumes "key_ok k" "key_ok bs" "prefix k bs"
  shows "length k \<in> set (label_ends bs 0)"
proof -
  obtain ks ls where k: "ks \<noteq> []" "list_all label_ok ks" "k = enc_key ks" and l: "list_all label_ok ls" "bs = enc_key ls"
    using assms by (auto simp: key_ok_def)
  obtain us vs where uv: "ls = us @ vs" and eq: "length (enc_key us) = length (enc_key ks)" "length us = length ks"
    using assms(3) by (auto simp: k(3) l(2) elim: enc_prefix_split[OF k(2) l(1)])
  have "label_ends bs 0 = map (\<lambda>i. length (enc_key (take (Suc i) ls))) [0..<length ls]"
    using label_ends_enc[OF l(1), of "[]"] l(2) by simp
  moreover have "take (Suc (length us - 1)) ls = us" "length us - 1 < length ls"
    using uv eq(2) k(1) by (auto simp: neq_Nil_conv)
  ultimately show ?thesis using eq(1) k(3) by (force simp: image_iff)
qed

lemma label_ends_ok:
  assumes "key_ok bs"
  shows "length (label_ends bs 0) \<le> 127" "list_all (\<lambda>end. end \<le> length bs) (label_ends bs 0)"
    "sorted_wrt (<) (label_ends bs 0)"
proof -
  obtain ls where l: "list_all label_ok ls" "bs = enc_key ls" "length bs \<le> 254" using assms by (auto simp: key_ok_def)
  have ends: "label_ends bs 0 = map (\<lambda>i. length (enc_key (take (Suc i) ls))) [0..<length ls]"
    using label_ends_enc[OF l(1), of "[]"] l(2) by simp
  show "length (label_ends bs 0) \<le> 127" using length_enc_ge[OF l(1)] l ends by simp
  have mono: "length (enc_key (take i ls)) \<le> length (enc_key (take j ls))" if "i \<le> j" for i j
    using that by (metis le_add1 length_append enc_key_simps(3) append_take_drop_id min.absorb1 take_take)
  then show "list_all (\<lambda>end. end \<le> length bs) (label_ends bs 0)"
    unfolding ends using mono[of _ "length ls"] l(2) by (auto simp: list_all_iff)
  have "length (enc_key (take (Suc i) ls)) < length (enc_key (take (Suc j) ls))" if "i < j" "j < length ls" for i j
    using mono[of "Suc i" j] that by (simp add: take_Suc_conv_app_nth)
  then show "sorted_wrt (<) (label_ends bs 0)"
    unfolding ends by (auto simp: sorted_wrt_iff_nth_less)
qed

lemma first_cover_cases:
  assumes "sorted_wrt (<) (map (\<lambda>r. key_at arena (rec_entry r)) sfx)" "sorted_wrt (>) ends"
  shows "case first_cover arena sfx bs ends of
      None \<Rightarrow> \<forall>end \<in> set ends. take end bs \<notin> (\<lambda>r. key_at arena (rec_entry r)) ` set sfx
    | Some e \<Rightarrow> \<exists>r \<in> set sfx. \<exists>end \<in> set ends. e = rec_entry r \<and> key_at arena e = take end bs
        \<and> (\<forall>end' \<in> set ends. end < end' \<longrightarrow> take end' bs \<notin> (\<lambda>r. key_at arena (rec_entry r)) ` set sfx)"
  using assms(2)
proof (induction ends)
  case (Cons n ends)
  show ?case
  proof (cases "binary_search (\<lambda>r. key_at arena (rec_entry r)) sfx (take n bs)")
    case None
    then have "take n bs \<notin> (\<lambda>r. key_at arena (rec_entry r)) ` set sfx"
      unfolding binary_search_None[OF assms(1)] .
    with None Cons show ?thesis by (auto split: option.splits)
  next
    case (Some i)
    then have "i < length sfx" "key_at arena (rec_entry (sfx ! i)) = take n bs"
      using binary_search_iff[OF assms(1)] by auto
    with Some Cons.prems show ?thesis by (auto intro!: bexI[of _ "sfx ! i"])
  qed
qed simp

text \<open>The longest kept suffix that contains an encoded domain.\<close>

definition longest_in :: "bytes \<Rightarrow> rule_record set \<Rightarrow> bytes \<Rightarrow> rule_record \<Rightarrow> bool" where
  "longest_in arena R bs c \<longleftrightarrow> c \<in> R \<and> prefix (key_at arena (rec_entry c)) bs
     \<and> (\<forall>c' \<in> R. prefix (key_at arena (rec_entry c')) bs \<longrightarrow>
          length (key_at arena (rec_entry c')) \<le> length (key_at arena (rec_entry c)))"

lemma longest_cover_cases:
  assumes "sorted_wrt (<) (map (\<lambda>r. key_at arena (rec_entry r)) sfx)" "key_ok bs"
    and "\<forall>r \<in> set sfx. key_ok (key_at arena (rec_entry r))"
  obtains (none) "longest_cover arena sfx bs = Some None" "\<forall>r \<in> set sfx. \<not> prefix (key_at arena (rec_entry r)) bs"
  | (some) c where "longest_cover arena sfx bs = Some (Some (rec_entry c))" "longest_in arena (set sfx) bs c"
proof -
  let ?K = "\<lambda>r. key_at arena (rec_entry r)"
  have ends: "length (label_ends bs 0) \<le> 127" "\<not> list_ex (\<lambda>end. length bs < end) (label_ends bs 0)" "sorted_wrt (>) (rev (label_ends bs 0))"
    using label_ends_ok[OF assms(2)] by (auto simp: list_all_iff list_ex_iff sorted_wrt_rev)
  have eq: "longest_cover arena sfx bs = Some (first_cover arena sfx bs (rev (label_ends bs 0)))"
    using ends by (simp add: longest_cover_def Let_def)
  have at_end: "length (?K r) \<in> set (label_ends bs 0) \<and> take (length (?K r)) bs = ?K r"
    if "r \<in> set sfx" "prefix (?K r) bs" for r
    using key_prefix_end[OF _ assms(2) that(2)] assms(3) that by (auto simp: prefix_def)
  note cases = first_cover_cases[OF assms(1) ends(3), of bs]
  show ?thesis
  proof (cases "first_cover arena sfx bs (rev (label_ends bs 0))")
    case None
    with cases have no: "\<forall>end \<in> set (label_ends bs 0). take end bs \<notin> ?K ` set sfx" by simp
    have "\<not> prefix (?K r) bs" if "r \<in> set sfx" for r
      using at_end[OF that] no that by (metis imageI)
    with None eq show ?thesis by (intro none) auto
  next
    case (Some e)
    with cases obtain r m where r: "r \<in> set sfx" "m \<in> set (label_ends bs 0)" "e = rec_entry r" "?K r = take m bs"
      "\<forall>m' \<in> set (label_ends bs 0). m < m' \<longrightarrow> take m' bs \<notin> ?K ` set sfx" by auto
    have m: "m = length (?K r)" using r(2,4) label_ends_ok(2)[OF assms(2)] by (auto simp: list_all_iff)
    have "longest_in arena (set sfx) bs r"
      unfolding longest_in_def
    proof (intro conjI ballI impI)
      show "prefix (?K r) bs" using r(4) by (simp add: take_is_prefix)
      fix c' assume c': "c' \<in> set sfx" "prefix (?K c') bs"
      with at_end[OF c'] r(5) m show "length (?K c') \<le> length (?K r)" by (metis imageI not_le)
    qed (rule r(1))
    with Some eq r(3) show ?thesis by (intro some) auto
  qed
qed

subsection \<open>One group\<close>

lemma prefix_convex: "a \<le> x \<Longrightarrow> x \<le> y \<Longrightarrow> prefix a y \<Longrightarrow> prefix a (x :: 'a::linorder list)"
proof (induction a arbitrary: x y)
  case (Cons h t)
  then show ?case by (cases x; cases y) auto
qed simp

lemma prefix_le: "prefix a b \<Longrightarrow> a \<le> (b :: 'a::linorder list)"
proof (induction a arbitrary: b)
  case (Cons h t)
  then show ?case by (cases b) auto
qed simp

abbreviation rkey :: "builder \<Rightarrow> rule_record \<Rightarrow> bytes" where
  "rkey b r \<equiv> key_at (items (bd_arena b)) (rec_entry r)"

definition settled :: "builder \<Rightarrow> nat \<Rightarrow> rule_record set \<Rightarrow> rule_record set \<Rightarrow> rule_record \<Rightarrow> bool" where
  "settled b g base kept r \<longleftrightarrow> r \<in> kept \<or> (\<exists>c.
     longest_in (items (bd_arena b)) {c \<in> base. even g \<longrightarrow> rkey b c \<noteq> rkey b r} (rkey b r) c
     \<and> covers (bd_local_slots b) (bd_classes b) g (rec_entry c) (rec_entry r))"

definition all_settled :: "builder \<Rightarrow> nat \<Rightarrow> rule_record set \<Rightarrow> rule_record set \<Rightarrow> rule_record list \<Rightarrow> bool" where
  "all_settled b g base kept rs \<longleftrightarrow> (\<forall>r \<in> set rs. \<exists>r0 \<in> set rs.
     rkey b r0 = rkey b r \<and> e_slot (rec_entry r0) \<le> e_slot (rec_entry r) \<and> settled b g base kept r0)"

definition stack_ok :: "builder \<Rightarrow> rule_record set \<Rightarrow> bytes \<Rightarrow> rule_entry list \<Rightarrow> bool" where
  "stack_ok b kept bs anc \<longleftrightarrow> set anc = rec_entry ` {r \<in> kept. prefix (rkey b r) bs}
     \<and> sorted_wrt (\<lambda>x y. strict_prefix (key_at (items (bd_arena b)) y) (key_at (items (bd_arena b)) x)) anc"

text \<open>A kept record has the lowest slot of its domain.\<close>

definition lowest :: "builder \<Rightarrow> rule_record list \<Rightarrow> rule_record list \<Rightarrow> bool" where
  "lowest b kept rs \<longleftrightarrow> (\<forall>r \<in> set kept. \<forall>x \<in> set rs. rkey b x = rkey b r \<longrightarrow> e_slot (rec_entry r) \<le> e_slot (rec_entry x))"

text \<open>After the records \<open>done\<close> of a group: what the state of the loop means.\<close>

definition scan_inv :: "builder \<Rightarrow> nat \<Rightarrow> rule_record list \<Rightarrow> rule_record list \<Rightarrow> scan \<Rightarrow> bool" where
  "scan_inv b g before done s \<longleftrightarrow>
     sc_last s = (if done = [] then None else Some (rec_entry (last done)))
     \<and> set (sc_kept s) \<subseteq> set done \<and> sorted_wrt (<) (map (rkey b) (sc_kept s))
     \<and> (even g \<longrightarrow> stack_ok b (set (sc_kept s)) (rkey b (last done)) (sc_ancestors s))
     \<and> all_settled b g (if even g then set (sc_kept s) else set before) (set (sc_kept s)) done \<and> lowest b (sc_kept s) done"

lemma chain_dropWhile:
  assumes "sorted_wrt (\<lambda>x y. strict_prefix (k y) (k x)) anc"
  shows "set (dropWhile (\<lambda>a. \<not> prefix (k a) bs) anc) = {a \<in> set anc. prefix (k a) bs}"
  using assms
proof (induction anc)
  case (Cons a anc)
  have "prefix (k x) bs" if "prefix (k a) bs" "x \<in> set anc" for x
    using Cons.prems that by (auto intro: prefix_order.trans simp: strict_prefix_def)
  with Cons show ?case by auto
qed simp

lemma chain_length:
  assumes "sorted_wrt (\<lambda>x y. strict_prefix (k y) (k x)) anc" "\<forall>a \<in> set anc. key_ok (k a)" "anc \<noteq> []"
  shows "2 * length anc \<le> length (k (hd anc))"
  using assms
proof (induction anc)
  case (Cons a anc)
  show ?case
  proof (cases anc)
    case Nil
    then show ?thesis using Cons.prems key_ok_length by simp
  next
    case (Cons x xs)
    then have "length (k x) + 2 \<le> length (k a)" using Cons.prems by (intro key_ok_step) auto
    with Cons.IH Cons.prems Cons show ?thesis by auto
  qed
qed simp

lemma scan_cover_even:
  assumes inv: "scan_inv b g before done s" and g: "even g"
    and ok: "\<forall>r \<in> set (done @ [r]). key_ok (rkey b r)"
    and srt: "sorted (map (rkey b) (done @ [r]))"
  obtains anc where "scan_cover (items (bd_arena b)) g before (rkey b r) (sc_ancestors s) = Some (anc, case anc of [] \<Rightarrow> None | a # _ \<Rightarrow> Some a)"
    "stack_ok b (set (sc_kept s)) (rkey b r) anc" "length anc \<le> 127"
proof -
  let ?anc = "dropWhile (\<lambda>a. \<not> prefix (key_at (items (bd_arena b)) a) (rkey b r)) (sc_ancestors s)"
  have stack: "stack_ok b (set (sc_kept s)) (rkey b (last done)) (sc_ancestors s)" and kept: "set (sc_kept s) \<subseteq> set done"
    using inv g by (simp_all add: scan_inv_def)
  have conv: "prefix (rkey b r') (rkey b (last done))" if r': "r' \<in> set (sc_kept s)" "prefix (rkey b r') (rkey b r)" for r'
  proof (rule prefix_convex[OF _ _ r'(2)])
    obtain xs x where xs: "done = xs @ [x]" using r'(1) kept by (cases "done" rule: rev_cases) auto
    show "rkey b (last done) \<le> rkey b r" using srt xs by (auto simp: sorted_append)
    have "r' \<in> set (xs @ [x])" using r'(1) kept xs by auto
    moreover have "sorted (map (rkey b) (xs @ [x]))" using srt xs by (simp add: sorted_append)
    ultimately show "rkey b r' \<le> rkey b (last done)" using xs by (auto simp: sorted_append)
  qed
  have chain: "sorted_wrt (\<lambda>x y. strict_prefix (key_at (items (bd_arena b)) y) (key_at (items (bd_arena b)) x)) (sc_ancestors s)"
    using stack by (simp add: stack_ok_def)
  have stack': "stack_ok b (set (sc_kept s)) (rkey b r) ?anc"
    unfolding stack_ok_def
  proof
    show "set ?anc = rec_entry ` {r' \<in> set (sc_kept s). prefix (rkey b r') (rkey b r)}"
      unfolding chain_dropWhile[OF chain] using stack conv by (auto simp: stack_ok_def)
  qed (rule sorted_wrt_dropWhile[OF chain])
  have "length ?anc \<le> 127"
  proof (cases "?anc = []")
    case False
    have keys: "\<forall>a \<in> set ?anc. key_ok (key_at (items (bd_arena b)) a)"
      using stack' kept ok unfolding stack_ok_def by auto
    have "length (key_at (items (bd_arena b)) (hd ?anc)) \<le> 254"
      using key_ok_length[OF keys[rule_format, OF hd_in_set[OF False]]] by simp
    with chain_length[OF _ keys False] stack' show ?thesis by (simp add: stack_ok_def)
  next
    case True
    then show ?thesis by (simp only: list.size)
  qed
  moreover have "scan_cover (items (bd_arena b)) g before (rkey b r) (sc_ancestors s) = Some (?anc, case ?anc of [] \<Rightarrow> None | a # _ \<Rightarrow> Some a)"
    using g by (simp add: scan_cover_def Let_def)
  ultimately show ?thesis by (intro that[of ?anc] stack')
qed

lemma scan_cover_ok:
  assumes inv: "scan_inv b g before done s"
    and ok: "\<forall>r \<in> set (done @ [r]). key_ok (rkey b r)"
    and srt: "sorted (map (rkey b) (done @ [r]))"
    and before: "sorted_wrt (<) (map (rkey b) before)" "\<forall>r \<in> set before. key_ok (rkey b r)"
  obtains anc cover where "scan_cover (items (bd_arena b)) g before (rkey b r) (sc_ancestors s) = Some (anc, cover)"
    "\<forall>e. cover = Some e \<longrightarrow> (\<exists>c. e = rec_entry c \<and> longest_in (items (bd_arena b)) (if even g then set (sc_kept s) else set before) (rkey b r) c)"
    "even g \<longrightarrow> stack_ok b (set (sc_kept s)) (rkey b r) anc \<and> length anc \<le> 127"
proof (cases "even g")
  case True
  obtain anc where anc: "scan_cover (items (bd_arena b)) g before (rkey b r) (sc_ancestors s) = Some (anc, case anc of [] \<Rightarrow> None | a # _ \<Rightarrow> Some a)"
    and stack: "stack_ok b (set (sc_kept s)) (rkey b r) anc" and len: "length anc \<le> 127"
    by (rule scan_cover_even[OF inv True ok srt])
  have anc2: "set anc = rec_entry ` {r' \<in> set (sc_kept s). prefix (rkey b r') (rkey b r)}"
    and anc3: "sorted_wrt (\<lambda>x y. strict_prefix (key_at (items (bd_arena b)) y) (key_at (items (bd_arena b)) x)) anc"
    using stack by (simp_all add: stack_ok_def)
  have "\<exists>c. a = rec_entry c \<and> longest_in (items (bd_arena b)) (set (sc_kept s)) (rkey b r) c" if a: "anc = a # as" for a as
  proof -
    have "a \<in> set anc" using a by simp
    then obtain c where c: "a = rec_entry c" "c \<in> set (sc_kept s)" "prefix (rkey b c) (rkey b r)"
      unfolding anc2 by auto
    have "length (rkey b c') \<le> length (rkey b c)" if "c' \<in> set (sc_kept s)" "prefix (rkey b c') (rkey b r)" for c'
    proof -
      have "rec_entry c' \<in> set anc" using that unfolding anc2 by auto
      then show ?thesis using a anc3 c(1) by (auto simp: strict_prefix_def dest: prefix_length_le)
    qed
    then have "longest_in (items (bd_arena b)) (set (sc_kept s)) (rkey b r) c" using c unfolding longest_in_def by simp
    with c(1) show ?thesis by (intro exI conjI)
  qed
  then have "\<forall>e. (case anc of [] \<Rightarrow> None | a # _ \<Rightarrow> Some a) = Some e \<longrightarrow>
      (\<exists>c. e = rec_entry c \<and> longest_in (items (bd_arena b)) (if even g then set (sc_kept s) else set before) (rkey b r) c)"
    using True by (cases anc) simp_all
  from that[OF anc this] stack len show ?thesis by simp
next
  case False
  from ok have "key_ok (rkey b r)" by simp
  then consider (none) "longest_cover (items (bd_arena b)) before (rkey b r) = Some None"
    | (some) c where "longest_cover (items (bd_arena b)) before (rkey b r) = Some (Some (rec_entry c))"
        "longest_in (items (bd_arena b)) (set before) (rkey b r) c"
    by (rule longest_cover_cases[OF before(1) _ before(2)]) auto
  then show ?thesis
  proof cases
    case none
    then show ?thesis using False by (intro that[of "sc_ancestors s" None]) (simp_all add: scan_cover_def)
  next
    case (some c)
    then show ?thesis using False by (intro that[of "sc_ancestors s" "Some (rec_entry c)"]) (auto simp: scan_cover_def)
  qed
qed

lemma settled_mono:
  assumes "settled b g base kept r0" "kept \<subseteq> kept'" "base \<subseteq> base'" "\<forall>c \<in> base' - base. \<not> prefix (rkey b c) (rkey b r0)"
  shows "settled b g base' kept' r0"
  using assms(1) unfolding settled_def
proof (elim disjE exE conjE)
  assume "r0 \<in> kept"
  then show "r0 \<in> kept' \<or> (\<exists>c. longest_in (items (bd_arena b)) {c \<in> base'. even g \<longrightarrow> rkey b c \<noteq> rkey b r0} (rkey b r0) c
     \<and> covers (bd_local_slots b) (bd_classes b) g (rec_entry c) (rec_entry r0))"
    using assms(2) by (simp add: subset_iff)
next
  fix c assume c: "longest_in (items (bd_arena b)) {c \<in> base. even g \<longrightarrow> rkey b c \<noteq> rkey b r0} (rkey b r0) c"
    "covers (bd_local_slots b) (bd_classes b) g (rec_entry c) (rec_entry r0)"
  have "longest_in (items (bd_arena b)) {c \<in> base'. even g \<longrightarrow> rkey b c \<noteq> rkey b r0} (rkey b r0) c"
    using c(1) assms(3,4) unfolding longest_in_def by auto
  with c(2) show "r0 \<in> kept' \<or> (\<exists>c. longest_in (items (bd_arena b)) {c \<in> base'. even g \<longrightarrow> rkey b c \<noteq> rkey b r0} (rkey b r0) c
     \<and> covers (bd_local_slots b) (bd_classes b) g (rec_entry c) (rec_entry r0))"
    by (intro disjI2 exI conjI)
qed

text \<open>A record with the domain of the one before it is settled with that one.\<close>

lemma all_settled_duplicate:
  assumes "all_settled b g base kept done" "done \<noteq> []" "rkey b r = rkey b (last done)"
    and "e_slot (rec_entry (last done)) \<le> e_slot (rec_entry r)"
  shows "all_settled b g base kept (done @ [r])"
proof -
  obtain r0 where r0: "r0 \<in> set done" "rkey b r0 = rkey b (last done)" "e_slot (rec_entry r0) \<le> e_slot (rec_entry (last done))"
    "settled b g base kept r0"
    using assms(1) last_in_set[OF assms(2)] unfolding all_settled_def by (elim ballE bexE conjE) auto
  then have "rkey b r0 = rkey b r" "e_slot (rec_entry r0) \<le> e_slot (rec_entry r)" using assms(3,4) by simp_all
  with r0(1,4) assms(1) show ?thesis unfolding all_settled_def by auto
qed

text \<open>Any other record is settled itself, and leaves the ones before it so.\<close>

lemma all_settled_new:
  assumes "all_settled b g base kept done" "settled b g base' kept' r" "kept \<subseteq> kept'" "base \<subseteq> base'"
    and "\<forall>c \<in> base' - base. \<forall>r0 \<in> set done. \<not> prefix (rkey b c) (rkey b r0)"
  shows "all_settled b g base' kept' (done @ [r])"
  unfolding all_settled_def
proof
  fix x assume "x \<in> set (done @ [r])"
  then consider "x \<in> set done" | "x = r" by auto
  then show "\<exists>r0 \<in> set (done @ [r]). rkey b r0 = rkey b x \<and> e_slot (rec_entry r0) \<le> e_slot (rec_entry x) \<and> settled b g base' kept' r0"
  proof cases
    case 1
    then obtain r0 where r0: "r0 \<in> set done" "rkey b r0 = rkey b x" "e_slot (rec_entry r0) \<le> e_slot (rec_entry x)" "settled b g base kept r0"
      using assms(1) unfolding all_settled_def by (elim ballE bexE conjE) auto
    have "settled b g base' kept' r0" using settled_mono[OF r0(4) assms(3,4)] assms(5) r0(1) by simp
    with r0(1-3) show ?thesis by (intro bexI[of _ r0]) simp_all
  next
    case 2
    with assms(2) show ?thesis by (intro bexI[of _ r]) simp_all
  qed
qed

lemma sorted_map_fst: "sorted (map (\<lambda>x. (f x, h x)) xs) \<Longrightarrow> sorted (map f xs)"
  by (induction xs) (auto simp: less_eq_prod_def less_imp_le)

lemma sorted_map_last: "sorted (map f xs) \<Longrightarrow> x \<in> set xs \<Longrightarrow> f x \<le> f (last xs)"
  by (induction xs) auto

lemma scan_record_step:
  assumes inv: "scan_inv b g before done s"
    and ok: "\<forall>r \<in> set (done @ [r]). key_ok (rkey b r)"
    and srt: "sorted (map (\<lambda>r. (rkey b r, e_slot (rec_entry r))) (done @ [r]))"
    and before: "sorted_wrt (<) (map (rkey b) before)" "\<forall>r \<in> set before. key_ok (rkey b r)"
  shows "\<exists>s'. scan_record b g before r s = Some s' \<and> scan_inv b g before (done @ [r]) s'"
proof -
  let ?base = "if even g then set (sc_kept s) else set before"
  have le: "(rkey b x, e_slot (rec_entry x)) \<le> (rkey b r, e_slot (rec_entry r))" if "x \<in> set done" for x
    using srt that by (auto simp: sorted_append)
  have srt': "sorted (map (rkey b) (done @ [r]))" by (rule sorted_map_fst[OF srt])
  obtain anc cover where c: "scan_cover (items (bd_arena b)) g before (rkey b r) (sc_ancestors s) = Some (anc, cover)"
    "\<forall>e. cover = Some e \<longrightarrow> (\<exists>c. e = rec_entry c \<and> longest_in (items (bd_arena b)) ?base (rkey b r) c)"
    "even g \<longrightarrow> stack_ok b (set (sc_kept s)) (rkey b r) anc \<and> length anc \<le> 127"
    by (rule scan_cover_ok[OF inv ok srt' before])
  have D: "sc_last s = (if done = [] then None else Some (rec_entry (last done)))" "set (sc_kept s) \<subseteq> set done"
    "sorted_wrt (<) (map (rkey b) (sc_kept s))" "all_settled b g ?base (set (sc_kept s)) done"
    "lowest b (sc_kept s) done"
    using inv by (simp_all add: scan_inv_def)
  have "e_slot (rec_entry x) \<le> e_slot (rec_entry r)" if "x \<in> set done" "rkey b x = rkey b r" for x
    using le[OF that(1)] that(2) by (simp add: less_eq_prod_def)
  then have low: "lowest b (sc_kept s) (done @ [r])"
    using D(2,5) by (auto simp: lowest_def)
  let ?s = "s\<lparr>sc_read := sc_read s + 1, sc_ancestors := anc, sc_last := Some (rec_entry r)\<rparr>"
  have same: "scan_inv b g before (done @ [r]) ?s" if "all_settled b g ?base (set (sc_kept s)) (done @ [r])"
    unfolding scan_inv_def using D(2,3) c(3) that low by auto
  show ?thesis
  proof (cases "done \<noteq> [] \<and> rkey b r = rkey b (last done)")
    case True
    then have "e_slot (rec_entry (last done)) \<le> e_slot (rec_entry r)"
      using le[OF last_in_set] by (auto simp: less_eq_prod_def)
    then have "all_settled b g ?base (set (sc_kept s)) (done @ [r])"
      using all_settled_duplicate[OF D(4)] True by simp
    from same[OF this] c(1) True D(1) show ?thesis by (simp add: scan_record_def Let_def)
  next
    case new: False
    have lt: "rkey b x < rkey b r" if x: "x \<in> set done" for x
    proof -
      have ne: "done \<noteq> []" using x by auto
      have "rkey b x \<le> rkey b (last done)" using srt' x by (intro sorted_map_last[of "rkey b"]) (auto simp: sorted_append)
      moreover have "rkey b (last done) \<le> rkey b r" using srt' ne by (auto simp: sorted_append)
      ultimately show ?thesis using new ne by auto
    qed
    have kept_lt: "\<forall>x \<in> set (sc_kept s). rkey b x < rkey b r" using lt D(2) by auto
    have dup: "\<not> (case sc_last s of None \<Rightarrow> False | Some l \<Rightarrow> rkey b r = key_at (items (bd_arena b)) l)"
      using new D(1) by (auto split: if_splits)
    show ?thesis
    proof (cases "\<exists>e. cover = Some e \<and> covers (bd_local_slots b) (bd_classes b) g e (rec_entry r)")
      case True
      then obtain e where e: "cover = Some e" "covers (bd_local_slots b) (bd_classes b) g e (rec_entry r)" by blast
      then obtain c' where c': "e = rec_entry c'" "longest_in (items (bd_arena b)) ?base (rkey b r) c'" using c(2) by blast
      have "{c \<in> ?base. even g \<longrightarrow> rkey b c \<noteq> rkey b r} = ?base" using kept_lt by auto
      then have "settled b g ?base (set (sc_kept s)) r" unfolding settled_def using c' e(2) by auto
      then have "all_settled b g ?base (set (sc_kept s)) (done @ [r])" by (intro all_settled_new[OF D(4)]) auto
      from same[OF this] c(1) e dup show ?thesis by (simp add: scan_record_def Let_def)
    next
      case False
      let ?s' = "?s\<lparr>sc_ancestors := (if even g then rec_entry r # anc else anc), sc_kept := sc_kept s @ [r]\<rparr>"
      have eq: "scan_record b g before r s = Some ?s'"
        using c False dup by (auto simp: scan_record_def Let_def split: option.splits)
      have stack: "stack_ok b (set (sc_kept s @ [r])) (rkey b r) (rec_entry r # anc)" if "even g"
        using c(3) that kept_lt by (auto simp: stack_ok_def strict_prefix_def)
      have "\<not> prefix (rkey b r) (rkey b r0)" if "r0 \<in> set done" for r0
        using lt[OF that] prefix_le[of "rkey b r" "rkey b r0"] by auto
      then have "all_settled b g (if even g then set (sc_kept s @ [r]) else set before) (set (sc_kept s @ [r])) (done @ [r])"
        by (intro all_settled_new[OF D(4)]) (auto simp: settled_def)
      moreover have "rkey b x \<noteq> rkey b r" if "x \<in> set done" for x using lt[OF that] by simp
      then have "lowest b (sc_kept s @ [r]) (done @ [r])" using low by (auto simp: lowest_def)
      ultimately have "scan_inv b g before (done @ [r]) ?s'"
        unfolding scan_inv_def using D(2,3) kept_lt stack by (auto simp: sorted_wrt_append)
      with eq show ?thesis by blast
    qed
  qed
qed

lemma scan_check_ok: "scan_check check s = Inr s' \<Longrightarrow> scan_inv b g before done s \<Longrightarrow> scan_inv b g before done s'"
  by (auto simp: scan_check_def scan_inv_def split: if_splits option.splits)

abbreviation gi :: "rule_record \<Rightarrow> nat" where
  "gi r \<equiv> group_index (rec_group r)"

lemma order_key_group:
  assumes "sorted (map (rule_order_key arena) rs)"
  shows "sorted (map gi rs)"
  using assms unfolding rule_order_key_def by (rule sorted_map_fst)

lemma order_key_same_group:
  assumes "sorted (map (rule_order_key (items (bd_arena b))) rs)" "list_all (\<lambda>r. gi r = g) rs"
  shows "sorted (map (\<lambda>r. (rkey b r, e_slot (rec_entry r))) rs)"
  using assms by (induction rs) (auto simp: rule_order_key_def less_eq_prod_def list_all_iff)

lemma scan_group_ok:
  assumes "scan_inv b g before done s" "sorted (map (rule_order_key (items (bd_arena b))) (done @ todo))"
    and "\<forall>r \<in> set (done @ todo). key_ok (rkey b r)" "list_all (\<lambda>r. gi r = g) done"
    and "sorted_wrt (<) (map (rkey b) before)" "\<forall>r \<in> set before. key_ok (rkey b r)"
  shows "\<exists>res. scan_group check b g before todo s = Some res
    \<and> ((\<forall>n. check n = None) \<longrightarrow> (\<exists>x. res = Inr x))
    \<and> (\<forall>rest s'. res = Inr (rest, s') \<longrightarrow> (\<exists>taken. todo = taken @ rest \<and> list_all (\<lambda>r. gi r = g) taken
         \<and> (rest \<noteq> [] \<longrightarrow> gi (hd rest) \<noteq> g) \<and> scan_inv b g before (done @ taken) s'))"
  using assms(1-4)
proof (induction todo arbitrary: "done" s)
  case Nil
  then show ?case by simp
next
  case (Cons r todo)
  show ?case
  proof (cases "gi r = g")
    case False
    with Cons.prems(1) show ?thesis by simp
  next
    case True
    show ?thesis
    proof (cases "scan_check check s")
      case (Inl e)
      moreover have "\<exists>n. check n \<noteq> None" using Inl by (auto simp: scan_check_def split: if_splits option.splits)
      ultimately show ?thesis using True by simp
    next
      case (Inr s1)
      from scan_check_ok[OF Inr Cons.prems(1)] have inv1: "scan_inv b g before done s1" .
      have all: "list_all (\<lambda>r. gi r = g) (done @ [r])" using Cons.prems(4) True by simp
      moreover have "sorted (map (rule_order_key (items (bd_arena b))) (done @ [r]))"
        using Cons.prems(2) by (auto simp: sorted_append)
      ultimately have "sorted (map (\<lambda>r. (rkey b r, e_slot (rec_entry r))) (done @ [r]))" by (intro order_key_same_group)
      then obtain s2 where s2: "scan_record b g before r s1 = Some s2" "scan_inv b g before (done @ [r]) s2"
        using scan_record_step[OF inv1 _ _ assms(5,6), of r] Cons.prems(3) by auto
      have "sorted (map (rule_order_key (items (bd_arena b))) ((done @ [r]) @ todo))"
        "\<forall>x \<in> set ((done @ [r]) @ todo). key_ok (rkey b x)" using Cons.prems(2,3) by simp_all
      from Cons.IH[OF s2(2) this all] obtain res where res: "scan_group check b g before todo s2 = Some res"
        "(\<forall>n. check n = None) \<longrightarrow> (\<exists>x. res = Inr x)"
        "\<forall>rest s'. res = Inr (rest, s') \<longrightarrow> (\<exists>taken. todo = taken @ rest \<and> list_all (\<lambda>r. gi r = g) taken
           \<and> (rest \<noteq> [] \<longrightarrow> gi (hd rest) \<noteq> g) \<and> scan_inv b g before ((done @ [r]) @ taken) s')"
        by (elim exE conjE)
      have "\<exists>taken. r # todo = taken @ rest \<and> list_all (\<lambda>r. gi r = g) taken
           \<and> (rest \<noteq> [] \<longrightarrow> gi (hd rest) \<noteq> g) \<and> scan_inv b g before (done @ taken) s'" if eq: "res = Inr (rest, s')" for rest s'
      proof -
        obtain taken where "todo = taken @ rest" "list_all (\<lambda>r. gi r = g) taken"
          "rest \<noteq> [] \<longrightarrow> gi (hd rest) \<noteq> g" "scan_inv b g before ((done @ [r]) @ taken) s'"
          using res(3)[rule_format, OF eq] by (elim exE conjE)
        with True show ?thesis by (intro exI[of _ "r # taken"]) simp
      qed
      with res(1,2) True Inr s2(1) show ?thesis by (intro exI[of _ res]) simp
    qed
  qed
qed

text \<open>The whole scan, one group after the other.\<close>

definition kept_ok :: "builder \<Rightarrow> nat \<Rightarrow> rule_record list \<Rightarrow> rule_record list \<Rightarrow> rule_record list \<Rightarrow> bool" where
  "kept_ok b g before rs kept \<longleftrightarrow> set kept \<subseteq> set rs \<and> sorted_wrt (<) (map (rkey b) kept)
     \<and> all_settled b g (if even g then set kept else set before) (set kept) rs \<and> lowest b kept rs"

fun ranges_ok :: "builder \<Rightarrow> nat list \<Rightarrow> rule_record list \<Rightarrow> rule_record list \<Rightarrow> rule_record list list \<Rightarrow> bool" where
  "ranges_ok b [] before rs ranges = (ranges = [] \<and> rs = [])"
| "ranges_ok b (g # gs) before rs ranges = (\<exists>taken rest kept ranges'. rs = taken @ rest \<and> ranges = kept # ranges'
     \<and> list_all (\<lambda>r. gi r = g) taken \<and> kept_ok b g before taken kept \<and> ranges_ok b gs kept rest ranges')"

lemma scan_inv_init:
  "scan_inv b g before [] \<lparr>sc_read = n, sc_ancestors = [], sc_last = None, sc_kept = [], sc_calls = m\<rparr>"
  by (simp add: scan_inv_def stack_ok_def all_settled_def lowest_def)

lemma scan_groups_ok:
  assumes "sorted (map (rule_order_key (items (bd_arena b))) todo)" "\<forall>r \<in> set todo. key_ok (rkey b r) \<and> k \<le> gi r"
    and "sorted_wrt (<) (map (rkey b) before)" "\<forall>r \<in> set before. key_ok (rkey b r)" "k \<le> 4"
  shows "\<exists>res. scan_groups check b [k..<4] before todo n m = Some res
    \<and> ((\<forall>n. check n = None) \<longrightarrow> (\<exists>x. res = Inr x))
    \<and> (\<forall>ranges m'. res = Inr (ranges, m') \<longrightarrow> ranges_ok b [k..<4] before todo ranges)"
  using assms
proof (induction "4 - k" arbitrary: k before todo n m)
  case 0
  then have k: "k = 4" by simp
  then have "todo = []" using 0 group_index_less by (metis leD list.set_intros(1) neq_Nil_conv)
  with k show ?case by simp
next
  case (Suc d)
  then have k: "[k..<4] = k # [Suc k..<4]" "d = 4 - Suc k" "Suc k \<le> 4" by (auto simp: upt_conv_Cons)
  let ?s = "\<lparr>sc_read = n, sc_ancestors = [], sc_last = None, sc_kept = [], sc_calls = m\<rparr>"
  obtain res where res: "scan_group check b k before todo ?s = Some res"
    "(\<forall>n. check n = None) \<longrightarrow> (\<exists>x. res = Inr x)"
    "\<forall>rest s'. res = Inr (rest, s') \<longrightarrow> (\<exists>taken. todo = taken @ rest \<and> list_all (\<lambda>r. gi r = k) taken
       \<and> (rest \<noteq> [] \<longrightarrow> gi (hd rest) \<noteq> k) \<and> scan_inv b k before ([] @ taken) s')"
    using scan_group_ok[OF scan_inv_init[of b k before n m], of todo check] Suc.prems by auto
  show ?case
  proof (cases res)
    case (Inl e)
    then show ?thesis using res(1,2) k(1) by simp
  next
    case (Inr p)
    then obtain rest s where p: "res = Inr (rest, s)" by (cases p) auto
    then obtain taken where t: "todo = taken @ rest" "list_all (\<lambda>r. gi r = k) taken" "rest \<noteq> [] \<longrightarrow> gi (hd rest) \<noteq> k"
      "scan_inv b k before taken s" using res(3) by auto
    have kept: "kept_ok b k before taken (sc_kept s)" using t(4) by (simp add: scan_inv_def kept_ok_def)
    have "sorted (map gi rest)" using order_key_group[OF Suc.prems(1)] t(1) by (simp add: sorted_append)
    have "Suc k \<le> gi r" if r: "r \<in> set rest" for r
    proof -
      obtain a as where a: "rest = a # as" using r by (cases rest) auto
      then have "k < gi a" using t(1,3) Suc.prems(2) by (auto simp: order_less_le)
      moreover have "gi a \<le> gi r" using \<open>sorted (map gi rest)\<close> r a by auto
      ultimately show ?thesis by simp
    qed
    moreover have "sorted (map (rule_order_key (items (bd_arena b))) rest)" using Suc.prems(1) t(1) by (simp add: sorted_append)
    moreover have "\<forall>r \<in> set (sc_kept s). key_ok (rkey b r)" using kept t(1) Suc.prems(2) by (auto simp: kept_ok_def)
    ultimately have "\<exists>res. scan_groups check b [Suc k..<4] (sc_kept s) rest (sc_read s) (sc_calls s) = Some res
      \<and> ((\<forall>n. check n = None) \<longrightarrow> (\<exists>x. res = Inr x))
      \<and> (\<forall>ranges m'. res = Inr (ranges, m') \<longrightarrow> ranges_ok b [Suc k..<4] (sc_kept s) rest ranges)"
      using Suc.hyps(1)[OF k(2), of rest "sc_kept s"] k(3) kept Suc.prems(2) t(1) by (auto simp: kept_ok_def)
    then obtain res2 where res2: "scan_groups check b [Suc k..<4] (sc_kept s) rest (sc_read s) (sc_calls s) = Some res2"
      "(\<forall>n. check n = None) \<longrightarrow> (\<exists>x. res2 = Inr x)"
      "\<forall>ranges m'. res2 = Inr (ranges, m') \<longrightarrow> ranges_ok b [Suc k..<4] (sc_kept s) rest ranges" by (elim exE conjE)
    show ?thesis
      using res(1) p res2 k(1) t(1,2) kept by (cases res2) (auto split: prod.splits)
  qed
qed

subsection \<open>The reference decision\<close>

type_synonym arule = "group \<times> bytes \<times> nat"

definition rules_of :: "bytes \<Rightarrow> rule_record list \<Rightarrow> arule list" where
  "rules_of arena rs = map (\<lambda>r. (rec_group r, key_at arena (rec_entry r), e_slot (rec_entry r))) rs"

fun is_suffix :: "group \<Rightarrow> bool" where
  "is_suffix AllowSuffix = True" | "is_suffix AllowExact = False" | "is_suffix BlockSuffix = True" | "is_suffix BlockExact = False"

fun is_allow :: "group \<Rightarrow> bool" where
  "is_allow AllowSuffix = True" | "is_allow AllowExact = True" | "is_allow BlockSuffix = False" | "is_allow BlockExact = False"

fun suffix_of :: "group \<Rightarrow> group" where
  "suffix_of AllowSuffix = AllowSuffix" | "suffix_of AllowExact = AllowSuffix"
| "suffix_of BlockSuffix = BlockSuffix" | "suffix_of BlockExact = BlockSuffix"

text \<open>Whether a rule matches an encoded name, and which matching block rule answers: local before
  subscription, exact before suffix, the longest suffix, the lowest slot.\<close>

fun hits :: "arule \<Rightarrow> bytes \<Rightarrow> bool" where
  "hits (g, k, s) q = (if is_suffix g then prefix k q else k = q)"

definition allows :: "arule list \<Rightarrow> bytes \<Rightarrow> bool" where
  "allows rs q = list_ex (\<lambda>r. is_allow (fst r) \<and> hits r q) rs"

fun block_rank :: "nat \<Rightarrow> arule \<Rightarrow> bool \<times> bool \<times> int \<times> nat" where
  "block_rank ls (g, k, s) = (ls \<le> s, g = BlockSuffix, - int (length k), s)"

definition blocking :: "arule list \<Rightarrow> bytes \<Rightarrow> arule list" where
  "blocking rs q = filter (\<lambda>r. \<not> is_allow (fst r) \<and> hits r q) rs"

definition decide :: "nat \<Rightarrow> arule list \<Rightarrow> bytes \<Rightarrow> arule option" where
  "decide ls rs q = (if allows rs q then None else min_by_key (block_rank ls) (blocking rs q))"

text \<open>What the kept rules owe to all rules.\<close>

definition covers_slot :: "nat \<Rightarrow> nat list \<Rightarrow> group \<Rightarrow> nat \<Rightarrow> nat \<Rightarrow> bool" where
  "covers_slot ls classes g sc s \<longleftrightarrow> is_allow g \<or> uniform classes \<or> (sc < ls \<and> \<not> s < ls)
     \<or> (class_of classes sc = class_of classes s \<and> (sc < ls) = (s < ls))"

definition covered_by :: "nat \<Rightarrow> nat list \<Rightarrow> arule set \<Rightarrow> group \<Rightarrow> bytes \<Rightarrow> nat \<Rightarrow> bool" where
  "covered_by ls classes kept g k s \<longleftrightarrow> (\<exists>kc sc. (suffix_of g, kc, sc) \<in> kept \<and> prefix kc k \<and> (is_suffix g \<longrightarrow> kc \<noteq> k)
     \<and> covers_slot ls classes g sc s
     \<and> (\<forall>k' s'. (suffix_of g, k', s') \<in> kept \<longrightarrow> prefix k' k \<longrightarrow> (is_suffix g \<longrightarrow> k' \<noteq> k) \<longrightarrow> length k' \<le> length kc))"

definition reduces :: "nat \<Rightarrow> nat list \<Rightarrow> arule list \<Rightarrow> arule list \<Rightarrow> bool" where
  "reduces ls classes all kept \<longleftrightarrow> set kept \<subseteq> set all
     \<and> (\<forall>g k s s'. (g, k, s) \<in> set kept \<longrightarrow> (g, k, s') \<in> set all \<longrightarrow> s \<le> s')
     \<and> (\<forall>g k s. (g, k, s) \<in> set all \<longrightarrow> (\<exists>s0 \<le> s. (g, k, s0) \<in> set all \<and>
          ((g, k, s0) \<in> set kept \<or> covered_by ls classes (set kept) g k s0)))"

lemma reduces_cases:
  assumes "reduces ls classes all kept" "(g, k, s) \<in> set all"
  obtains (kept) s0 where "s0 \<le> s" "(g, k, s0) \<in> set all" "(g, k, s0) \<in> set kept"
  | (covered) s0 kc sc where "s0 \<le> s" "(g, k, s0) \<in> set all" "(suffix_of g, kc, sc) \<in> set kept" "prefix kc k"
      "is_suffix g \<longrightarrow> kc \<noteq> k" "covers_slot ls classes g sc s0"
      "\<forall>k' s'. (suffix_of g, k', s') \<in> set kept \<longrightarrow> prefix k' k \<longrightarrow> (is_suffix g \<longrightarrow> k' \<noteq> k) \<longrightarrow> length k' \<le> length kc"
  using assms(1)[unfolded reduces_def, THEN conjunct2, THEN conjunct2, rule_format, OF assms(2)]
  unfolding covered_by_def by (elim exE conjE disjE)

lemma reduces_subset: "reduces ls classes all kept \<Longrightarrow> r \<in> set kept \<Longrightarrow> r \<in> set all"
  by (auto simp: reduces_def)

lemma reduces_hits:
  assumes "reduces ls classes all kept" "(g, k, s) \<in> set all" "hits (g, k, s) q"
  shows "\<exists>r \<in> set kept. is_allow (fst r) = is_allow g \<and> hits r q"
  using assms(1,2)
proof (cases rule: reduces_cases)
  case (kept s0)
  then show ?thesis using assms(3) by (intro bexI[of _ "(g, k, s0)"]) auto
next
  case (covered s0 kc sc)
  have "is_suffix (suffix_of g)" "is_allow (suffix_of g) = is_allow g" by (cases g; simp)+
  moreover have "prefix kc q" using covered(4) assms(3) by (auto split: if_splits intro: prefix_order.trans)
  ultimately show ?thesis using covered(3) by (intro bexI[of _ "(suffix_of g, kc, sc)"]) auto
qed

lemma reduces_allows:
  assumes "reduces ls classes all kept"
  shows "allows kept q = allows all q"
proof
  show "allows kept q \<Longrightarrow> allows all q" using reduces_subset[OF assms] by (auto simp: allows_def list_ex_iff)
  assume "allows all q"
  then obtain g k s where "(g, k, s) \<in> set all" "is_allow g" "hits (g, k, s) q" by (auto simp: allows_def list_ex_iff)
  with reduces_hits[OF assms this(1,3)] show "allows kept q" by (auto simp: allows_def list_ex_iff)
qed

lemma reduces_blocking:
  assumes "reduces ls classes all kept"
  shows "blocking kept q = [] \<longleftrightarrow> blocking all q = []"
proof
  show "blocking all q = [] \<Longrightarrow> blocking kept q = []" using reduces_subset[OF assms] by (auto simp: blocking_def filter_empty_conv)
  assume none: "blocking kept q = []"
  show "blocking all q = []"
  proof (rule ccontr)
    assume "blocking all q \<noteq> []"
    then obtain g k s where "(g, k, s) \<in> set all" "\<not> is_allow g" "hits (g, k, s) q" by (auto simp: blocking_def filter_empty_conv)
    with reduces_hits[OF assms this(1,3)] none show False by (auto simp: blocking_def filter_empty_conv)
  qed
qed

text \<open>The best block rule of all rules and the best kept one answer alike.\<close>

lemma blocking_iff: "(g, k, s) \<in> set (blocking rs q) \<longleftrightarrow> (g, k, s) \<in> set rs \<and> \<not> is_allow g \<and> hits (g, k, s) q"
  by (simp add: blocking_def)

lemma uniform_class:
  assumes "uniform classes" "s < length classes" "s' < length classes"
  shows "classes ! s = classes ! s'"
proof -
  have "classes ! Suc i = classes ! i" if "Suc i < length classes" for i
    using assms(1) that by (force simp: uniform_def list_all_length nth_tl)
  then have "classes ! i = classes ! 0" if "i < length classes" for i
    using that by (induction i) auto
  with assms show ?thesis by metis
qed

lemma reduces_class:
  assumes red: "reduces ls classes all kept"
    and slots: "classes = [] \<or> (\<forall>(g, k, s) \<in> set all. s < length classes)"
    and best: "min_by_key (block_rank ls) (blocking all q) = Some (g, k, s)"
    and best': "min_by_key (block_rank ls) (blocking kept q) = Some (g', k', s')"
  shows "class_of classes s = class_of classes s'"
proof -
  have r: "(g, k, s) \<in> set all" "\<not> is_allow g" "hits (g, k, s) q" and r': "(g', k', s') \<in> set kept" "\<not> is_allow g'" "hits (g', k', s') q"
    using min_by_key_in[OF best] min_by_key_in[OF best'] by (simp_all add: blocking_iff)
  have min: "block_rank ls (g, k, s) \<le> block_rank ls (g2, k2, s2)" if "(g2, k2, s2) \<in> set all" "\<not> is_allow g2" "hits (g2, k2, s2) q" for g2 k2 s2
    using min_by_key_le[OF best] that by (simp add: blocking_iff del: block_rank.simps)
  have min': "block_rank ls (g', k', s') \<le> block_rank ls (g2, k2, s2)" if "(g2, k2, s2) \<in> set kept" "\<not> is_allow g2" "hits (g2, k2, s2) q" for g2 k2 s2
    using min_by_key_le[OF best'] that by (simp add: blocking_iff del: block_rank.simps)
  have low: "s2 \<le> s3" if "(g2, k2, s2) \<in> set kept" "(g2, k2, s3) \<in> set all" for g2 k2 s2 s3
    using red that unfolding reduces_def by (elim conjE) blast
  have rr': "block_rank ls (g, k, s) \<le> block_rank ls (g', k', s')" using min[OF reduces_subset[OF red r'(1)] r'(2,3)] .
  have slot: "s0 = s" if "s0 \<le> s" "(g, k, s0) \<in> set all" for s0
    using min[OF that(2) r(2)] r(3) that(1) by (auto simp: less_eq_prod_def split: if_splits)
  have kept_case: ?thesis if "(g, k, s) \<in> set kept"
    using antisym[OF rr' min'[OF that r(2,3)]] by simp
  from red r(1) show ?thesis
  proof (cases rule: reduces_cases)
    case (kept s0)
    with slot kept_case show ?thesis by auto
  next
    case (covered s0 kc sc)
    have s0: "s0 = s" by (rule slot[OF covered(1,2)])
    have bs: "suffix_of g = BlockSuffix" "g = BlockSuffix \<or> g = BlockExact" using r(2) by (cases g; simp)+
    have "prefix kc q" using covered(4) r(3) by (auto split: if_splits intro: prefix_order.trans)
    then have c: "(BlockSuffix, kc, sc) \<in> set kept" "hits (BlockSuffix, kc, sc) q" using covered(3) bs by simp_all
    have rc: "block_rank ls (g', k', s') \<le> block_rank ls (BlockSuffix, kc, sc)" by (rule min'[OF c(1) _ c(2)]) simp
    from covered(6) s0 r(2) consider "uniform classes" | "sc < ls" "\<not> s < ls"
      | "class_of classes sc = class_of classes s" "(sc < ls) = (s < ls)" by (auto simp: covers_slot_def)
    then show ?thesis
    proof cases
      case 1
      have "(g', k', s') \<in> set all" by (rule reduces_subset[OF red r'(1)])
      with slots r(1) uniform_class[OF 1, of s s'] show ?thesis by (auto simp: class_of_def)
    next
      case 2
      then show ?thesis using rr' rc by (auto simp: less_eq_prod_def)
    next
      case 3
      have flags: "(ls \<le> s') = (ls \<le> s)" using rr' rc 3(2) by (auto simp: less_eq_prod_def)
      have not_same: ?thesis if "g' = g" "k' = k"
      proof -
        have "s' \<le> s" using low[of g k s' s] r(1) r'(1) that by simp
        moreover have "s \<le> s'" using rr' that flags by (auto simp: less_eq_prod_def)
        ultimately show ?thesis by simp
      qed
      show ?thesis
      proof (cases "g' = BlockSuffix")
        case False
        with r'(2) have "g' = BlockExact" by (cases g') auto
        moreover have "g = BlockExact" using rr' bs(2) calculation flags by (auto simp: less_eq_prod_def)
        ultimately show ?thesis using r(3) r'(3) by (intro not_same) auto
      next
        case True
        have len: "length kc \<le> length k'" using rc True flags 3(2) by (auto simp: less_eq_prod_def)
        have "prefix k' k"
        proof (cases "g = BlockSuffix")
          case True
          then have "length k' \<le> length k" using rr' \<open>g' = BlockSuffix\<close> flags by (auto simp: less_eq_prod_def)
          then show ?thesis using True r(3) r'(3) \<open>g' = BlockSuffix\<close> by (auto intro: prefix_length_prefix)
        next
          case False
          then show ?thesis using bs(2) r(3) r'(3) \<open>g' = BlockSuffix\<close> by auto
        qed
        show ?thesis
        proof (cases "is_suffix g \<and> k' = k")
          case True
          then show ?thesis using bs(2) \<open>g' = BlockSuffix\<close> by (intro not_same) auto
        next
          case False
          then have "length k' \<le> length kc" using covered(7) bs(1) r'(1) \<open>g' = BlockSuffix\<close> \<open>prefix k' k\<close> by auto
          then have "k' = kc" using len \<open>prefix k' k\<close> covered(4) by (auto simp: prefix_def append_eq_append_conv)
          then have "s' \<le> sc" "sc \<le> s'"
            using low c(1) r'(1) \<open>g' = BlockSuffix\<close> reduces_subset[OF red] by simp_all
          then show ?thesis using 3(1) by simp
        qed
      qed
    qed
  qed
qed

subsection \<open>Preparing keeps every decision\<close>

abbreviation builder_rules :: "builder \<Rightarrow> arule list" where
  "builder_rules b \<equiv> rules_of (items (bd_arena b)) (items (bd_records b))"

lemma group_facts: "even (group_index g) = is_suffix g" "(group_index g < 2) = is_allow g"
  "group_index (suffix_of g) = group_index g - group_index g mod 2"
  by (cases g; simp)+

lemma rules_of_iff: "(g, k, s) \<in> set (rules_of arena rs) \<longleftrightarrow>
    (\<exists>r \<in> set rs. rec_group r = g \<and> key_at arena (rec_entry r) = k \<and> e_slot (rec_entry r) = s)"
  by (auto simp: rules_of_def)

text \<open>A settled record is covered in the sense of the reference decision.\<close>

lemma settled_covered:
  assumes "settled b (group_index g) base kept r" "r \<notin> kept" "\<And>c. c \<in> base \<longleftrightarrow> c \<in> set all_kept \<and> rec_group c = suffix_of g"
  shows "covered_by (bd_local_slots b) (bd_classes b) (set (rules_of (items (bd_arena b)) all_kept)) g (rkey b r) (e_slot (rec_entry r))"
proof -
  obtain c where c: "c \<in> base" "is_suffix g \<longrightarrow> rkey b c \<noteq> rkey b r" "prefix (rkey b c) (rkey b r)"
    "\<forall>c' \<in> base. (is_suffix g \<longrightarrow> rkey b c' \<noteq> rkey b r) \<longrightarrow> prefix (rkey b c') (rkey b r) \<longrightarrow> length (rkey b c') \<le> length (rkey b c)"
    "covers (bd_local_slots b) (bd_classes b) (group_index g) (rec_entry c) (rec_entry r)"
    using assms(1,2) unfolding settled_def longest_in_def group_facts by auto
  have "(suffix_of g, rkey b c, e_slot (rec_entry c)) \<in> set (rules_of (items (bd_arena b)) all_kept)"
    using c(1) assms(3) unfolding rules_of_iff by auto
  moreover have "covers_slot (bd_local_slots b) (bd_classes b) g (e_slot (rec_entry c)) (e_slot (rec_entry r))"
    using c(5) by (simp add: covers_def covers_slot_def group_facts Let_def)
  moreover have "length k' \<le> length (rkey b c)" if k': "(suffix_of g, k', s') \<in> set (rules_of (items (bd_arena b)) all_kept)"
    "prefix k' (rkey b r)" "is_suffix g \<longrightarrow> k' \<noteq> rkey b r" for k' s'
  proof -
    obtain c' where "c' \<in> set all_kept" "rec_group c' = suffix_of g" "rkey b c' = k'" using k'(1) unfolding rules_of_iff by (elim bexE conjE)
    moreover have "c' \<in> base" using assms(3) calculation by simp
    ultimately show ?thesis using c(4)[rule_format, of c'] k'(2,3) by auto
  qed
  ultimately show ?thesis unfolding covered_by_def using c(2,3) by auto
qed

lemma ranges_cases:
  assumes "ranges_ok b [0, 1, 2, 3] [] rs ranges"
  obtains t0 t1 t2 t3 k0 k1 k2 k3 where "rs = t0 @ t1 @ t2 @ t3" "ranges = [k0, k1, k2, k3]"
    "list_all (\<lambda>r. rec_group r = AllowSuffix) t0" "list_all (\<lambda>r. rec_group r = AllowExact) t1"
    "list_all (\<lambda>r. rec_group r = BlockSuffix) t2" "list_all (\<lambda>r. rec_group r = BlockExact) t3"
    "kept_ok b 0 [] t0 k0" "kept_ok b 1 k0 t1 k1" "kept_ok b 2 k1 t2 k2" "kept_ok b 3 k2 t3 k3"
proof -
  have g: "(gi r = 0) = (rec_group r = AllowSuffix)" "(gi r = Suc 0) = (rec_group r = AllowExact)"
    "(gi r = 2) = (rec_group r = BlockSuffix)" "(gi r = 3) = (rec_group r = BlockExact)" for r
    by (cases "rec_group r"; simp)+
  from assms that show ?thesis by (auto simp: g)
qed

text \<open>One family of kept records per group.\<close>

lemma groups_reduce:
  assumes rs: "\<And>r g. r \<in> set rs \<and> rec_group r = g \<longleftrightarrow> r \<in> set (T g)"
    and kept: "\<And>r g. r \<in> set kept \<and> rec_group r = g \<longleftrightarrow> r \<in> set (P g)"
    and ok: "\<And>g. kept_ok b (group_index g) (before g) (T g) (P g)"
    and before: "\<And>g. \<not> is_suffix g \<Longrightarrow> before g = P (suffix_of g)"
  shows "reduces (bd_local_slots b) (bd_classes b) (rules_of (items (bd_arena b)) rs) (rules_of (items (bd_arena b)) kept)"
  unfolding reduces_def
proof (intro conjI allI impI)
  have sub: "set (P g) \<subseteq> set (T g)" for g using ok[of g] by (simp add: kept_ok_def)
  have subset: "r \<in> set rs" if "r \<in> set kept" for r
    using kept[of r "rec_group r"] rs[of r "rec_group r"] sub[of "rec_group r"] that by auto
  then show "set (rules_of (items (bd_arena b)) kept) \<subseteq> set (rules_of (items (bd_arena b)) rs)" by (auto simp: rules_of_def)
  show "s \<le> s'" if s: "(g, k, s) \<in> set (rules_of (items (bd_arena b)) kept)" "(g, k, s') \<in> set (rules_of (items (bd_arena b)) rs)" for g k s s'
  proof -
    obtain r where r: "r \<in> set kept" "rec_group r = g" "rkey b r = k" "e_slot (rec_entry r) = s" using s(1) unfolding rules_of_iff by (elim bexE conjE)
    obtain x where x: "x \<in> set rs" "rec_group x = g" "rkey b x = k" "e_slot (rec_entry x) = s'" using s(2) unfolding rules_of_iff by (elim bexE conjE)
    have "r \<in> set (P g)" "x \<in> set (T g)" using kept[of r g] rs[of x g] r x by simp_all
    with ok[of g] r x show ?thesis by (auto simp: kept_ok_def lowest_def)
  qed
  fix g k s assume "(g, k, s) \<in> set (rules_of (items (bd_arena b)) rs)"
  then obtain r where r: "r \<in> set rs" "rec_group r = g" "rkey b r = k" "e_slot (rec_entry r) = s" unfolding rules_of_iff by (elim bexE conjE)
  have "suffix_of g = g" if "is_suffix g" using that by (cases g) auto
  then have base: "set (P (suffix_of g)) = (if is_suffix g then set (P g) else set (before g))" using before by simp
  then have "all_settled b (group_index g) (set (P (suffix_of g))) (set (P g)) (T g)" using ok[of g] by (simp add: kept_ok_def group_facts)
  then obtain r0 where r0: "r0 \<in> set (T g)" "rkey b r0 = k" "e_slot (rec_entry r0) \<le> s"
    "settled b (group_index g) (set (P (suffix_of g))) (set (P g)) r0"
    using rs[of r g] r unfolding all_settled_def by auto
  have "r0 \<in> set rs" "rec_group r0 = g" using rs[of r0 g] r0(1) by simp_all
  then have "(g, k, e_slot (rec_entry r0)) \<in> set (rules_of (items (bd_arena b)) rs)" using r0(2) unfolding rules_of_iff by auto
  moreover have "(g, k, e_slot (rec_entry r0)) \<in> set (rules_of (items (bd_arena b)) kept)" if "r0 \<in> set (P g)"
    using that kept[of r0 g] r0(2) unfolding rules_of_iff by auto
  moreover have "covered_by (bd_local_slots b) (bd_classes b) (set (rules_of (items (bd_arena b)) kept)) g k (e_slot (rec_entry r0))" if "r0 \<notin> set (P g)"
    using settled_covered[OF r0(4) that, of kept] kept[of _ "suffix_of g"] r0(2) by simp
  ultimately show "\<exists>s0 \<le> s. (g, k, s0) \<in> set (rules_of (items (bd_arena b)) rs) \<and> ((g, k, s0) \<in> set (rules_of (items (bd_arena b)) kept)
      \<or> covered_by (bd_local_slots b) (bd_classes b) (set (rules_of (items (bd_arena b)) kept)) g k s0)"
    using r0(3) by (intro exI[of _ "e_slot (rec_entry r0)"]) auto
qed

subsection \<open>The builder\<close>

text \<open>Well-formed builders: encoded domains in the arena, usable slots, and every buffer charged.\<close>

definition record_ok :: "bytes \<Rightarrow> rule_record \<Rightarrow> bool" where
  "record_ok arena r = (key_ok (key_at arena (rec_entry r)) \<and> e_slot (rec_entry r) < 65535
     \<and> e_offset (rec_entry r) + e_len (rec_entry r) \<le> length arena)"

definition builder_ok :: "nat \<Rightarrow> builder \<Rightarrow> bool" where
  "builder_ok retained b \<longleftrightarrow> budget_ok (bd_budget b) \<and> bu_limit (bd_budget b) \<le> 512 * 1024 * 1024
     \<and> retained + cap (bd_arena b) + size_of_record * cap (bd_records b) \<le> bu_live (bd_budget b)
     \<and> length (items (bd_arena b)) \<le> cap (bd_arena b) \<and> length (items (bd_records b)) \<le> cap (bd_records b)
     \<and> length (items (bd_records b)) \<le> bd_max_rules b
     \<and> (\<forall>r \<in> set (items (bd_records b)). record_ok (items (bd_arena b)) r)"

lemma builder_new_ok:
  assumes "builder_new l = Inr b"
  shows "builder_ok (li_retained_bytes l) b \<and> builder_rules b = [] \<and> bd_failed b = None"
  using assms by (auto simp: builder_new_def builder_ok_def vec_new_def rules_of_def bu_reserve_def budget_ok_def checked_add_def
      split: if_splits sum.splits option.splits)

text \<open>Earlier entries do not see the arena grow.\<close>

lemma key_at_append: "e_offset e + e_len e \<le> length arena \<Longrightarrow> key_at (arena @ xs) e = key_at arena e"
  by (simp add: key_at_def)

lemma record_ok_append: "record_ok arena r \<Longrightarrow> record_ok (arena @ xs) r"
  by (simp add: record_ok_def key_at_append)

lemma rules_of_append: "\<forall>r \<in> set rs. record_ok arena r \<Longrightarrow> rules_of (arena @ xs) rs = rules_of arena rs"
  by (auto simp: rules_of_def record_ok_def key_at_append)

context alloc
begin

lemma add_encoded_ok:
  assumes ok: "builder_ok retained b" and key: "key_ok encoded" "slot < 65535"
    and add: "add_encoded A b encoded g slot = (res, b')"
  shows "builder_ok retained b' \<and> bd_failed b' = bd_failed b
    \<and> builder_rules b' = builder_rules b @ (if isl res then [] else [(g, encoded, slot)])"
proof (cases "bd_max_rules b \<le> length (items (bd_records b)) \<or> u32_max < length (items (bd_arena b)) + length encoded
    \<or> checked_add (length (items (bd_arena b))) (length encoded) = None")
  case True
  with add ok show ?thesis by (auto simp: add_encoded_def checked_add_def split: if_splits)
next
  case False
  let ?stop = "length (items (bd_arena b)) + length encoded"
  have charge: "budget_ok (bd_budget b)" "cap (bd_arena b) * 1 \<le> bu_live (bd_budget b)" using ok by (auto simp: builder_ok_def)
  obtain r1 bu1 where g1: "grow A 1 (bd_arena b) ?stop (bd_budget b) = (r1, bu1)" by fastforce
  show ?thesis
  proof (cases r1)
    case (Inl e)
    with add False g1 have "res = Inl e" "b' = b\<lparr>bd_budget := bu1\<rparr>"
      by (auto simp: add_encoded_def checked_add_def split: if_splits)
    moreover have "budget_ok bu1 \<and> bu_limit bu1 = bu_limit (bd_budget b) \<and> bu_live (bd_budget b) \<le> bu_live bu1"
      using grow_error_ok g1 Inl charge(1) by blast
    ultimately show ?thesis using ok by (auto simp: builder_ok_def)
  next
    case (Inr arena)
    from grow_ok[OF g1[unfolded Inr] charge] have a: "items arena = items (bd_arena b)" "?stop \<le> cap arena" "budget_ok bu1"
      "bu_limit bu1 = bu_limit (bd_budget b)" "bu_live bu1 + cap (bd_arena b) = bu_live (bd_budget b) + cap arena" by auto
    then have charge2: "cap (bd_records b) * size_of_record \<le> bu_live bu1" using ok by (auto simp: builder_ok_def mult.commute)
    obtain r2 bu2 where g2: "grow A size_of_record (bd_records b) (length (items (bd_records b)) + 1) bu1 = (r2, bu2)" by fastforce
    show ?thesis
    proof (cases r2)
      case e: (Inl e)
      with add False g1 Inr g2 have "res = Inl e" "b' = b\<lparr>bd_arena := arena, bd_budget := bu2\<rparr>"
        by (auto simp: add_encoded_def checked_add_def split: if_splits)
      moreover have "budget_ok bu2 \<and> bu_limit bu2 = bu_limit bu1 \<and> bu_live bu1 \<le> bu_live bu2"
        using grow_error_ok g2 e a(3) by blast
      ultimately show ?thesis using ok a by (auto simp: builder_ok_def)
    next
      case records: (Inr records)
      from grow_ok[OF g2[unfolded records] a(3) charge2] have r: "items records = items (bd_records b)"
        "length (items (bd_records b)) + 1 \<le> cap records" "budget_ok bu2" "bu_limit bu2 = bu_limit bu1"
        "bu_live bu2 + cap (bd_records b) * size_of_record = bu_live bu1 + cap records * size_of_record" by auto
      let ?e = "\<lparr>e_offset = as_u32 (length (items (bd_arena b))), e_len = as_u16 (length encoded), e_slot = slot\<rparr>"
      have e: "?e = \<lparr>e_offset = length (items (bd_arena b)), e_len = length encoded, e_slot = slot\<rparr>"
        using key_ok_length[OF key(1)] False by (simp add: as_u32_id as_u16_id u32_max_def)
      have b': "res = Inr ()" "b' = b\<lparr>bd_arena := arena\<lparr>items := items (bd_arena b) @ encoded\<rparr>,
          bd_records := records\<lparr>items := items (bd_records b) @ [\<lparr>rec_entry = ?e, rec_group = g\<rparr>]\<rparr>, bd_budget := bu2\<rparr>"
        using add False g1 Inr g2 records a(1) r(1) by (auto simp: add_encoded_def checked_add_def Let_def split: if_splits)
      have at: "key_at (items (bd_arena b) @ encoded) ?e = encoded" unfolding e by (simp add: key_at_def)
      have recs: "\<forall>x \<in> set (items (bd_records b)). record_ok (items (bd_arena b)) x" using ok by (simp add: builder_ok_def)
      have "record_ok (items (bd_arena b) @ encoded) \<lparr>rec_entry = ?e, rec_group = g\<rparr>"
        unfolding record_ok_def using key at e by simp
      with recs have "\<forall>x \<in> set (items (bd_records b')). record_ok (items (bd_arena b')) x"
        unfolding b'(2) by (auto intro: record_ok_append)
      moreover have "builder_rules b' = builder_rules b @ [(g, encoded, slot)]"
        unfolding b'(2) using rules_of_append[OF recs] at by (simp add: rules_of_def)
      ultimately show ?thesis
        using ok a r b' False by (auto simp: builder_ok_def mult.commute)
    qed
  qed
qed

lemma key_ok_rule: "key_rule domain = Some (Inr encoded) \<Longrightarrow> key_ok encoded"
proof -
  assume k: "key_rule domain = Some (Inr encoded)"
  let ?ls = "rev (split_at (chr_byte CHR ''.'') (strip_dot domain))"
  have enc: "encoded = enc_key ?ls" "length (strip_dot domain) \<le> 253" "list_all rule_label_ok ?ls"
    using k key_rule_enc[of domain] by (auto simp: list_all_rev split: if_splits)
  moreover have "length (enc_key ?ls) = Suc (length (strip_dot domain))"
    using split_at_length[of "chr_byte CHR ''.''" "strip_dot domain"] unfolding length_enc_key_rev by (simp add: length_enc_key)
  moreover have "list_all label_ok ?ls" using enc(3) by (auto simp: list_all_iff rule_label_ok_def label_ok_def)
  ultimately show ?thesis unfolding key_ok_def by (intro exI[of _ ?ls]) auto
qed

text \<open>Adding a rule: it is recorded, or an error poisons the builder and nothing is recorded.\<close>

lemma builder_add_ok:
  assumes "builder_ok retained b" "slot < 65536"
  obtains res b' where "builder_add A b domain g slot = Some (res, b')" "builder_ok retained b'"
    "\<forall>e. res = Inl e \<longrightarrow> bd_failed b' = Some e \<and> builder_rules b' = builder_rules b"
    "\<forall>u. res = Inr u \<longrightarrow> bd_failed b' = None \<and> (\<exists>encoded. key_rule domain = Some (Inr encoded)
       \<and> builder_rules b' = builder_rules b @ [(g, encoded, slot)])"
proof (cases "bd_failed b")
  case (Some e)
  with assms(1) show ?thesis by (intro that[of "Inl e" b]) (auto simp: builder_add_def)
next
  case None
  show ?thesis
  proof (cases "slot = 65535")
    case True
    with None assms(1) show ?thesis
      by (intro that[of "Inl (filter_error InvalidSource)" "b\<lparr>bd_failed := Some (filter_error InvalidSource)\<rparr>"])
        (auto simp: builder_add_def add_inner_def builder_ok_def)
  next
    case slot: False
    obtain k where k: "key_rule domain = Some k" using key_rule_enc[of domain] by auto
    show ?thesis
    proof (cases k)
      case (Inl e)
      with None slot k assms(1) show ?thesis
        by (intro that[of "Inl e" "b\<lparr>bd_failed := Some e\<rparr>"]) (auto simp: builder_add_def add_inner_def builder_ok_def)
    next
      case (Inr encoded)
      obtain res b1 where add: "add_encoded A b encoded g slot = (res, b1)" by fastforce
      have "key_ok encoded" using k Inr key_ok_rule by simp
      from add_encoded_ok[OF assms(1) this _ add] slot assms(2) have ok: "builder_ok retained b1" "bd_failed b1 = None"
        "builder_rules b1 = builder_rules b @ (if isl res then [] else [(g, encoded, slot)])" using None by auto
      show ?thesis
      proof (cases res)
        case e: (Inl e)
        with None slot k Inr add ok show ?thesis
          by (intro that[of "Inl e" "b1\<lparr>bd_failed := Some e\<rparr>"]) (auto simp: builder_add_def add_inner_def builder_ok_def)
      next
        case u: (Inr u)
        with None slot k Inr add ok show ?thesis
          by (intro that[of "Inr u" b1]) (auto simp: builder_add_def add_inner_def)
      qed
    qed
  qed
qed

end

subsection \<open>The canonical rules\<close>

definition canonical_ok :: "canonical \<Rightarrow> bool" where
  "canonical_ok c \<longleftrightarrow> (\<forall>r \<in> set (ca_records c). record_ok (ca_arena c) r) \<and> budget_ok (ca_budget c)
     \<and> bu_limit (ca_budget c) \<le> 512 * 1024 * 1024
     \<and> distinct (map (\<lambda>r. (rec_group r, key_at (ca_arena c) (rec_entry r))) (ca_records c))"

lemma scan_builder_ok:
  assumes "builder_ok retained b"
  defines "rs \<equiv> sort_key (rule_order_key (items (bd_arena b))) (items (bd_records b))"
  shows "\<exists>res. scan_groups check b [0, 1, 2, 3] [] rs 0 2 = Some res \<and> ((\<forall>n. check n = None) \<longrightarrow> (\<exists>x. res = Inr x))
    \<and> (\<forall>ranges m. res = Inr (ranges, m) \<longrightarrow> ranges_ok b [0, 1, 2, 3] [] rs ranges)"
proof -
  have "[0..<4] = [0, 1, 2, 3]" by (simp add: upt_rec)
  moreover have "\<forall>r \<in> set rs. key_ok (rkey b r) \<and> 0 \<le> gi r"
    using assms(1) by (auto simp: rs_def builder_ok_def record_ok_def)
  moreover have "sorted (map (rule_order_key (items (bd_arena b))) rs)" by (simp add: rs_def)
  ultimately show ?thesis using scan_groups_ok[of b rs 0 "[]" check 0 2] by simp
qed

lemma ranges_distinct:
  assumes "ranges_ok b [0, 1, 2, 3] [] rs ranges"
  shows "distinct (map (\<lambda>r. (rec_group r, rkey b r)) (concat ranges))" "set (concat ranges) \<subseteq> set rs"
proof -
  from assms obtain t0 t1 t2 t3 k0 k1 k2 k3 where r: "rs = t0 @ t1 @ t2 @ t3" "ranges = [k0, k1, k2, k3]"
    "list_all (\<lambda>r. rec_group r = AllowSuffix) t0" "list_all (\<lambda>r. rec_group r = AllowExact) t1"
    "list_all (\<lambda>r. rec_group r = BlockSuffix) t2" "list_all (\<lambda>r. rec_group r = BlockExact) t3"
    "kept_ok b 0 [] t0 k0" "kept_ok b 1 k0 t1 k1" "kept_ok b 2 k1 t2 k2" "kept_ok b 3 k2 t3 k3"
    by (rule ranges_cases)
  have sub: "set k0 \<subseteq> set t0" "set k1 \<subseteq> set t1" "set k2 \<subseteq> set t2" "set k3 \<subseteq> set t3"
    using r(7-10) by (simp_all add: kept_ok_def)
  then show "set (concat ranges) \<subseteq> set rs" using r(1,2) by auto
  have "distinct (map (\<lambda>r. (rec_group r, rkey b r)) k)" if "kept_ok b g bf t k" for g bf t k
    using that by (auto simp: kept_ok_def strict_sorted_iff distinct_map inj_on_def)
  with r(7-10) have "distinct (map (\<lambda>r. (rec_group r, rkey b r)) k0)" "distinct (map (\<lambda>r. (rec_group r, rkey b r)) k1)"
    "distinct (map (\<lambda>r. (rec_group r, rkey b r)) k2)" "distinct (map (\<lambda>r. (rec_group r, rkey b r)) k3)" by blast+
  moreover have "\<forall>r \<in> set k0. rec_group r = AllowSuffix" "\<forall>r \<in> set k1. rec_group r = AllowExact"
    "\<forall>r \<in> set k2. rec_group r = BlockSuffix" "\<forall>r \<in> set k3. rec_group r = BlockExact"
    using r(3-6) sub by (auto simp: list_all_iff)
  ultimately show "distinct (map (\<lambda>r. (rec_group r, rkey b r)) (concat ranges))"
    unfolding r(2) by auto
qed

text \<open>The kept rules reduce the builder's rules.\<close>

lemma ranges_reduce:
  assumes ranges: "ranges_ok b [0, 1, 2, 3] [] rs ranges"
  shows "reduces (bd_local_slots b) (bd_classes b) (rules_of (items (bd_arena b)) rs) (rules_of (items (bd_arena b)) (concat ranges))"
proof -
  from ranges obtain t0 t1 t2 t3 k0 k1 k2 k3 where r: "rs = t0 @ t1 @ t2 @ t3" "ranges = [k0, k1, k2, k3]"
    "list_all (\<lambda>r. rec_group r = AllowSuffix) t0" "list_all (\<lambda>r. rec_group r = AllowExact) t1"
    "list_all (\<lambda>r. rec_group r = BlockSuffix) t2" "list_all (\<lambda>r. rec_group r = BlockExact) t3"
    "kept_ok b 0 [] t0 k0" "kept_ok b 1 k0 t1 k1" "kept_ok b 2 k1 t2 k2" "kept_ok b 3 k2 t3 k3"
    by (rule ranges_cases)
  have sub: "set k0 \<subseteq> set t0" "set k1 \<subseteq> set t1" "set k2 \<subseteq> set t2" "set k3 \<subseteq> set t3"
    using r(7-10) by (simp_all add: kept_ok_def)
  define T where "T g = (case g of AllowSuffix \<Rightarrow> t0 | AllowExact \<Rightarrow> t1 | BlockSuffix \<Rightarrow> t2 | BlockExact \<Rightarrow> t3)" for g
  define P where "P g = (case g of AllowSuffix \<Rightarrow> k0 | AllowExact \<Rightarrow> k1 | BlockSuffix \<Rightarrow> k2 | BlockExact \<Rightarrow> k3)" for g
  define before where "before g = (case g of AllowSuffix \<Rightarrow> [] | AllowExact \<Rightarrow> k0 | BlockSuffix \<Rightarrow> k1 | BlockExact \<Rightarrow> k2)" for g
  show ?thesis
  proof (rule groups_reduce)
    fix r g
    show "r \<in> set rs \<and> rec_group r = g \<longleftrightarrow> r \<in> set (T g)" using r(1,3-6) by (cases g) (auto simp: T_def list_all_iff)
    show "r \<in> set (concat ranges) \<and> rec_group r = g \<longleftrightarrow> r \<in> set (P g)" using r(2-6) sub by (cases g) (auto simp: P_def list_all_iff)
    show "kept_ok b (group_index g) (before g) (T g) (P g)" using r(7-10) by (cases g) (auto simp: T_def P_def before_def)
    show "before g = P (suffix_of g)" if "\<not> is_suffix g" using that by (cases g) (auto simp: P_def before_def)
  qed
qed

lemma prepare_ok:
  assumes ok: "builder_ok retained b" and prep: "prepare_with_check check sha b = Some (Inr c)"
  shows "canonical_ok c \<and> ca_budget c = bd_budget b
    \<and> reduces (bd_local_slots b) (bd_classes b) (builder_rules b) (rules_of (ca_arena c) (ca_records c))"
proof -
  let ?rs = "sort_key (rule_order_key (items (bd_arena b))) (items (bd_records b))"
  obtain res where res: "scan_groups check b [0, 1, 2, 3] [] ?rs 0 2 = Some res"
    "\<forall>ranges m. res = Inr (ranges, m) \<longrightarrow> ranges_ok b [0, 1, 2, 3] [] ?rs ranges"
    using scan_builder_ok[OF ok, of check] by (elim exE conjE)
  obtain ranges m where ranges: "res = Inr (ranges, m)" "ca_arena c = items (bd_arena b)" "ca_records c = concat ranges" "ca_budget c = bd_budget b"
    using prep res(1) by (auto simp: prepare_with_check_def Let_def split: option.splits sum.splits prod.splits)
  with res(2) have ok': "ranges_ok b [0, 1, 2, 3] [] ?rs ranges" by simp
  have "set (rules_of (items (bd_arena b)) ?rs) = set (builder_rules b)" by (simp add: rules_of_def)
  with ranges_reduce[OF ok'] have "reduces (bd_local_slots b) (bd_classes b) (builder_rules b) (rules_of (items (bd_arena b)) (concat ranges))"
    by (simp add: reduces_def)
  moreover have "\<forall>r \<in> set (concat ranges). record_ok (items (bd_arena b)) r"
    using ranges_distinct(2)[OF ok'] ok by (auto simp: builder_ok_def)
  ultimately show ?thesis
    using ranges ranges_distinct(1)[OF ok'] ok by (simp add: canonical_ok_def builder_ok_def)
qed

lemma prepare_total:
  assumes "builder_ok retained b"
  shows "\<exists>res. prepare_with_check check sha b = Some res
    \<and> (bd_failed b = None \<longrightarrow> (\<forall>n. check n = None) \<longrightarrow> (\<exists>c. res = Inr c))"
proof -
  let ?rs = "sort_key (rule_order_key (items (bd_arena b))) (items (bd_records b))"
  obtain res where "scan_groups check b [0, 1, 2, 3] [] ?rs 0 2 = Some res" "(\<forall>n. check n = None) \<longrightarrow> (\<exists>x. res = Inr x)"
    using scan_builder_ok[OF assms, of check] by (elim exE conjE)
  then show ?thesis by (auto simp: prepare_with_check_def Let_def split: option.splits sum.splits prod.splits)
qed

text \<open>C31. Dropping rules changes no answer: the canonical rules of a well-formed builder allow the
  same names and block the same names as all rules that were added, and the block rule that
  answers has the same answer class. Preparing never panics, and without a cancellation it succeeds.\<close>

theorem prepare_decides:
  assumes "builder_ok retained b" "prepare_with_check check sha b = Some (Inr c)"
    and "bd_classes b = [] \<or> list_all (\<lambda>(g, k, s). s < length (bd_classes b)) (builder_rules b)"
  shows "allows (rules_of (ca_arena c) (ca_records c)) q = allows (builder_rules b) q
    \<and> (case (decide (bd_local_slots b) (builder_rules b) q, decide (bd_local_slots b) (rules_of (ca_arena c) (ca_records c)) q) of
         (None, None) \<Rightarrow> True
       | (Some (g, k, s), Some (g', k', s')) \<Rightarrow> class_of (bd_classes b) s = class_of (bd_classes b) s'
       | _ \<Rightarrow> False)"
proof -
  let ?all = "builder_rules b" and ?kept = "rules_of (ca_arena c) (ca_records c)"
  have red: "reduces (bd_local_slots b) (bd_classes b) ?all ?kept" using prepare_ok[OF assms(1,2)] by simp
  have slots: "bd_classes b = [] \<or> (\<forall>(g, k, s) \<in> set ?all. s < length (bd_classes b))" using assms(3) by (simp add: list_all_iff)
  have "min_by_key (block_rank (bd_local_slots b)) (blocking ?all q) = None \<longleftrightarrow> min_by_key (block_rank (bd_local_slots b)) (blocking ?kept q) = None"
    using reduces_blocking[OF red] by simp
  with reduces_allows[OF red] reduces_class[OF red slots] show ?thesis
    by (auto simp: decide_def split: option.splits)
qed

subsection \<open>An example\<close>

text \<open>A suffix, a name below it, and an exception.\<close>

definition demo_rules :: "(string \<times> group \<times> nat) list" where
  "demo_rules = [(''ads.test'', BlockSuffix, 0), (''x.ads.test'', BlockExact, 0), (''ok.ads.test'', AllowExact, 0)]"

definition demo_builder :: builder where
  "demo_builder = foldl (\<lambda>b (d, g, s). snd (the (builder_add exact_alloc b (map chr_byte d) g s)))
     (projr (builder_new filter_limits_default)) demo_rules"

lemma builder_add_snd: "builder_ok retained b \<Longrightarrow> s < 65536 \<Longrightarrow> builder_ok retained (snd (the (builder_add exact_alloc b d g s)))"
  by (rule exact_alloc.builder_add_ok[of retained b s d g]) auto

lemma demo_builder_ok: "builder_ok 0 demo_builder"
proof -
  have "builder_new filter_limits_default = Inr (projr (builder_new filter_limits_default))"
    by (simp add: builder_new_def filter_limits_default_def bu_reserve_def checked_add_def)
  then have "builder_ok 0 (projr (builder_new filter_limits_default))"
    using builder_new_ok[of filter_limits_default] by (simp add: filter_limits_default_def)
  then show ?thesis by (simp add: demo_builder_def demo_rules_def builder_add_snd)
qed

lemmas filter_key_eval = key_rule_def strip_dot_def rule_label_ok_def is_ascii_alphanumeric_def is_ascii_lowercase_def
  is_ascii_uppercase_def is_ascii_digit_def to_ascii_lowercase_def push_def chr_byte_def

lemma demo_keys:
  "key_rule (map chr_byte ''ads.test'') = Some (Inr (4 # map chr_byte ''test'' @ 3 # map chr_byte ''ads''))"
  "key_rule (map chr_byte ''x.ads.test'') = Some (Inr (4 # map chr_byte ''test'' @ 3 # map chr_byte ''ads'' @ 1 # map chr_byte ''x''))"
  "key_rule (map chr_byte ''ok.ads.test'') = Some (Inr (4 # map chr_byte ''test'' @ 3 # map chr_byte ''ads'' @ 2 # map chr_byte ''ok''))"
  by (simp_all add: filter_key_eval)

lemmas filter_add_eval = builder_new_def filter_limits_default_def bu_reserve_def checked_add_def checked_mul_def vec_new_def
  builder_add_def add_inner_def add_encoded_def grow_def grow_into_def exact_alloc_def bu_release_def usize_max_def u32_max_def
  as_u32_def as_u16_def size_of_record_def

lemma demo_builder_sel: "bd_failed demo_builder = None" "bd_classes demo_builder = []" "bd_local_slots demo_builder = 1"
  "builder_rules demo_builder = [(BlockSuffix, 4 # map chr_byte ''test'' @ 3 # map chr_byte ''ads'', 0),
     (BlockExact, 4 # map chr_byte ''test'' @ 3 # map chr_byte ''ads'' @ 1 # map chr_byte ''x'', 0),
     (AllowExact, 4 # map chr_byte ''test'' @ 3 # map chr_byte ''ads'' @ 2 # map chr_byte ''ok'', 0)]"
  by (simp_all add: demo_builder_def demo_rules_def demo_keys[simplified] filter_add_eval rules_of_def key_at_def)

theorem prepare_decides_witness:
  "\<exists>c. prepare_with_check (\<lambda>_. None) (\<lambda>_. []) demo_builder = Some (Inr c)
     \<and> allows (rules_of (ca_arena c) (ca_records c)) (4 # map chr_byte ''test'' @ 3 # map chr_byte ''ads'' @ 2 # map chr_byte ''ok'')
     \<and> decide 1 (rules_of (ca_arena c) (ca_records c)) (4 # map chr_byte ''test'' @ 3 # map chr_byte ''ads'' @ 1 # map chr_byte ''x'') \<noteq> None"
proof -
  obtain c where c: "prepare_with_check (\<lambda>_. None) (\<lambda>_. []) demo_builder = Some (Inr c)"
    using prepare_total[OF demo_builder_ok, of "\<lambda>_. None" "\<lambda>_. []"] demo_builder_sel(1) by auto
  note dec = prepare_decides[OF demo_builder_ok c, unfolded demo_builder_sel(2-4)]
  have "allows (builder_rules demo_builder) (4 # map chr_byte ''test'' @ 3 # map chr_byte ''ads'' @ 2 # map chr_byte ''ok'')"
    by (simp add: demo_builder_sel allows_def)
  moreover have "decide 1 (builder_rules demo_builder) (4 # map chr_byte ''test'' @ 3 # map chr_byte ''ads'' @ 1 # map chr_byte ''x'') \<noteq> None"
    by (simp add: demo_builder_sel decide_def allows_def blocking_def chr_byte_def)
  ultimately show ?thesis
    using c dec[of "4 # map chr_byte ''test'' @ 3 # map chr_byte ''ads'' @ 2 # map chr_byte ''ok''"]
      dec[of "4 # map chr_byte ''test'' @ 3 # map chr_byte ''ads'' @ 1 # map chr_byte ''x''"]
    unfolding demo_builder_sel(4) by (auto split: option.splits)
qed

end
