(* ===== verification/Rust_Text.thy ===== *)
theory Rust_Text
  imports Filter_Key Net
begin

text \<open>
  The functions of Rust's standard library on text that the filter sources use: validity of UTF-8,
  splitting at white space, and the parser of addresses (\<open>core::net::parser\<close>). A \<open>str\<close> is the
  list of its bytes.
\<close>

subsection \<open>UTF-8\<close>

definition byte_in :: "nat \<Rightarrow> nat \<Rightarrow> u8 \<Rightarrow> bool" where
  "byte_in lo hi b = (lo \<le> unat b \<and> unat b \<le> hi)"

text \<open>The bytes that may follow a first byte, as ranges; \<open>None\<close> when it starts no character.\<close>

definition utf8_tail :: "u8 \<Rightarrow> (nat \<times> nat) list option" where
  "utf8_tail b =
     (if byte_in 0 0x7f b then Some []
      else if byte_in 0xc2 0xdf b then Some [(0x80, 0xbf)]
      else if b = 0xe0 then Some [(0xa0, 0xbf), (0x80, 0xbf)]
      else if b = 0xed then Some [(0x80, 0x9f), (0x80, 0xbf)]
      else if byte_in 0xe1 0xef b then Some [(0x80, 0xbf), (0x80, 0xbf)]
      else if b = 0xf0 then Some [(0x90, 0xbf), (0x80, 0xbf), (0x80, 0xbf)]
      else if byte_in 0xf1 0xf3 b then Some [(0x80, 0xbf), (0x80, 0xbf), (0x80, 0xbf)]
      else if b = 0xf4 then Some [(0x80, 0x8f), (0x80, 0xbf), (0x80, 0xbf)]
      else None)"

function utf8_ok :: "bytes \<Rightarrow> bool" where
  "utf8_ok [] = True"
| "utf8_ok (b # bs) = (case utf8_tail b of
     None \<Rightarrow> False
   | Some rs \<Rightarrow> length rs \<le> length bs \<and> list_all2 (\<lambda>(lo, hi) c. byte_in lo hi c) rs (take (length rs) bs)
       \<and> utf8_ok (drop (length rs) bs))"
  by pat_completeness auto
termination by (relation "measure length") auto

lemma utf8_ascii: "list_all (\<lambda>b. unat b < 128) bs \<Longrightarrow> utf8_ok bs"
  by (induction bs) (auto simp: utf8_tail_def byte_in_def)

subsection \<open>White space\<close>

text \<open>\<open>u8::is_ascii_whitespace\<close>, \<open>trim_ascii\<close> and \<open>split_ascii_whitespace\<close>.\<close>

definition is_ascii_whitespace :: "u8 \<Rightarrow> bool" where
  "is_ascii_whitespace b = (b \<in> {0x20, 0x09, 0x0a, 0x0c, 0x0d})"

definition trim_ascii :: "bytes \<Rightarrow> bytes" where
  "trim_ascii bs = rev (dropWhile is_ascii_whitespace (rev (dropWhile is_ascii_whitespace bs)))"

fun words_by :: "(u8 \<Rightarrow> bool) \<Rightarrow> bytes \<Rightarrow> bytes \<Rightarrow> bytes list" where
  "words_by sep word [] = (if word = [] then [] else [word])"
| "words_by sep word (b # bs) =
     (if sep b then (if word = [] then [] else [word]) @ words_by sep [] bs else words_by sep (word @ [b]) bs)"

definition split_ascii_whitespace :: "bytes \<Rightarrow> bytes list" where
  "split_ascii_whitespace bs = words_by is_ascii_whitespace [] bs"

text \<open>\<open>char::is_whitespace\<close>: the length of the white space character at the start of a text, and the length of
  any character there.\<close>

definition whitespace_len :: "bytes \<Rightarrow> nat" where
  "whitespace_len bs =
     (if bs \<noteq> [] \<and> (byte_in 9 13 (hd bs) \<or> hd bs = 0x20) then 1
      else if take 2 bs \<in> {[0xc2, 0x85], [0xc2, 0xa0]} then 2
      else if take 3 bs \<in> {[0xe1, 0x9a, 0x80], [0xe2, 0x80, 0xa8], [0xe2, 0x80, 0xa9], [0xe2, 0x80, 0xaf], [0xe2, 0x81, 0x9f], [0xe3, 0x80, 0x80]}
        \<or> (take 2 bs = [0xe2, 0x80] \<and> 2 < length bs \<and> byte_in 0x80 0x8a (bs ! 2)) then 3
      else 0)"

definition char_len :: "u8 \<Rightarrow> nat" where
  "char_len b = (if unat b < 0x80 then 1 else if unat b < 0xe0 then 2 else if unat b < 0xf0 then 3 else 4)"

lemma char_len_pos: "0 < char_len b"
  by (simp add: char_len_def)

text \<open>\<open>str::split_whitespace\<close> and \<open>str::trim\<close>.\<close>

function split_words :: "bytes \<Rightarrow> bytes \<Rightarrow> bytes list" where
  "split_words word [] = (if word = [] then [] else [word])"
| "split_words word (b # bs) =
     (let n = whitespace_len (b # bs) in
      if 0 < n then (if word = [] then [] else [word]) @ split_words [] (drop n (b # bs))
      else split_words (word @ take (char_len b) (b # bs)) (drop (char_len b) (b # bs)))"
  by pat_completeness auto
termination
  by (relation "measure (\<lambda>(word, bs). length bs)") (auto simp: char_len_pos)

definition split_whitespace :: "bytes \<Rightarrow> bytes list" where
  "split_whitespace bs = split_words [] bs"

function trim_start :: "bytes \<Rightarrow> bytes" where
  "trim_start bs = (if 0 < whitespace_len bs then trim_start (drop (whitespace_len bs) bs) else bs)"
  by pat_completeness auto
termination
proof (relation "measure length")
  fix bs :: bytes assume w: "0 < whitespace_len bs"
  then have "bs \<noteq> []" by (auto simp: whitespace_len_def)
  with w show "(drop (whitespace_len bs) bs, bs) \<in> measure length" by simp
qed simp

declare trim_start.simps [simp del]

function trim_end :: "bytes \<Rightarrow> bytes" where
  "trim_end [] = []"
| "trim_end (b # bs) =
     (let rest = trim_end (drop (char_len b) (b # bs)) in
      if rest = [] \<and> 0 < whitespace_len (b # bs) then [] else take (char_len b) (b # bs) @ rest)"
  by pat_completeness auto
termination by (relation "measure length") (auto simp: char_len_pos)

definition str_trim :: "bytes \<Rightarrow> bytes" where
  "str_trim bs = trim_end (trim_start bs)"

subsection \<open>Addresses\<close>

text \<open>A reader takes a value from the front of the text, or fails and takes nothing.\<close>

type_synonym 'a reader = "bytes \<Rightarrow> ('a \<times> bytes) option"

definition digit_of :: "nat \<Rightarrow> u8 \<Rightarrow> nat option" where
  "digit_of radix b =
     (let d = (if is_ascii_digit b then Some (unat b - 48)
               else if byte_in 97 102 b then Some (unat b - 87) else if byte_in 65 70 b then Some (unat b - 55) else None)
      in case d of Some n \<Rightarrow> if n < radix then Some n else None | None \<Rightarrow> None)"

definition read_number :: "nat \<Rightarrow> nat \<Rightarrow> bool \<Rightarrow> nat \<Rightarrow> nat reader" where
  "read_number radix max_digits allow_zero_prefix bound bs =
     (let ds = takeWhile (\<lambda>b. digit_of radix b \<noteq> None) bs;
          value = foldl (\<lambda>n b. n * radix + the (digit_of radix b)) 0 ds in
      if ds = [] \<or> max_digits < length ds \<or> bound < value \<or> (\<not> allow_zero_prefix \<and> hd ds = 48 \<and> 1 < length ds) then None
      else Some (value, drop (length ds) bs))"

definition read_char :: "u8 \<Rightarrow> bytes \<Rightarrow> bytes option" where
  "read_char c bs = (case bs of b # rest \<Rightarrow> if b = c then Some rest else None | [] \<Rightarrow> None)"

definition read_separator :: "u8 \<Rightarrow> nat \<Rightarrow> 'a reader \<Rightarrow> 'a reader" where
  "read_separator sep i inner bs = (if i = 0 then inner bs else case read_char sep bs of None \<Rightarrow> None | Some rest \<Rightarrow> inner rest)"

fun read_octets :: "nat \<Rightarrow> nat \<Rightarrow> nat \<Rightarrow> nat reader" where
  "read_octets 0 i acc bs = Some (acc, bs)"
| "read_octets (Suc k) i acc bs =
     (case read_separator (chr_byte CHR ''.'') i (read_number 10 3 False 255) bs of
        None \<Rightarrow> None
      | Some (n, rest) \<Rightarrow> read_octets k (i + 1) (acc * 256 + n) rest)"

definition read_ipv4_addr :: "32 word reader" where
  "read_ipv4_addr bs = map_option (\<lambda>(n, rest). (of_nat n, rest)) (read_octets 4 0 0 bs)"

text \<open>\<open>read_groups\<close>: the 16-bit groups read, and whether an embedded IPv4 address ended them. An IPv4 address
  needs two groups.\<close>

fun read_groups :: "nat \<Rightarrow> nat \<Rightarrow> nat list \<Rightarrow> bytes \<Rightarrow> nat list \<times> bool \<times> bytes" where
  "read_groups 0 i gs bs = (gs, False, bs)"
| "read_groups (Suc left) i gs bs =
     (case (if 0 < left then read_separator (chr_byte CHR '':'') i read_ipv4_addr bs else None) of
        Some (v4, rest) \<Rightarrow> (gs @ [unat v4 div 65536, unat v4 mod 65536], True, rest)
      | None \<Rightarrow>
          (case read_separator (chr_byte CHR '':'') i (read_number 16 4 True 65535) bs of
             Some (n, rest) \<Rightarrow> read_groups left (i + 1) (gs @ [n]) rest
           | None \<Rightarrow> (gs, False, bs)))"

definition ipv6_of :: "nat list \<Rightarrow> 128 word" where
  "ipv6_of gs = of_nat (foldl (\<lambda>n g. n * 65536 + g) 0 gs)"

definition read_ipv6_addr :: "128 word reader" where
  "read_ipv6_addr bs = (case read_groups 8 0 [] bs of
     (head, head_ipv4, rest) \<Rightarrow>
       if length head = 8 then Some (ipv6_of head, rest)
       else if head_ipv4 then None
       else (case read_char (chr_byte CHR '':'') rest of
           None \<Rightarrow> None
         | Some rest \<Rightarrow>
             (case read_char (chr_byte CHR '':'') rest of
                None \<Rightarrow> None
              | Some rest \<Rightarrow>
                  (case read_groups (8 - (length head + 1)) 0 [] rest of
                     (tail, _, rest) \<Rightarrow> Some (ipv6_of (head @ replicate (8 - length head - length tail) 0 @ tail), rest)))))"

text \<open>\<open>str::parse::<IpAddr>\<close>: an address and nothing after it.\<close>

definition parse_ip_addr :: "bytes \<Rightarrow> ip_addr option" where
  "parse_ip_addr bs = (case (case read_ipv4_addr bs of
        Some (v4, rest) \<Rightarrow> Some (V4 v4, rest)
      | None \<Rightarrow> map_option (\<lambda>(v6, rest). (V6 v6, rest)) (read_ipv6_addr bs)) of
     Some (a, []) \<Rightarrow> Some a
   | _ \<Rightarrow> None)"

end
