(* ===== verification/Filter_Radix.thy ===== *)
theory Filter_Radix
  imports Filter_Canon Rust_Text
begin

text \<open>
  The compressed radix index, \<open>src/src/policy/radix.rs\<close>: its nodes are one flat table whose
  children are consecutive, its edges are slices of one arena. \<open>build_with_check\<close> fills
  both from the sorted canonical records with an explicit stack of frames; \<open>lookup\<close> and \<open>block_match\<close>
  walk it from the root. Loops have fuel: the build takes at most one step per byte of a key twice
  over, and a walk takes a byte of the name at every step; running out is \<open>None\<close>, like a panic.
  \<open>None\<close> as the next child of a frame is the source's \<open>usize::MAX\<close>.
\<close>

definition as_u8 :: "nat \<Rightarrow> nat" where
  "as_u8 n = n mod 2 ^ 8"

lemma as_u8_id: "n < 2 ^ 8 \<Longrightarrow> as_u8 n = n"
  by (simp add: as_u8_def)

definition NONE :: nat where
  "NONE = 65535"

definition MAX_BUILD_DEPTH :: nat where
  "MAX_BUILD_DEPTH = 255"

record frame =
  fr_parent :: nat
  fr_start :: nat
  fr_end :: nat
  fr_depth :: nat
  fr_next :: "nat option"

definition frame_new :: "nat \<Rightarrow> nat \<Rightarrow> nat \<Rightarrow> nat \<Rightarrow> frame" where
  "frame_new parent start stop depth = \<lparr>fr_parent = parent, fr_start = start, fr_end = stop, fr_depth = depth, fr_next = None\<rparr>"

record node =
  nd_edge_offset :: nat
  nd_first_child :: nat
  nd_child_count :: nat
  nd_edge_len :: nat
  nd_first_byte :: u8
  nd_sources :: "nat list"

definition node_empty :: node where
  "node_empty = \<lparr>nd_edge_offset = 0, nd_first_child = 0, nd_child_count = 0, nd_edge_len = 0, nd_first_byte = 0,
     nd_sources = [NONE, NONE, NONE, NONE]\<rparr>"

record index =
  ix_nodes :: "node list"
  ix_arena :: bytes
  ix_semantic_digest :: bytes
  ix_input_rules :: nat
  ix_index_rules :: nat
  ix_peak_bytes :: nat

record radix_match =
  m_group :: group
  m_slot :: nat
  m_len :: nat

subsection \<open>Building\<close>

record build =
  rb_nodes :: "node rvec"
  rb_arena :: "u8 rvec"
  rb_budget :: budget
  rb_calls :: nat
  rb_processed :: nat

definition slice :: "nat \<Rightarrow> nat \<Rightarrow> 'a list \<Rightarrow> 'a list" where
  "slice start stop xs = take (stop - start) (drop start xs)"

text \<open>The records that end at the depth of a frame settle the sources of its node.\<close>

fun settle_sources :: "nat \<Rightarrow> rule_record list \<Rightarrow> nat list \<Rightarrow> nat list \<times> rule_record list" where
  "settle_sources depth [] sources = (sources, [])"
| "settle_sources depth (r # rs) sources =
     (if e_len (rec_entry r) = depth
      then settle_sources depth rs (sources[group_index (rec_group r) := e_slot (rec_entry r)])
      else (sources, r # rs))"

text \<open>The run of records with one byte at the depth, checking every 4096 positions.\<close>

fun same_byte :: "check \<Rightarrow> bytes \<Rightarrow> nat \<Rightarrow> u8 \<Rightarrow> rule_record list \<Rightarrow> nat \<Rightarrow> nat \<Rightarrow> filter_error + rule_record list \<times> nat \<times> nat" where
  "same_byte check arena depth b [] position calls = Inr ([], position, calls)"
| "same_byte check arena depth b (r # rs) position calls =
     (if key_at arena (rec_entry r) ! depth = b
      then if 4096 dvd position + 1
           then case check calls of Some e \<Rightarrow> Inl e | None \<Rightarrow> same_byte check arena depth b rs (position + 1) (calls + 1)
           else same_byte check arena depth b rs (position + 1) calls
      else Inr (r # rs, position, calls))"

lemma same_byte_shorter: "same_byte check arena depth b rs position calls = Inr (rest, p, c) \<Longrightarrow> length rest \<le> length rs"
  by (induction rs arbitrary: position calls) (fastforce split: if_splits option.splits)+

function count_children :: "check \<Rightarrow> bytes \<Rightarrow> nat \<Rightarrow> rule_record list \<Rightarrow> nat \<Rightarrow> nat \<Rightarrow> nat \<Rightarrow> filter_error + nat \<times> nat" where
  "count_children check arena depth [] position n calls = Inr (n, calls)"
| "count_children check arena depth (r # rs) position n calls =
     (case same_byte check arena depth (key_at arena (rec_entry r) ! depth) rs (position + 1) calls of
        Inl e \<Rightarrow> Inl e
      | Inr (rest, position, calls) \<Rightarrow> count_children check arena depth rest position (n + 1) calls)"
  by pat_completeness auto
termination
  by (relation "measure (\<lambda>(check, arena, depth, rs, p, n, c). length rs)") (auto dest: same_byte_shorter simp: le_imp_less_Suc)

fun common_len :: "'a list \<Rightarrow> 'a list \<Rightarrow> nat" where
  "common_len (x # xs) (y # ys) = (if x = y then Suc (common_len xs ys) else 0)"
| "common_len _ _ = 0"

definition size_of_node :: nat where
  "size_of_node = 20"

definition size_of_frame :: nat where
  "size_of_frame = 40"

text \<open>The first visit of a frame: its node's sources and the room for its children. Every record
  left is indexed at the depth; one that is too short panics.\<close>

definition open_frame :: "allocator \<Rightarrow> check \<Rightarrow> bytes \<Rightarrow> rule_record list \<Rightarrow> frame \<Rightarrow> build \<Rightarrow> (filter_error + frame \<times> build) option" where
  "open_frame A check arena records f st =
     (let nodes = items (rb_nodes st); parent = fr_parent f in
      if length nodes \<le> parent then None
      else case settle_sources (fr_depth f) (slice (fr_start f) (fr_end f) records) (nd_sources (nodes ! parent)) of
        (sources, rest) \<Rightarrow>
          if list_ex (\<lambda>r. length (key_at arena (rec_entry r)) \<le> fr_depth f) rest then None
          else case count_children check arena (fr_depth f) rest (fr_end f - length rest) 0 (rb_calls st) of
            Inl e \<Rightarrow> Some (Inl e)
          | Inr (n, calls) \<Rightarrow>
              (let first_child = length nodes in
               case grow A size_of_node (rb_nodes st) (first_child + n) (rb_budget st) of
                 (Inl e, bu) \<Rightarrow> Some (Inl e)
               | (Inr v, bu) \<Rightarrow>
                   (let node = (nodes ! parent)\<lparr>nd_sources := sources, nd_first_child := as_u32 first_child, nd_child_count := as_u16 n\<rparr>;
                        nodes = (nodes @ replicate n node_empty)[parent := node] in
                    Some (Inr (f\<lparr>fr_start := fr_end f - length rest, fr_next := Some first_child\<rparr>,
                      st\<lparr>rb_nodes := v\<lparr>items := nodes\<rparr>, rb_budget := bu, rb_calls := calls\<rparr>)))))"

text \<open>One child: its edge is what the first and the last record of its run have in common.\<close>

definition open_child :: "allocator \<Rightarrow> check \<Rightarrow> bytes \<Rightarrow> rule_record list \<Rightarrow> frame \<Rightarrow> nat \<Rightarrow> build \<Rightarrow>
    (filter_error + frame \<times> frame \<times> build) option" where
  "open_child A check arena records f child st =
     (let start = fr_start f; depth = fr_depth f; first = key_at arena (rec_entry (records ! start)); b = first ! depth in
      case same_byte check arena depth b (slice (start + 1) (fr_end f) records) (start + 1) (rb_calls st) of
        Inl e \<Rightarrow> Some (Inl e)
      | Inr (rest, stop, calls) \<Rightarrow>
          (let final = key_at arena (rec_entry (records ! (stop - 1)));
               common = depth + 1 + common_len (drop (depth + 1) first) (drop (depth + 1) final);
               offset = length (items (rb_arena st)) in
           case grow A 1 (rb_arena st) (offset + common - depth) (rb_budget st) of
             (Inl e, bu) \<Rightarrow> Some (Inl e)
           | (Inr v, bu) \<Rightarrow>
               if length (items (rb_nodes st)) \<le> child then None
               else
                 (let node = node_empty\<lparr>nd_edge_offset := as_u32 offset, nd_edge_len := as_u8 (common - depth), nd_first_byte := b\<rparr> in
                  Some (Inr (f\<lparr>fr_start := stop, fr_next := Some (child + 1)\<rparr>, frame_new child start stop common,
                    st\<lparr>rb_arena := v\<lparr>items := items v @ take (common - depth) (drop depth first)\<rparr>, rb_budget := bu, rb_calls := calls,
                      rb_nodes := (rb_nodes st)\<lparr>items := (items (rb_nodes st))[child := node]\<rparr>\<rparr>)))))"

definition count_step :: "check \<Rightarrow> build \<Rightarrow> filter_error + build" where
  "count_step check st = (let st = st\<lparr>rb_processed := rb_processed st + 1\<rparr> in
     if 4096 dvd rb_processed st
     then case check (rb_calls st) of Some e \<Rightarrow> Inl e | None \<Rightarrow> Inr (st\<lparr>rb_calls := rb_calls st + 1\<rparr>)
     else Inr st)"

text \<open>One round of the loop on the top frame: the frames that take its place. \<open>resume\<close> is the round after
  the first visit.\<close>

definition resume :: "allocator \<Rightarrow> check \<Rightarrow> bytes \<Rightarrow> rule_record list \<Rightarrow> frame \<Rightarrow> nat \<Rightarrow> build \<Rightarrow>
    (filter_error + frame list \<times> build) option" where
  "resume A check arena records f below st =
     (if fr_start f = fr_end f then Some (Inr ([], st))
      else (case fr_next f of
          None \<Rightarrow> None
        | Some child \<Rightarrow>
            (case open_child A check arena records f child st of
               None \<Rightarrow> None
             | Some (Inl e) \<Rightarrow> Some (Inl e)
             | Some (Inr (f, below_frame, st)) \<Rightarrow>
                 if MAX_BUILD_DEPTH \<le> below + 1 then None else Some (Inr ([below_frame, f], st)))))"

definition build_step :: "allocator \<Rightarrow> check \<Rightarrow> bytes \<Rightarrow> rule_record list \<Rightarrow> frame \<Rightarrow> nat \<Rightarrow> build \<Rightarrow>
    (filter_error + frame list \<times> build) option" where
  "build_step A check arena records f below st =
     (case count_step check st of
        Inl e \<Rightarrow> Some (Inl e)
      | Inr st \<Rightarrow>
          (case (if fr_next f = None then open_frame A check arena records f st else Some (Inr (f, st))) of
             None \<Rightarrow> None
           | Some (Inl e) \<Rightarrow> Some (Inl e)
           | Some (Inr (f, st)) \<Rightarrow> resume A check arena records f below st))"

fun children :: "nat \<Rightarrow> allocator \<Rightarrow> check \<Rightarrow> bytes \<Rightarrow> rule_record list \<Rightarrow> frame list \<Rightarrow> build \<Rightarrow> (filter_error + build) option" where
  "children 0 A check arena records frames st = None"
| "children (Suc n) A check arena records [] st = Some (Inr st)"
| "children (Suc n) A check arena records (f # frames) st =
     (case build_step A check arena records f (length frames) st of
        None \<Rightarrow> None
      | Some (Inl e) \<Rightarrow> Some (Inl e)
      | Some (Inr (pushed, st)) \<Rightarrow> children n A check arena records (pushed @ frames) st)"

definition build_order_key :: "bytes \<Rightarrow> rule_record \<Rightarrow> bytes \<times> nat" where
  "build_order_key arena r = (key_at arena (rec_entry r), group_index (rec_group r))"

definition build_fuel :: "rule_record list \<Rightarrow> nat" where
  "build_fuel records = 2 * sum_list (map (\<lambda>r. e_len (rec_entry r)) records) + 2"

text \<open>\<open>Index::build_with_check\<close>. The scratch for the frames is charged while the loop runs.\<close>

definition build_index :: "allocator \<Rightarrow> check \<Rightarrow> canonical \<Rightarrow> (filter_error + index) option" where
  "build_index A check c = (case check 0 of
     Some e \<Rightarrow> Some (Inl e)
   | None \<Rightarrow>
       (let arena = ca_arena c; records = sort_key (build_order_key arena) (ca_records c) in
        case check 1 of
          Some e \<Rightarrow> Some (Inl e)
        | None \<Rightarrow>
            (case grow A size_of_node vec_new 1 (ca_budget c) of
               (Inl e, bu) \<Rightarrow> Some (Inl e)
             | (Inr nodes, bu) \<Rightarrow>
                 (case grow A size_of_frame (vec_new :: frame rvec) MAX_BUILD_DEPTH bu of
                    (Inl e, bu) \<Rightarrow> Some (Inl e)
                  | (Inr scratch, bu) \<Rightarrow>
                      (case children (build_fuel records) A check arena records [frame_new 0 0 (length records) 0]
                         \<lparr>rb_nodes = nodes\<lparr>items := [node_empty]\<rparr>, rb_arena = vec_new, rb_budget = bu, rb_calls = 2, rb_processed = 0\<rparr> of
                         None \<Rightarrow> None
                       | Some (Inl e) \<Rightarrow> Some (Inl e)
                       | Some (Inr st) \<Rightarrow>
                           (let bu = bu_release (rb_budget st) (cap scratch * size_of_frame) in
                            case check (rb_calls st) of
                              Some e \<Rightarrow> Some (Inl e)
                            | None \<Rightarrow> Some (Inr \<lparr>ix_nodes = items (rb_nodes st), ix_arena = items (rb_arena st),
                                ix_semantic_digest = ca_semantic_digest c, ix_input_rules = ca_input_rules c,
                                ix_index_rules = length records, ix_peak_bytes = bu_peak bu\<rparr>))))))) "

subsection \<open>Walking\<close>

definition found :: "node \<Rightarrow> nat \<Rightarrow> group \<Rightarrow> radix_match option" where
  "found node position g =
     (let s = nd_sources node ! group_index g in
      if s \<noteq> NONE then Some \<lparr>m_group = g, m_slot = s, m_len = as_u16 position\<rparr> else None)"

definition or_else :: "'a option \<Rightarrow> 'a option \<Rightarrow> 'a option" where
  "or_else a b = (case a of Some x \<Rightarrow> Some x | None \<Rightarrow> b)"

text \<open>The child of a node for the next byte of the query and the position after its edge:
  \<open>Some None\<close> when there is none, \<open>None\<close> on a slice out of range.\<close>

definition next_node :: "index \<Rightarrow> bytes \<Rightarrow> node \<Rightarrow> nat \<Rightarrow> (nat \<times> nat) option option" where
  "next_node ix query node position =
     (let first = nd_first_child node; stop = first + nd_child_count node in
      if length (ix_nodes ix) < stop then None
      else case binary_search nd_first_byte (slice first stop (ix_nodes ix)) (query ! position) of
        None \<Rightarrow> Some None
      | Some child \<Rightarrow>
          (let next = ix_nodes ix ! (first + child); from = nd_edge_offset next; to = from + nd_edge_len next in
           if length (ix_arena ix) < to then None
           else let edge = slice from to (ix_arena ix) in
             Some (if prefix edge (drop position query) then Some (first + child, position + length edge) else None)))"

fun lookup_loop :: "nat \<Rightarrow> index \<Rightarrow> bytes \<Rightarrow> nat \<Rightarrow> nat \<Rightarrow> radix_match option \<Rightarrow> radix_match option option" where
  "lookup_loop 0 ix query i position blocked = None"
| "lookup_loop (Suc n) ix query i position blocked =
     (if length (ix_nodes ix) \<le> i then None
      else let node = ix_nodes ix ! i in
        case found node position AllowSuffix of
          Some m \<Rightarrow> Some (Some m)
        | None \<Rightarrow>
            if position = length query
            then (case found node position AllowExact of
                Some m \<Rightarrow> Some (Some m)
              | None \<Rightarrow> Some (or_else blocked (or_else (found node position BlockSuffix) (found node position BlockExact))))
            else
              (let blocked = or_else blocked (found node position BlockSuffix) in
               case next_node ix query node position of
                 None \<Rightarrow> None
               | Some None \<Rightarrow> Some blocked
               | Some (Some (i, position)) \<Rightarrow> lookup_loop n ix query i position blocked))"

definition lookup :: "index \<Rightarrow> bytes list \<Rightarrow> radix_match option option" where
  "lookup ix name = (case key_query name of None \<Rightarrow> None | Some query \<Rightarrow> lookup_loop (length query + 1) ix query 0 0 None)"

definition match_rank :: "nat \<Rightarrow> radix_match \<Rightarrow> bool \<times> bool \<times> int \<times> nat" where
  "match_rank local_slots m = (local_slots \<le> m_slot m, m_group m = BlockSuffix, - int (m_len m), m_slot m)"

definition consider_match :: "nat \<Rightarrow> radix_match \<Rightarrow> radix_match option \<Rightarrow> radix_match option" where
  "consider_match local_slots m best = (case best of
     None \<Rightarrow> Some m
   | Some current \<Rightarrow> if match_rank local_slots m < match_rank local_slots current then Some m else Some current)"

definition consider_found :: "nat \<Rightarrow> radix_match option \<Rightarrow> radix_match option \<Rightarrow> radix_match option" where
  "consider_found local_slots m best = (case m of None \<Rightarrow> best | Some m \<Rightarrow> consider_match local_slots m best)"

fun block_loop :: "nat \<Rightarrow> nat \<Rightarrow> index \<Rightarrow> bytes \<Rightarrow> nat \<Rightarrow> nat \<Rightarrow> radix_match option \<Rightarrow> radix_match option option" where
  "block_loop ls 0 ix query i position best = None"
| "block_loop ls (Suc n) ix query i position best =
     (if length (ix_nodes ix) \<le> i then None
      else let node = ix_nodes ix ! i in
        if found node position AllowSuffix \<noteq> None then Some None
        else
          (let best = consider_found ls (found node position BlockSuffix) best in
           if position = length query
           then if found node position AllowExact \<noteq> None then Some None
                else Some (consider_found ls (found node position BlockExact) best)
           else case next_node ix query node position of
               None \<Rightarrow> None
             | Some None \<Rightarrow> Some best
             | Some (Some (i, position)) \<Rightarrow> block_loop ls n ix query i position best))"

definition block_match :: "index \<Rightarrow> bytes list \<Rightarrow> nat \<Rightarrow> radix_match option option" where
  "block_match ix name local_slots =
     (case key_query name of None \<Rightarrow> None | Some query \<Rightarrow> block_loop local_slots (length query + 1) ix query 0 0 None)"

text \<open>\<open>Index::rule\<close>: the text of the matched rule, from the labels of its key; more than 127 labels
  overrun the array, and labels that are no UTF-8 panic.\<close>

function split_labels :: "bytes \<Rightarrow> bytes list option" where
  "split_labels [] = Some []"
| "split_labels (n # rest) =
     (if length rest < unat n then None
      else map_option (\<lambda>ls. take (unat n) rest # ls) (split_labels (drop (unat n) rest)))"
  by pat_completeness auto
termination by (relation "measure length") auto

definition join_dots :: "bytes list \<Rightarrow> bytes" where
  "join_dots ls = foldl (\<lambda>text l. (if text \<noteq> [] then text @ [chr_byte CHR ''.''] else text) @ l) [] ls"

definition index_rule :: "bytes list \<Rightarrow> radix_match \<Rightarrow> bytes option" where
  "index_rule name m = (case key_query name of
     None \<Rightarrow> None
   | Some key \<Rightarrow>
       if length key < m_len m then None
       else case split_labels (take (m_len m) key) of
         None \<Rightarrow> None
       | Some ls \<Rightarrow> if 127 < length ls \<or> \<not> list_all utf8_ok ls then None else Some (join_dots (rev ls)))"

end
