(* ===== verification/Filter_Walk.thy ===== *)
theory Filter_Walk
  imports Filter_Radix
begin

text \<open>
  What a table of nodes means, and that a walk through it decides as the reference decision does.
  \<open>represents N A lo hi i d rs\<close>: node \<open>i\<close> stands for the rules \<open>rs\<close>, whose keys agree on their
  first \<open>d\<close> bytes; the nodes below it lie between \<open>lo\<close> and \<open>hi\<close>.
\<close>

definition source_at :: "arule list \<Rightarrow> group \<Rightarrow> nat" where
  "source_at here g = (case List.find (\<lambda>r. fst r = g) here of None \<Rightarrow> NONE | Some (_, _, s) \<Rightarrow> s)"

definition edge_ok :: "bytes \<Rightarrow> node \<Rightarrow> nat \<Rightarrow> arule list \<Rightarrow> bool" where
  "edge_ok A c d rs \<longleftrightarrow> rs \<noteq> [] \<and> 0 < nd_edge_len c \<and> nd_edge_offset c + nd_edge_len c \<le> length A
     \<and> (\<forall>(g, k, s) \<in> set rs. d + nd_edge_len c \<le> length k \<and> k ! d = nd_first_byte c
          \<and> take (nd_edge_len c) (drop d k) = slice (nd_edge_offset c) (nd_edge_offset c + nd_edge_len c) A)"

inductive represents :: "node list \<Rightarrow> bytes \<Rightarrow> nat \<Rightarrow> nat \<Rightarrow> nat \<Rightarrow> nat \<Rightarrow> arule list \<Rightarrow> bool" for N A where
  "i < length N \<Longrightarrow> rs = here @ concat gs \<Longrightarrow> \<forall>(g, k, s) \<in> set here. length k = d \<Longrightarrow>
   \<forall>g. nd_sources (N ! i) ! group_index g = source_at here g \<Longrightarrow>
   nd_first_child (N ! i) = fc \<Longrightarrow> nd_child_count (N ! i) = length gs \<Longrightarrow>
   lo \<le> fc \<Longrightarrow> fc + length gs \<le> hi \<Longrightarrow> hi \<le> length N \<Longrightarrow>
   sorted_wrt (<) (map nd_first_byte (slice fc (fc + length gs) N)) \<Longrightarrow>
   \<forall>j < length gs. edge_ok A (N ! (fc + j)) d (gs ! j)
      \<and> represents N A (fc + length gs) hi (fc + j) (d + nd_edge_len (N ! (fc + j))) (gs ! j) \<Longrightarrow>
   represents N A lo hi i d rs"

inductive_simps represents_simp: "represents N A lo hi i d rs"

text \<open>The footprint of a node: itself and what lies between the bounds.\<close>

lemma represents_frame:
  assumes "represents N A lo hi i d rs" "length N \<le> length N'" "N' ! i = N ! i"
    and "\<forall>j. lo \<le> j \<longrightarrow> j < hi \<longrightarrow> N' ! j = N ! j"
  shows "represents N' (A @ A') lo hi i d rs"
  using assms
proof (induction lo hi i d rs rule: represents.induct)
  case (1 i rs here gs d fc lo hi)
  have same: "N' ! (fc + j) = N ! (fc + j)" if "j < length gs" for j using 1 that by simp
  have slice: "slice fc (fc + length gs) N' = slice fc (fc + length gs) N"
    using 1(7-9,12) same by (intro nth_equalityI) (auto simp: slice_def)
  have edges: "edge_ok (A @ A') c d xs" if "edge_ok A c d xs" for c xs
    using that by (auto simp: edge_ok_def slice_def)
  show ?case
  proof (rule represents.intros[where here = here and gs = gs and fc = fc])
    show "\<forall>j < length gs. edge_ok (A @ A') (N' ! (fc + j)) d (gs ! j)
      \<and> represents N' (A @ A') (fc + length gs) hi (fc + j) (d + nd_edge_len (N' ! (fc + j))) (gs ! j)"
      using 1(11) 1(12-14) 1(7) same edges by auto
  qed (use 1 slice in auto)
qed

lemma represents_mono: "represents N A lo hi i d rs \<Longrightarrow> lo' \<le> lo \<Longrightarrow> hi \<le> hi' \<Longrightarrow> hi' \<le> length N \<Longrightarrow> represents N A lo' hi' i d rs"
proof (induction lo hi i d rs arbitrary: lo' rule: represents.induct)
  case (1 i rs here gs d fc lo hi)
  show ?case
    by (rule represents.intros[where here = here and gs = gs and fc = fc]) (use 1 in auto)
qed

subsection \<open>One step of a walk\<close>

declare hits.simps [simp del]

fun to_match :: "arule \<Rightarrow> radix_match" where
  "to_match (g, k, s) = \<lparr>m_group = g, m_slot = s, m_len = length k\<rparr>"

definition agree :: "nat \<Rightarrow> bytes \<Rightarrow> arule list \<Rightarrow> bool" where
  "agree d q rs \<longleftrightarrow> (\<forall>(g, k, s) \<in> set rs. take d k = take d q \<and> s \<noteq> NONE)"

lemma hits_prefix: "hits (g, k, s) q \<Longrightarrow> prefix k q"
  by (auto simp: hits.simps split: if_splits)

text \<open>A rule below a child is hit only along the child's edge.\<close>

lemma edge_hits:
  assumes "edge_ok A c d rs" "(g, k, s) \<in> set rs" "hits (g, k, s) q"
  shows "d < length q" "q ! d = nd_first_byte c" "prefix (slice (nd_edge_offset c) (nd_edge_offset c + nd_edge_len c) A) (drop d q)"
proof -
  have k: "d + nd_edge_len c \<le> length k" "k ! d = nd_first_byte c" "0 < nd_edge_len c"
    "take (nd_edge_len c) (drop d k) = slice (nd_edge_offset c) (nd_edge_offset c + nd_edge_len c) A"
    using assms(1,2) by (auto simp: edge_ok_def)
  obtain x where x: "q = k @ x" using hits_prefix[OF assms(3)] by (auto simp: prefix_def)
  then show "d < length q" "q ! d = nd_first_byte c" using k by (auto simp: nth_append)
  show "prefix (slice (nd_edge_offset c) (nd_edge_offset c + nd_edge_len c) A) (drop d q)"
    using k(1) x unfolding k(4)[symmetric] by (simp add: take_is_prefix prefixI)
qed

lemma edge_length: "edge_ok A c d rs \<Longrightarrow> length (slice (nd_edge_offset c) (nd_edge_offset c + nd_edge_len c) A) = nd_edge_len c"
  by (auto simp: edge_ok_def slice_def)

lemma edge_agree:
  assumes "edge_ok A c d rs" "agree d q rs" "prefix (slice (nd_edge_offset c) (nd_edge_offset c + nd_edge_len c) A) (drop d q)"
  shows "agree (d + nd_edge_len c) q rs"
  unfolding agree_def
proof (clarify, intro conjI)
  fix g k s assume k: "(g, k, s) \<in> set rs"
  show "s \<noteq> NONE" using assms(2) k by (auto simp: agree_def)
  have "take (nd_edge_len c) (drop d k) = slice (nd_edge_offset c) (nd_edge_offset c + nd_edge_len c) A" using assms(1) k by (auto simp: edge_ok_def)
  also have "\<dots> = take (nd_edge_len c) (drop d q)" using assms(3) edge_length[OF assms(1)] by (auto simp: prefix_def)
  finally show "take (d + nd_edge_len c) k = take (d + nd_edge_len c) q" using assms(2) k by (auto simp: agree_def take_add)
qed

text \<open>Where a walk goes from a node, and which rules below it can still be hit.\<close>

lemma next_node_cases:
  assumes gs: "\<forall>j < length gs. edge_ok (ix_arena ix) (ix_nodes ix ! (fc + j)) d (gs ! j)"
    and node: "nd_first_child node = fc" "nd_child_count node = length gs" "fc + length gs \<le> length (ix_nodes ix)"
    and srt: "sorted_wrt (<) (map nd_first_byte (slice fc (fc + length gs) (ix_nodes ix)))"
    and d: "d < length q" and agree: "agree d q (concat gs)"
  obtains (stop) "next_node ix q node d = Some None" "\<forall>r \<in> set (concat gs). \<not> hits r q"
  | (go) j where "j < length gs" "next_node ix q node d = Some (Some (fc + j, d + nd_edge_len (ix_nodes ix ! (fc + j))))"
      "\<forall>r \<in> set (concat gs). hits r q \<longrightarrow> r \<in> set (gs ! j)" "agree (d + nd_edge_len (ix_nodes ix ! (fc + j))) q (gs ! j)"
      "d + nd_edge_len (ix_nodes ix ! (fc + j)) \<le> length q"
proof -
  let ?c = "\<lambda>j. ix_nodes ix ! (fc + j)"
  have kids: "slice fc (fc + length gs) (ix_nodes ix) ! j = ?c j" if "j < length gs" for j using node(3) that by (simp add: slice_def)
  have len: "length (slice fc (fc + length gs) (ix_nodes ix)) = length gs" using node(3) by (simp add: slice_def)
  have in_gs: "\<exists>j < length gs. r \<in> set (gs ! j)" if "r \<in> set (concat gs)" for r using that by (metis UN_E in_set_conv_nth set_concat)
  show ?thesis
  proof (cases "binary_search nd_first_byte (slice fc (fc + length gs) (ix_nodes ix)) (q ! d)")
    case None
    then have no: "q ! d \<noteq> nd_first_byte (?c j)" if "j < length gs" for j
      using binary_search_None[OF srt, of "q ! d"] kids[OF that] len that by (metis image_eqI nth_mem)
    have "\<not> hits r q" if r: "r \<in> set (concat gs)" for r
    proof
      assume "hits r q"
      moreover obtain j where "j < length gs" "r \<in> set (gs ! j)" using in_gs[OF r] by blast
      ultimately show False using edge_hits(2)[of "ix_arena ix" "?c j" d "gs ! j"] gs no by (cases r) blast
    qed
    moreover have "next_node ix q node d = Some None" using None node by (simp add: next_node_def Let_def)
    ultimately show ?thesis by (intro stop) auto
  next
    case (Some j)
    then have j: "j < length gs" "nd_first_byte (?c j) = q ! d"
      using binary_search_iff[OF srt, of "q ! d" j] kids len by auto
    have ok: "edge_ok (ix_arena ix) (?c j) d (gs ! j)" using gs j(1) by simp
    have only: "r \<in> set (gs ! j)" if r: "r \<in> set (concat gs)" "hits r q" for r
    proof -
      obtain j' where j': "j' < length gs" "r \<in> set (gs ! j')" using in_gs[OF r(1)] by blast
      then have "nd_first_byte (?c j') = q ! d" using edge_hits(2)[of "ix_arena ix" "?c j'" d "gs ! j'"] gs r(2) by (cases r) auto
      then have "j' = j" using binary_search_iff[OF srt, of "q ! d" j'] Some j'(1) kids len by auto
      with j'(2) show ?thesis by simp
    qed
    let ?edge = "slice (nd_edge_offset (?c j)) (nd_edge_offset (?c j) + nd_edge_len (?c j)) (ix_arena ix)"
    have bound: "nd_edge_offset (?c j) + nd_edge_len (?c j) \<le> length (ix_arena ix)" using ok by (simp add: edge_ok_def)
    have eq: "next_node ix q node d = Some (if prefix ?edge (drop d q) then Some (fc + j, d + nd_edge_len (?c j)) else None)"
      using Some node bound edge_length[OF ok] by (simp add: next_node_def Let_def not_less)
    show ?thesis
    proof (cases "prefix ?edge (drop d q)")
      case True
      have "agree d q (gs ! j)" using agree j(1) by (auto simp: agree_def)
      from edge_agree[OF ok this True] have "agree (d + nd_edge_len (?c j)) q (gs ! j)" .
      moreover have "d + nd_edge_len (?c j) \<le> length q" using prefix_length_le[OF True] edge_length[OF ok] d by simp
      ultimately show ?thesis using True eq only j(1) by (intro go[of j]) auto
    next
      case False
      have "\<not> hits r q" if r: "r \<in> set (concat gs)" for r
      proof
        assume hit: "hits r q"
        obtain g k s where "r = (g, k, s)" by (cases r)
        with only[OF r hit] hit edge_hits(3)[OF ok, of g k s q] False show False by simp
      qed
      with False eq show ?thesis by (intro stop) auto
    qed
  qed
qed

text \<open>The sources of a node are the rules that end there.\<close>

lemma source_at_cases:
  assumes "\<forall>(g, k, s) \<in> set here. length k = d" "agree d q here" "d \<le> length q"
    and "nd_sources node ! group_index g = source_at here g" "d < 65536"
  shows "case found node d g of
      None \<Rightarrow> \<forall>k s. (g, k, s) \<notin> set here
    | Some m \<Rightarrow> (g, take d q, m_slot m) \<in> set here \<and> m = to_match (g, take d q, m_slot m)"
proof (cases "List.find (\<lambda>r. fst r = g) here")
  case None
  then have "\<forall>k s. (g, k, s) \<notin> set here" by (auto simp: find_None_iff)
  then show ?thesis using None assms(4) by (simp add: source_at_def found_def Let_def)
next
  case (Some r)
  then have "r \<in> set here" "fst r = g" by (auto simp: find_Some_iff)
  moreover obtain g' k s where "r = (g', k, s)" by (cases r)
  ultimately have r: "r = (g, k, s)" "(g, k, s) \<in> set here" by auto
  then have "length k = d" "take d k = take d q" "s \<noteq> NONE" using assms(1,2) by (auto simp: agree_def)
  then have "k = take d q" by simp
  then show ?thesis using assms(3-5) Some r \<open>s \<noteq> NONE\<close> by (auto simp: source_at_def found_def Let_def as_u16_id)
qed

lemma here_hits:
  assumes "\<forall>(g, k, s) \<in> set here. length k = d" "agree d q here" "d \<le> length q" "(g, k, s) \<in> set here"
  shows "k = take d q" "hits (g, k, s) q \<longleftrightarrow> is_suffix g \<or> d = length q"
proof -
  have "length k = d" "take d k = take d q" using assms(1,2,4) by (auto simp: agree_def)
  then show "k = take d q" by simp
  then show "hits (g, k, s) q \<longleftrightarrow> is_suffix g \<or> d = length q" using assms(3) by (auto simp: hits.simps take_is_prefix)
qed

lemma below_long:
  assumes "\<forall>j < length gs. edge_ok A (N ! (fc + j)) d (gs ! j)" "(g, k, s) \<in> set (concat gs)"
  shows "d < length k"
proof -
  obtain j where "j < length gs" "(g, k, s) \<in> set (gs ! j)" using assms(2) by (metis UN_E in_set_conv_nth set_concat)
  with assms(1) show ?thesis by (fastforce simp: edge_ok_def)
qed

subsection \<open>Looking a name up\<close>

text \<open>The rules a name hits decide it; both walks are specified by that set.\<close>

definition hit_set :: "arule list \<Rightarrow> bytes \<Rightarrow> arule set" where
  "hit_set rs q = {r \<in> set rs. hits r q}"

definition uniq :: "arule list \<Rightarrow> bool" where
  "uniq rs \<longleftrightarrow> (\<forall>g k s s'. (g, k, s) \<in> set rs \<longrightarrow> (g, k, s') \<in> set rs \<longrightarrow> s = s')"

definition lookup_spec :: "arule set \<Rightarrow> radix_match option \<Rightarrow> radix_match option \<Rightarrow> bool" where
  "lookup_spec H blocked res \<longleftrightarrow>
     (if \<exists>r \<in> H. is_allow (fst r) then \<exists>r \<in> H. is_allow (fst r) \<and> res = Some (to_match r)
      else case blocked of
        Some b \<Rightarrow> res = Some b
      | None \<Rightarrow> (case res of None \<Rightarrow> H = {} | Some m \<Rightarrow> m \<in> to_match ` H))"

definition best_of :: "nat \<Rightarrow> radix_match option \<Rightarrow> arule set \<Rightarrow> radix_match option \<Rightarrow> bool" where
  "best_of ls best H res \<longleftrightarrow> (case res of
     None \<Rightarrow> best = None \<and> H = {}
   | Some m \<Rightarrow> (best = Some m \<or> m \<in> to_match ` H) \<and> (\<forall>b. best = Some b \<longrightarrow> match_rank ls m \<le> match_rank ls b)
       \<and> (\<forall>r \<in> H. match_rank ls m \<le> match_rank ls (to_match r)))"

definition block_spec :: "nat \<Rightarrow> arule set \<Rightarrow> radix_match option \<Rightarrow> radix_match option \<Rightarrow> bool" where
  "block_spec ls H best res \<longleftrightarrow> (if \<exists>r \<in> H. is_allow (fst r) then res = None else best_of ls best H res)"

lemma best_of_none [simp]: "best_of ls best {} best"
  by (auto simp: best_of_def split: option.splits)

lemma best_of_consider:
  assumes "best_of ls (consider_match ls (to_match r) best) H res"
  shows "best_of ls best (insert r H) res"
  using assms by (auto simp: best_of_def consider_match_def split: option.splits if_splits)

text \<open>The rules that end at a node and are hit there are what the node's sources say.\<close>

lemma here_hit_set:
  assumes "\<forall>(g, k, s) \<in> set here. length k = d" "agree d q here" "d \<le> length q" "uniq here"
    and "\<forall>g. nd_sources node ! group_index g = source_at here g" "d < 65536"
  shows "hit_set here q = {r. \<exists>g m. found node d g = Some m \<and> (is_suffix g \<or> d = length q) \<and> r = (g, take d q, m_slot m) \<and> to_match r = m}"
    (is "_ = ?R")
proof -
  note cases = source_at_cases[OF assms(1-3) assms(5)[rule_format] assms(6)]
  have "r \<in> hit_set here q \<longleftrightarrow> r \<in> ?R" for r
  proof -
    obtain g k s where r: "r = (g, k, s)" by (cases r)
    show ?thesis
    proof (cases "found node d g")
      case None
      then have "r \<notin> set here" using cases[of g] r by simp
      then show ?thesis using None r by (auto simp: hit_set_def)
    next
      case (Some m)
      then have m: "(g, take d q, m_slot m) \<in> set here" "m = to_match (g, take d q, m_slot m)" using cases[of g] by simp_all
      have "k = take d q \<and> s = m_slot m" if "(g, k, s) \<in> set here"
        using here_hits(1)[OF assms(1-3) that] m(1) that assms(4) unfolding uniq_def by blast
      then show ?thesis using here_hits(2)[OF assms(1-3) m(1)] m r Some by (auto simp: hit_set_def)
    qed
  qed
  then show ?thesis by blast
qed

lemma below_hit_set:
  assumes "\<forall>j < length gs. edge_ok A (N ! (fc + j)) d (gs ! j)" "d = length q"
  shows "hit_set (concat gs) q = {}"
proof -
  have "\<not> hits (g, k, s) q" if "(g, k, s) \<in> set (concat gs)" for g k s
    using below_long[OF assms(1) that] assms(2) hits_prefix[of g k s q] prefix_length_le[of k q] by auto
  then show ?thesis by (auto simp: hit_set_def)
qed

lemma hit_set_append: "hit_set (xs @ ys) q = hit_set xs q \<union> hit_set ys q"
  by (auto simp: hit_set_def)

definition node_hits :: "node \<Rightarrow> nat \<Rightarrow> bytes \<Rightarrow> arule set" where
  "node_hits node d q = {r. \<exists>g m. found node d g = Some m \<and> (is_suffix g \<or> d = length q) \<and> r = (g, take d q, m_slot m) \<and> to_match r = m}"

text \<open>What a walk adds at one node.\<close>

lemma found_match: "found node d g = Some m \<Longrightarrow> m_group m = g"
  by (auto simp: found_def Let_def split: if_splits)

lemma node_hits_some:
  assumes "found node d g = Some m" "is_suffix g \<or> d = length q" "d \<le> length q" "d < 65536"
  shows "(g, take d q, m_slot m) \<in> node_hits node d q" "to_match (g, take d q, m_slot m) = m"
proof -
  show "to_match (g, take d q, m_slot m) = m"
    using assms(1,3,4) by (auto simp: found_def Let_def as_u16_id split: if_splits)
  then show "(g, take d q, m_slot m) \<in> node_hits node d q" using assms(1,2) by (auto simp: node_hits_def)
qed

lemma node_hits_group: "r \<in> node_hits node d q \<Longrightarrow> found node d (fst r) = Some (to_match r) \<and> (is_suffix (fst r) \<or> d = length q)
    \<and> r = (fst r, take d q, m_slot (to_match r))"
  unfolding node_hits_def mem_Collect_eq by (elim exE conjE) (metis fst_conv)

lemma lookup_allow:
  assumes "r \<in> H" "is_allow (fst r)" "res = Some (to_match r)"
  shows "lookup_spec H blocked res"
  using assms by (auto simp: lookup_spec_def)

lemma lookup_end:
  assumes none: "found node d AllowSuffix = None" "found node d AllowExact = None" and d: "d = length q" "d < 65536"
  shows "lookup_spec (node_hits node d q) blocked (or_else blocked (or_else (found node d BlockSuffix) (found node d BlockExact)))"
proof -
  have no: "\<not> is_allow (fst r)" if "r \<in> node_hits node d q" for r
    using node_hits_group[OF that] none by (cases "fst r") auto
  have empty: "node_hits node d q = {}" if "found node d BlockSuffix = None" "found node d BlockExact = None"
  proof -
    have "r \<notin> node_hits node d q" for r
    proof
      assume "r \<in> node_hits node d q"
      from node_hits_group[OF this] none that show False by (cases "fst r") auto
    qed
    then show ?thesis by blast
  qed
  have some: "m \<in> to_match ` node_hits node d q" if "found node d g = Some m" for g m
    using node_hits_some[OF that, of q] d by (metis image_eqI order_refl)
  show ?thesis
    using no empty some by (auto simp: lookup_spec_def or_else_def split: option.splits)
qed

lemma lookup_below:
  assumes none: "found node d AllowSuffix = None" and d: "d < length q" "d < 65536"
    and spec: "lookup_spec H (or_else blocked (found node d BlockSuffix)) res"
  shows "lookup_spec (node_hits node d q \<union> H) blocked res"
proof -
  have only: "fst r = BlockSuffix" if "r \<in> node_hits node d q" for r
    using node_hits_group[OF that] none d(1) by (cases "fst r") auto
  have no: "(\<exists>r \<in> node_hits node d q \<union> H. is_allow (fst r)) = (\<exists>r \<in> H. is_allow (fst r))"
    using only by (metis Un_iff is_allow.simps(3))
  show ?thesis
  proof (cases "\<exists>r \<in> H. is_allow (fst r)")
    case True
    then show ?thesis using spec unfolding lookup_spec_def no by auto
  next
    case False
    have empty: "node_hits node d q = {}" if "found node d BlockSuffix = None"
      using only node_hits_group that by fastforce
    have some: "m \<in> to_match ` node_hits node d q" if "found node d BlockSuffix = Some m" for m
      using node_hits_some[OF that, of q] d by (metis image_eqI is_suffix.simps(3) less_imp_le)
    show ?thesis
      using spec False no empty some by (auto simp: lookup_spec_def or_else_def split: option.splits)
  qed
qed

definition hit_at :: "node \<Rightarrow> nat \<Rightarrow> bytes \<Rightarrow> group \<Rightarrow> arule set" where
  "hit_at node d q g = (case found node d g of None \<Rightarrow> {} | Some m \<Rightarrow> {(g, take d q, m_slot m)})"

lemma best_of_found:
  assumes "best_of ls (consider_found ls (found node d g) best) H res" "d \<le> length q" "d < 65536"
  shows "best_of ls best (hit_at node d q g \<union> H) res"
proof (cases "found node d g")
  case None
  with assms(1) show ?thesis by (simp add: hit_at_def consider_found_def)
next
  case (Some m)
  have "to_match (g, take d q, m_slot m) = m"
    using Some assms(2,3) by (auto simp: found_def Let_def as_u16_id split: if_splits)
  with best_of_consider[of ls "(g, take d q, m_slot m)" best H res] assms(1) Some show ?thesis
    by (simp add: hit_at_def consider_found_def)
qed

lemma node_hits_at: "node_hits node d q = (\<Union>g \<in> {g. is_suffix g \<or> d = length q}. hit_at node d q g)" if "d \<le> length q" "d < 65536"
proof (rule set_eqI, rule iffI)
  fix r assume "r \<in> node_hits node d q"
  from node_hits_group[OF this] show "r \<in> (\<Union>g \<in> {g. is_suffix g \<or> d = length q}. hit_at node d q g)"
    by (intro UN_I[of "fst r"]) (simp_all add: hit_at_def)
next
  fix r assume "r \<in> (\<Union>g \<in> {g. is_suffix g \<or> d = length q}. hit_at node d q g)"
  then show "r \<in> node_hits node d q"
    using node_hits_some(1)[OF _ _ that] by (auto simp: hit_at_def split: option.splits)
qed

lemma groups_of: "(\<Union>g \<in> {g. is_suffix g \<or> P}. f g) = f AllowSuffix \<union> f BlockSuffix \<union> (if P then f AllowExact \<union> f BlockExact else {})"
proof -
  have "{g. is_suffix g \<or> P} = {AllowSuffix, BlockSuffix} \<union> (if P then {AllowExact, BlockExact} else {})"
    by (auto elim: is_suffix.elims) (metis group.exhaust is_suffix.simps)
  then show ?thesis by auto
qed

lemma hit_at_fst: "r \<in> hit_at node d q g \<Longrightarrow> fst r = g"
  by (auto simp: hit_at_def split: option.splits)

lemma block_end:
  assumes none: "found node d AllowSuffix = None" "found node d AllowExact = None" and d: "d = length q" "d < 65536"
  shows "block_spec ls (node_hits node d q) best
    (consider_found ls (found node d BlockExact) (consider_found ls (found node d BlockSuffix) best))"
proof -
  have set: "node_hits node d q = hit_at node d q BlockSuffix \<union> hit_at node d q BlockExact"
    using node_hits_at[unfolded groups_of, of d q node] d none by (simp add: hit_at_def)
  have no: "\<not> (\<exists>r \<in> node_hits node d q. is_allow (fst r))" unfolding set by (auto dest!: hit_at_fst)
  have "best_of ls best (hit_at node d q BlockSuffix \<union> (hit_at node d q BlockExact \<union> {}))
      (consider_found ls (found node d BlockExact) (consider_found ls (found node d BlockSuffix) best))"
    by (rule best_of_found, rule best_of_found) (use d in simp_all)
  then show ?thesis using no unfolding block_spec_def set by simp
qed

lemma block_below:
  assumes none: "found node d AllowSuffix = None" and d: "d < length q" "d < 65536"
    and spec: "block_spec ls H (consider_found ls (found node d BlockSuffix) best) res"
  shows "block_spec ls (node_hits node d q \<union> H) best res"
proof -
  have set: "node_hits node d q = hit_at node d q BlockSuffix"
    using node_hits_at[unfolded groups_of, of d q node] d none by (simp add: hit_at_def)
  have no: "(\<exists>r \<in> node_hits node d q \<union> H. is_allow (fst r)) = (\<exists>r \<in> H. is_allow (fst r))"
    unfolding set by (auto dest!: hit_at_fst)
  show ?thesis
    using spec no best_of_found[of ls node d BlockSuffix best H res q] d unfolding block_spec_def set by (auto split: if_splits)
qed

text \<open>Both walks, by induction on what the node stands for.\<close>

lemma agree_subset: "agree d q rs \<Longrightarrow> set rs' \<subseteq> set rs \<Longrightarrow> agree d q rs'"
  by (auto simp: agree_def)

lemma uniq_subset: "uniq rs \<Longrightarrow> set rs' \<subseteq> set rs \<Longrightarrow> uniq rs'"
  unfolding uniq_def by blast

lemma nth_subset_concat: "j < length gs \<Longrightarrow> set (gs ! j) \<subseteq> set (here @ concat gs)"
  using nth_mem by fastforce

lemma node_hit_set:
  assumes "\<forall>(g, k, s) \<in> set here. length k = d" "agree d q (here @ concat gs)" "d \<le> length q" "uniq (here @ concat gs)"
    and "\<forall>g. nd_sources node ! group_index g = source_at here g" "d < 65536"
  shows "hit_set (here @ concat gs) q = node_hits node d q \<union> hit_set (concat gs) q"
proof -
  have "agree d q here" "uniq here" using agree_subset[OF assms(2)] uniq_subset[OF assms(4)] by simp_all
  from here_hit_set[OF assms(1) this(1) assms(3) this(2) assms(5,6)] show ?thesis
    by (simp add: hit_set_append node_hits_def)
qed

lemma hit_set_only:
  assumes "\<forall>r \<in> set (concat gs). hits r q \<longrightarrow> r \<in> set (gs ! j)" "j < length gs"
  shows "hit_set (concat gs) q = hit_set (gs ! j) q"
  using assms nth_mem[OF assms(2)] unfolding hit_set_def by auto

lemma hit_set_none: "\<forall>r \<in> set (concat gs). \<not> hits r q \<Longrightarrow> hit_set (concat gs) q = {}"
  unfolding hit_set_def by auto

lemma lookup_spec_empty: "lookup_spec {} blocked blocked"
  by (auto simp: lookup_spec_def split: option.splits)

lemma block_spec_empty: "block_spec ls {} best best"
  by (simp add: block_spec_def)

lemma walk_step:
  assumes kids: "\<forall>j < length gs. edge_ok (ix_arena ix) (ix_nodes ix ! (fc + j)) d (gs ! j) \<and> Q j"
    and node: "nd_first_child node = fc" "nd_child_count node = length gs" "fc + length gs \<le> length (ix_nodes ix)"
    and srt: "sorted_wrt (<) (map nd_first_byte (slice fc (fc + length gs) (ix_nodes ix)))"
    and d: "d < length q" and agree: "agree d q (here @ concat gs)" and uniq: "uniq (here @ concat gs)"
  obtains (stop) "next_node ix q node d = Some None" "hit_set (concat gs) q = {}"
  | (go) j where "j < length gs" "next_node ix q node d = Some (Some (fc + j, d + nd_edge_len (ix_nodes ix ! (fc + j))))"
      "hit_set (concat gs) q = hit_set (gs ! j) q" "agree (d + nd_edge_len (ix_nodes ix ! (fc + j))) q (gs ! j)"
      "uniq (gs ! j)" "d + nd_edge_len (ix_nodes ix ! (fc + j)) \<le> length q" "0 < nd_edge_len (ix_nodes ix ! (fc + j))" "Q j"
proof -
  have sub: "agree d q (concat gs)" using agree_subset[OF agree] by simp
  have edges: "\<forall>j < length gs. edge_ok (ix_arena ix) (ix_nodes ix ! (fc + j)) d (gs ! j)" using kids by simp
  show ?thesis
  proof (rule next_node_cases[OF edges node srt d sub])
    assume "next_node ix q node d = Some None" "\<forall>r \<in> set (concat gs). \<not> hits r q"
    then show ?thesis by (intro stop hit_set_none)
  next
    fix j assume j: "j < length gs" "next_node ix q node d = Some (Some (fc + j, d + nd_edge_len (ix_nodes ix ! (fc + j))))"
      "\<forall>r \<in> set (concat gs). hits r q \<longrightarrow> r \<in> set (gs ! j)" "agree (d + nd_edge_len (ix_nodes ix ! (fc + j))) q (gs ! j)"
      "d + nd_edge_len (ix_nodes ix ! (fc + j)) \<le> length q"
    have "0 < nd_edge_len (ix_nodes ix ! (fc + j))" "Q j" using kids j(1) by (auto simp: edge_ok_def)
    then show ?thesis using go[OF j(1,2) hit_set_only[OF j(3,1)] j(4) uniq_subset[OF uniq nth_subset_concat[OF j(1)]] j(5)] by blast
  qed
qed

lemma lookup_loop_ok:
  assumes "represents (ix_nodes ix) (ix_arena ix) lo hi i d rs"
    and "agree d q rs" "uniq rs" "d \<le> length q" "length q < 65536" "length q - d < n"
  shows "\<exists>res. lookup_loop n ix q i d blocked = Some res \<and> lookup_spec (hit_set rs q) blocked res"
  using assms
proof (induction lo hi i d rs arbitrary: n blocked rule: represents.induct)
  case (1 i rs here gs d fc lo hi)
  let ?node = "ix_nodes ix ! i"
  obtain n' where n: "n = Suc n'" using 1(16) by (cases n) auto
  have d: "d < 65536" "d \<le> length q" using 1(14,15) by simp_all
  have set: "hit_set rs q = node_hits ?node d q \<union> hit_set (concat gs) q"
    using node_hit_set[OF 1(3) _ d(2) _ 1(4) d(1)] 1(2,12,13) by simp
  show ?case
  proof (cases "found ?node d AllowSuffix")
    case (Some m)
    then have "lookup_spec (hit_set rs q) blocked (Some m)"
      using node_hits_some[OF Some _ d(2,1)] unfolding set by (intro lookup_allow[of "(AllowSuffix, take d q, m_slot m)"]) auto
    with Some n 1(1) show ?thesis by simp
  next
    case None
    note noallow = None
    show ?thesis
    proof (cases "d = length q")
      case True
      have below: "hit_set (concat gs) q = {}" using below_hit_set[OF _ True] 1(11) by blast
      show ?thesis
      proof (cases "found ?node d AllowExact")
        case (Some m)
        then have "lookup_spec (hit_set rs q) blocked (Some m)"
          using node_hits_some[OF Some _ d(2,1)] True unfolding set by (intro lookup_allow[of "(AllowExact, take d q, m_slot m)"]) auto
        with Some n 1(1) True noallow show ?thesis by simp
      next
        case None
        from lookup_end[OF noallow None True d(1)] below have "lookup_spec (hit_set rs q) blocked
            (or_else blocked (or_else (found ?node d BlockSuffix) (found ?node d BlockExact)))" unfolding set by simp
        then show ?thesis using None noallow True n 1(1) by (simp add: Let_def)
      qed
    next
      case False
      then have dq: "d < length q" using d(2) by simp
      let ?bl = "or_else blocked (found ?node d BlockSuffix)"
      have unf: "lookup_loop n ix q i d blocked = (case next_node ix q ?node d of None \<Rightarrow> None | Some None \<Rightarrow> Some ?bl
          | Some (Some (i, d)) \<Rightarrow> lookup_loop n' ix q i d ?bl)" using noallow False n 1(1) by (simp add: Let_def)
      from 1(8,9) have bound: "fc + length gs \<le> length (ix_nodes ix)" by simp
      from 1(2,12,13) have ag: "agree d q (here @ concat gs)" "uniq (here @ concat gs)" by simp_all
      have "\<exists>res. lookup_loop n ix q i d blocked = Some res \<and> lookup_spec (hit_set (concat gs) q) ?bl res"
        by (rule walk_step[OF 1(11) 1(5,6) bound 1(10) dq ag])
          (use unf lookup_spec_empty 1(14-16) n in simp_all)
      then show ?thesis using lookup_below[OF noallow dq d(1)] unfolding set by blast
    qed
  qed
qed

lemma block_none: "r \<in> H \<Longrightarrow> is_allow (fst r) \<Longrightarrow> block_spec ls H best None"
  by (auto simp: block_spec_def)

lemma block_loop_ok:
  assumes "represents (ix_nodes ix) (ix_arena ix) lo hi i d rs"
    and "agree d q rs" "uniq rs" "d \<le> length q" "length q < 65536" "length q - d < n"
  shows "\<exists>res. block_loop ls n ix q i d best = Some res \<and> block_spec ls (hit_set rs q) best res"
  using assms
proof (induction lo hi i d rs arbitrary: n best rule: represents.induct)
  case (1 i rs here gs d fc lo hi)
  let ?node = "ix_nodes ix ! i"
  let ?best = "consider_found ls (found ?node d BlockSuffix) best"
  obtain n' where n: "n = Suc n'" using 1(16) by (cases n) auto
  have d: "d < 65536" "d \<le> length q" using 1(14,15) by simp_all
  have set: "hit_set rs q = node_hits ?node d q \<union> hit_set (concat gs) q"
    using node_hit_set[OF 1(3) _ d(2) _ 1(4) d(1)] 1(2,12,13) by simp
  have allow: "block_spec ls (hit_set rs q) best None" if "found ?node d g = Some m" "is_suffix g \<or> d = length q" "is_allow g" for g m
    using node_hits_some(1)[OF that(1,2) d(2,1)] that(3) unfolding set by (intro block_none[of "(g, take d q, m_slot m)"]) auto
  show ?case
  proof (cases "found ?node d AllowSuffix")
    case (Some m)
    with allow[OF Some] n 1(1) show ?thesis by simp
  next
    case None
    note noallow = None
    show ?thesis
    proof (cases "d = length q")
      case True
      have below: "hit_set (concat gs) q = {}" using below_hit_set[OF _ True] 1(11) by blast
      show ?thesis
      proof (cases "found ?node d AllowExact")
        case (Some m)
        with allow[OF Some] n 1(1) True noallow show ?thesis by (simp add: Let_def)
      next
        case None
        from block_end[OF noallow None True d(1), of ls best] below have
          "block_spec ls (hit_set rs q) best (consider_found ls (found ?node d BlockExact) ?best)" unfolding set by simp
        then show ?thesis using None noallow True n 1(1) by (simp add: Let_def)
      qed
    next
      case False
      then have dq: "d < length q" using d(2) by simp
      have unf: "block_loop ls n ix q i d best = (case next_node ix q ?node d of None \<Rightarrow> None | Some None \<Rightarrow> Some ?best
          | Some (Some (i, d)) \<Rightarrow> block_loop ls n' ix q i d ?best)" using noallow False n 1(1) by (simp add: Let_def)
      from 1(8,9) have bound: "fc + length gs \<le> length (ix_nodes ix)" by simp
      from 1(2,12,13) have ag: "agree d q (here @ concat gs)" "uniq (here @ concat gs)" by simp_all
      have "\<exists>res. block_loop ls n ix q i d best = Some res \<and> block_spec ls (hit_set (concat gs) q) ?best res"
        by (rule walk_step[OF 1(11) 1(5,6) bound 1(10) dq ag])
          (use unf block_spec_empty 1(14-16) n in simp_all)
      then show ?thesis using block_below[OF noallow dq d(1)] unfolding set by blast
    qed
  qed
qed

subsection \<open>The walks decide\<close>

definition index_ok :: "index \<Rightarrow> arule list \<Rightarrow> bool" where
  "index_ok ix rs \<longleftrightarrow> (\<exists>rs'. set rs' = set rs \<and> represents (ix_nodes ix) (ix_arena ix) 1 (length (ix_nodes ix)) 0 0 rs') \<and> uniq rs
     \<and> (\<forall>(g, k, s) \<in> set rs. s \<noteq> NONE)"

lemma index_okE:
  assumes "index_ok ix rs"
  obtains rs' where "represents (ix_nodes ix) (ix_arena ix) 1 (length (ix_nodes ix)) 0 0 rs'" "agree 0 q rs'" "uniq rs'"
    "hit_set rs' q = hit_set rs q"
  using assms unfolding index_ok_def agree_def uniq_def hit_set_def by (elim exE conjE) simp

lemma rank_match: "match_rank ls (to_match r) = block_rank ls r"
  by (cases r) (simp add: match_rank_def)

lemma allows_hit_set: "allows rs q \<longleftrightarrow> (\<exists>r \<in> hit_set rs q. is_allow (fst r))"
  unfolding allows_def list_ex_iff hit_set_def by blast

lemma rank_inj:
  assumes "r \<in> hit_set rs q" "r' \<in> hit_set rs q" "block_rank ls r = block_rank ls r'" "\<not> is_allow (fst r)" "\<not> is_allow (fst r')"
  shows "to_match r = to_match r'"
  using assms by (cases r; cases r'; cases "fst r"; cases "fst r'") auto

lemma block_decide:
  assumes "block_spec ls (hit_set rs q) None res"
  shows "res = map_option to_match (decide ls rs q)"
proof (cases "allows rs q")
  case True
  then show ?thesis using assms by (simp add: block_spec_def allows_hit_set decide_def)
next
  case False
  then have no: "\<not> is_allow (fst r)" if "r \<in> hit_set rs q" for r using that by (auto simp: allows_hit_set)
  have set: "set (blocking rs q) = hit_set rs q" using no by (auto simp: blocking_def hit_set_def)
  have best: "best_of ls None (hit_set rs q) res" using assms False by (auto simp: block_spec_def allows_hit_set)
  have dec: "decide ls rs q = min_by_key (block_rank ls) (blocking rs q)" using False by (simp add: decide_def)
  show ?thesis
  proof (cases "decide ls rs q")
    case None
    then have "hit_set rs q = {}" using dec set min_by_key_None by (metis set_empty)
    then show ?thesis using best None by (auto simp: best_of_def split: option.splits)
  next
    case (Some r)
    then have r: "r \<in> hit_set rs q" "\<forall>r' \<in> hit_set rs q. block_rank ls r \<le> block_rank ls r'"
      using dec set min_by_key_in min_by_key_le by metis+
    obtain r' where r': "res = Some (to_match r')" "r' \<in> hit_set rs q" "block_rank ls r' \<le> block_rank ls r"
      using best r(1) by (auto simp: best_of_def rank_match simp del: to_match.simps block_rank.simps split: option.splits)
    have "block_rank ls r = block_rank ls r'" using r(2) r'(2,3) by (meson order.antisym)
    from rank_inj[OF r(1) r'(2) this no[OF r(1)] no[OF r'(2)]] r'(1) Some show ?thesis by simp
  qed
qed

lemma push_all_length: "push_all key ls = Some q \<Longrightarrow> length key \<le> 255 \<Longrightarrow> length q \<le> 255"
  by (induction ls arbitrary: key) (auto simp: push_def split: option.splits if_splits)

lemma key_query_length: "key_query name = Some q \<Longrightarrow> length q \<le> 255"
  unfolding key_query_def by (erule push_all_length) simp

text \<open>\<open>Index::block_match\<close> returns the rule the reference decision chooses.\<close>

lemma block_match_decide:
  assumes "index_ok ix rs" "key_query name = Some q"
  shows "block_match ix name ls = Some (map_option to_match (decide ls rs q))"
proof -
  obtain rs' where rs': "represents (ix_nodes ix) (ix_arena ix) 1 (length (ix_nodes ix)) 0 0 rs'" "agree 0 q rs'" "uniq rs'"
    "hit_set rs' q = hit_set rs q" by (rule index_okE[OF assms(1)])
  have "\<exists>res. block_loop ls (length q + 1) ix q 0 0 None = Some res \<and> block_spec ls (hit_set rs' q) None res"
    using key_query_length[OF assms(2)] by (intro block_loop_ok[OF rs'(1-3)]) auto
  then show ?thesis using block_decide assms(2) rs'(4) by (auto simp: block_match_def)
qed

text \<open>\<open>Index::lookup\<close> returns an allow rule that is hit when there is one, and else a block rule when one is hit.\<close>

lemma lookup_finds:
  assumes "index_ok ix rs" "key_query name = Some q"
  shows "\<exists>res. lookup ix name = Some res \<and> lookup_spec (hit_set rs q) None res"
proof -
  obtain rs' where rs': "represents (ix_nodes ix) (ix_arena ix) 1 (length (ix_nodes ix)) 0 0 rs'" "agree 0 q rs'" "uniq rs'"
    "hit_set rs' q = hit_set rs q" by (rule index_okE[OF assms(1)])
  have "\<exists>res. lookup_loop (length q + 1) ix q 0 0 None = Some res \<and> lookup_spec (hit_set rs' q) None res"
    using key_query_length[OF assms(2)] by (intro lookup_loop_ok[OF rs'(1-3)]) auto
  then show ?thesis using assms(2) rs'(4) by (auto simp: lookup_def)
qed

end
