(* ===== verification/Filter_Build.thy ===== *)
theory Filter_Build
  imports Filter_Walk
begin

text \<open>
  Building the index is correct: whatever the allocator and the cancellation check do, the loop of
  \<open>Index::children\<close> ends without a panic, and a finished table stands for the canonical rules.
  The loop runs a frame by running its children one after the other; \<open>leads\<close> is that big step, with
  the rounds it takes.
\<close>

subsection \<open>Runs of one byte\<close>

function runs :: "('a \<Rightarrow> 'b) \<Rightarrow> 'a list \<Rightarrow> 'a list list" where
  "runs f [] = []"
| "runs f (x # xs) = (x # takeWhile (\<lambda>y. f y = f x) xs) # runs f (dropWhile (\<lambda>y. f y = f x) xs)"
  by pat_completeness auto
termination by (relation "measure (\<lambda>(f, xs). length xs)") (auto simp: length_dropWhile_le le_imp_less_Suc)

lemma concat_runs [simp]: "concat (runs f xs) = xs"
  by (induction f xs rule: runs.induct) auto

lemma runs_same: "g \<in> set (runs f xs) \<Longrightarrow> g \<noteq> [] \<and> (\<forall>x \<in> set g. f x = f (hd g))"
proof (induction f xs rule: runs.induct)
  case (2 f x xs)
  show ?case
  proof (cases "g = x # takeWhile (\<lambda>y. f y = f x) xs")
    case True
    have "f y = f x" if "y \<in> set g" for y
      using that set_takeWhileD[of y "\<lambda>y. f y = f x" xs] unfolding True set_simps insert_iff by (elim disjE) simp_all
    moreover have "hd g = x" "g \<noteq> []" unfolding True by simp_all
    ultimately show ?thesis by metis
  next
    case False
    then have "g \<in> set (runs f (dropWhile (\<lambda>y. f y = f x) xs))" using 2(2) by simp
    then show ?thesis by (rule 2(1))
  qed
qed simp

lemma dropWhile_greater:
  fixes f :: "'a \<Rightarrow> 'b::linorder"
  assumes "sorted (map f (x # xs))" "y \<in> set (dropWhile (\<lambda>y. f y = f x) xs)"
  shows "f x < f y"
proof -
  obtain z zs where z: "dropWhile (\<lambda>y. f y = f x) xs = z # zs" using assms(2) by (metis empty_iff list.set(1) neq_Nil_conv)
  then have ne: "f z \<noteq> f x" by (metis (mono_tags, lifting) dropWhile_eq_Cons_conv)
  have "z \<in> set xs" using z by (metis list.set_intros(1) set_dropWhileD)
  then have "f x \<le> f z" using assms(1) by simp
  moreover have "sorted (map f (z # zs))" using assms(1) unfolding z[symmetric] by (simp add: sorted_map sorted_wrt_dropWhile)
  then have "f z \<le> f y" using assms(2) unfolding z by auto
  ultimately show ?thesis using ne by (metis le_neq_trans less_le_trans)
qed

lemma runs_sorted:
  fixes f :: "'a \<Rightarrow> 'b::linorder"
  shows "sorted (map f xs) \<Longrightarrow> sorted_wrt (<) (map (f \<circ> hd) (runs f xs))"
proof (induction f xs rule: runs.induct)
  case (2 f x xs)
  let ?rest = "dropWhile (\<lambda>y. f y = f x) xs"
  have srt: "sorted (map f ?rest)" using 2(2) by (simp add: sorted_map sorted_wrt_dropWhile)
  have "hd g \<in> set ?rest" if "g \<in> set (runs f ?rest)" for g
  proof -
    have "hd g \<in> set g" using runs_same[OF that, THEN conjunct1] by (rule hd_in_set)
    with that have "hd g \<in> set (concat (runs f ?rest))" unfolding set_concat by blast
    then show ?thesis unfolding concat_runs .
  qed
  then have "\<forall>g \<in> set (runs f ?rest). f x < f (hd g)" using dropWhile_greater[OF 2(2)] by blast
  with 2(1)[OF srt] show ?case by simp
qed simp

lemma same_byte_run:
  "same_byte check arena depth b rs position calls = Inr (rest, stop, calls') \<Longrightarrow>
     rest = dropWhile (\<lambda>r. key_at arena (rec_entry r) ! depth = b) rs
   \<and> stop = position + length (takeWhile (\<lambda>r. key_at arena (rec_entry r) ! depth = b) rs)"
proof (induction rs arbitrary: position calls)
  case (Cons r rs)
  show ?case
  proof (cases "key_at arena (rec_entry r) ! depth = b")
    case True
    then obtain calls1 where "same_byte check arena depth b rs (position + 1) calls1 = Inr (rest, stop, calls')"
      using Cons.prems by (auto split: if_splits option.splits)
    from Cons.IH[OF this] True show ?thesis by simp
  next
    case False
    then show ?thesis using Cons.prems by auto
  qed
qed simp

lemma count_children_runs:
  "count_children check arena depth rs position n calls = Inr (m, calls') \<Longrightarrow>
     m = n + length (runs (\<lambda>r. key_at arena (rec_entry r) ! depth) rs)"
proof (induction check arena depth rs position n calls rule: count_children.induct)
  case (2 check arena depth r rs position n calls)
  from 2(2) obtain rest stop calls1 where sb: "same_byte check arena depth (key_at arena (rec_entry r) ! depth) rs (position + 1) calls = Inr (rest, stop, calls1)"
    and rec: "count_children check arena depth rest stop (n + 1) calls1 = Inr (m, calls')" by (auto split: sum.splits)
  from 2(1)[OF sb refl refl rec] same_byte_run[OF sb] show ?case by simp
qed simp

lemma settle_sources_eq:
  "settle_sources depth rs sources =
     (fold (\<lambda>r ss. ss[group_index (rec_group r) := e_slot (rec_entry r)]) (takeWhile (\<lambda>r. e_len (rec_entry r) = depth) rs) sources,
      dropWhile (\<lambda>r. e_len (rec_entry r) = depth) rs)"
  by (induction rs arbitrary: sources) auto

lemma common_len_prefix: "take (common_len xs ys) xs = take (common_len xs ys) ys \<and> common_len xs ys \<le> length xs \<and> common_len xs ys \<le> length ys"
  by (induction xs ys rule: common_len.induct) auto

text \<open>The sources of a fresh node after its records have been settled.\<close>

lemma length_settled [simp]: "length (fold (\<lambda>r ss. ss[group_index (rec_group r) := e_slot (rec_entry r)]) rs ss) = length ss"
  by (induction rs arbitrary: ss) auto

lemma settled_sources:
  assumes "length ss = 4" "distinct (map rec_group rs)"
  shows "fold (\<lambda>r ss. ss[group_index (rec_group r) := e_slot (rec_entry r)]) rs ss ! group_index g =
    (case List.find (\<lambda>r. rec_group r = g) rs of None \<Rightarrow> ss ! group_index g | Some r \<Rightarrow> e_slot (rec_entry r))"
  using assms
proof (induction rs arbitrary: ss)
  case (Cons r rs)
  have "List.find (\<lambda>r'. rec_group r' = rec_group r) rs = None" using Cons.prems(2) by (auto simp: find_None_iff image_iff)
  with Cons show ?case using group_index_less[of g] by (auto simp: nth_list_update group_index_inj split: option.splits)
qed simp

lemma fresh_sources:
  assumes "distinct (map rec_group rs)"
  shows "fold (\<lambda>r ss. ss[group_index (rec_group r) := e_slot (rec_entry r)]) rs [NONE, NONE, NONE, NONE] ! group_index g = source_at (rules_of arena rs) g"
proof -
  have "[NONE, NONE, NONE, NONE] ! group_index g = NONE" by (cases g) simp_all
  moreover have "List.find (\<lambda>r. fst r = g) (rules_of arena rs) =
      map_option (\<lambda>r. (rec_group r, key_at arena (rec_entry r), e_slot (rec_entry r))) (List.find (\<lambda>r. rec_group r = g) rs)"
    by (induction rs) (auto simp: rules_of_def)
  ultimately show ?thesis using settled_sources[OF _ assms, of "[NONE, NONE, NONE, NONE]" g]
    by (auto simp: source_at_def split: option.splits)
qed

subsection \<open>A slice of the sorted records\<close>

text \<open>Records that agree on their first \<open>d\<close> bytes, in the order of their keys.\<close>

abbreviation record_key :: "bytes \<Rightarrow> rule_record \<Rightarrow> bytes" where
  "record_key arena r \<equiv> key_at arena (rec_entry r)"

definition slice_ok :: "bytes \<Rightarrow> nat \<Rightarrow> rule_record list \<Rightarrow> bool" where
  "slice_ok arena d rs \<longleftrightarrow> (\<forall>r \<in> set rs. e_len (rec_entry r) = length (record_key arena r) \<and> length (record_key arena r) \<le> 254)
     \<and> sorted (map (record_key arena) rs) \<and> distinct (map (\<lambda>r. (rec_group r, record_key arena r)) rs)
     \<and> (\<exists>w. length w = d \<and> (\<forall>r \<in> set rs. prefix w (record_key arena r)))"

lemma slice_ok_append: "slice_ok arena d (xs @ ys) \<Longrightarrow> slice_ok arena d xs \<and> slice_ok arena d ys"
  unfolding slice_ok_def by (auto simp: sorted_append)

lemma slice_ok_length: "slice_ok arena d rs \<Longrightarrow> r \<in> set rs \<Longrightarrow> d \<le> length (record_key arena r)"
  unfolding slice_ok_def by (metis prefix_length_le)

lemma slice_ok_take: "slice_ok arena d rs \<Longrightarrow> r \<in> set rs \<Longrightarrow> r' \<in> set rs \<Longrightarrow> take d (record_key arena r) = take d (record_key arena r')"
  unfolding slice_ok_def by (metis append_eq_conv_conj prefix_def)

lemma here_groups:
  assumes "slice_ok arena d rs" "\<forall>r \<in> set rs. e_len (rec_entry r) = d"
  shows "distinct (map rec_group rs)"
proof -
  have same: "record_key arena r = record_key arena r'" if "r \<in> set rs" "r' \<in> set rs" for r r'
  proof -
    have len: "\<forall>r \<in> set rs. e_len (rec_entry r) = length (record_key arena r)" using assms(1) unfolding slice_ok_def by blast
    have "length (record_key arena r) = d" "length (record_key arena r') = d"
      using len[rule_format, OF that(1)] len[rule_format, OF that(2)] assms(2)[rule_format, OF that(1)] assms(2)[rule_format, OF that(2)] by simp_all
    then show ?thesis using slice_ok_take[OF assms(1) that] by simp
  qed
  have dist: "distinct (map (\<lambda>r. (rec_group r, record_key arena r)) rs)" using assms(1) unfolding slice_ok_def by simp
  have "inj_on rec_group (set rs)"
  proof (rule inj_onI)
    fix r r' assume r: "r \<in> set rs" "r' \<in> set rs" "rec_group r = rec_group r'"
    with same[OF r(1,2)] have "(rec_group r, record_key arena r) = (rec_group r', record_key arena r')" by simp
    with dist r show "r = r'" unfolding distinct_map inj_on_def by blast
  qed
  with dist show ?thesis by (simp add: distinct_map)
qed

text \<open>The records that end at the depth come first.\<close>

lemma rest_longer:
  assumes "slice_ok arena d rs" "r \<in> set (dropWhile (\<lambda>r. e_len (rec_entry r) = d) rs)"
  shows "d < length (record_key arena r)"
proof -
  let ?P = "\<lambda>r. e_len (rec_entry r) = d"
  obtain z zs where z: "dropWhile ?P rs = z # zs" using assms(2) by (metis empty_iff list.set(1) neq_Nil_conv)
  have "slice_ok arena d (z # zs)" using slice_ok_append[of arena d "takeWhile ?P rs" "dropWhile ?P rs", unfolded takeWhile_dropWhile_id, OF assms(1)] z by simp
  moreover have "\<not> ?P z" using z by (metis (mono_tags, lifting) dropWhile_eq_Cons_conv)
  ultimately have zl: "d < length (record_key arena z)" and ok: "slice_ok arena d (z # zs)"
    using slice_ok_length[of arena d "z # zs" z] unfolding slice_ok_def by auto
  have r: "r \<in> set (z # zs)" using assms(2) z by simp
  then have le: "record_key arena z \<le> record_key arena r" using ok unfolding slice_ok_def by auto
  have "d \<le> length (record_key arena r)" by (rule slice_ok_length[OF ok r])
  moreover have "length (record_key arena r) \<noteq> d"
  proof
    assume len: "length (record_key arena r) = d"
    have "take d (record_key arena z) = record_key arena r" using slice_ok_take[OF ok _ r, of z] len by simp
    then have "prefix (record_key arena r) (record_key arena z)" by (metis take_is_prefix)
    with le prefix_le have "record_key arena r = record_key arena z" by (metis order.antisym)
    with zl len show False by simp
  qed
  ultimately show ?thesis by simp
qed

lemma byte_mono:
  fixes x y :: "'a::linorder list"
  assumes "x \<le> y" "take d x = take d y" "d < length x" "d < length y"
  shows "x ! d \<le> y ! d"
  using assms
proof (induction d arbitrary: x y)
  case 0
  then show ?case by (cases x; cases y) auto
next
  case (Suc d)
  then obtain a xs b ys where "x = a # xs" "y = b # ys" by (cases x; cases y) auto
  with Suc show ?case by auto
qed

lemma bytes_sorted:
  assumes "slice_ok arena d rs" "\<forall>r \<in> set rs. d < length (record_key arena r)"
  shows "sorted (map (\<lambda>r. record_key arena r ! d) rs)"
proof -
  have "sorted_wrt (\<lambda>r r'. record_key arena r \<le> record_key arena r') rs" using assms(1) by (simp add: slice_ok_def sorted_map)
  then have "sorted_wrt (\<lambda>r r'. record_key arena r ! d \<le> record_key arena r' ! d) rs"
    by (rule sorted_wrt_mono_rel[rotated]) (use byte_mono slice_ok_take[OF assms(1)] assms(2) in blast)
  then show ?thesis by (simp add: sorted_map)
qed

text \<open>A run of one byte has the edge of its first and last record in common.\<close>

definition edge_end :: "bytes \<Rightarrow> nat \<Rightarrow> rule_record list \<Rightarrow> nat" where
  "edge_end arena d g = d + 1 + common_len (drop (d + 1) (record_key arena (hd g))) (drop (d + 1) (record_key arena (last g)))"

lemma take_Suc_split: "d < length x \<Longrightarrow> take (d + 1 + n) x = take d x @ x ! d # take n (drop (d + 1) x)"
  unfolding take_add[of "d + 1"] by (simp add: take_Suc_conv_app_nth)

lemma run_edge:
  assumes ok: "slice_ok arena d g" and ne: "g \<noteq> []" and long: "\<forall>r \<in> set g. d < length (record_key arena r)"
    and same: "record_key arena (last g) ! d = record_key arena (hd g) ! d"
  shows "slice_ok arena (edge_end arena d g) g" "r \<in> set g \<Longrightarrow> edge_end arena d g \<le> length (record_key arena r)
    \<and> take (edge_end arena d g) (record_key arena r) = take (edge_end arena d g) (record_key arena (hd g))"
proof -
  let ?first = "record_key arena (hd g)" and ?last = "record_key arena (last g)" and ?c = "edge_end arena d g"
  have in_g: "hd g \<in> set g" "last g \<in> set g" using ne by simp_all
  note cl = common_len_prefix[of "drop (d + 1) ?first" "drop (d + 1) ?last"]
  have tk: "take ?c ?first = take ?c ?last"
    unfolding edge_end_def take_Suc_split[OF long[rule_format, OF in_g(1)]] take_Suc_split[OF long[rule_format, OF in_g(2)]]
    using cl slice_ok_take[OF ok in_g] same by simp
  have "common_len (drop (d + 1) ?first) (drop (d + 1) ?last) \<le> length ?first - (d + 1)" using cl by simp
  then have len: "length (take ?c ?first) = ?c" using long in_g(1) unfolding edge_end_def by fastforce
  have pre: "prefix (take ?c ?first) (record_key arena r)" if "r \<in> set g" for r
  proof (rule prefix_convex)
    have srt: "sorted (map (record_key arena) g)" using ok by (simp add: slice_ok_def)
    have "?first \<le> record_key arena r" using srt that ne by (cases g) auto
    then show "take ?c ?first \<le> record_key arena r" using prefix_le[OF take_is_prefix] by (rule order_trans[rotated])
    show "record_key arena r \<le> ?last" by (rule sorted_map_last[OF srt that])
    show "prefix (take ?c ?first) ?last" unfolding tk by (rule take_is_prefix)
  qed
  then show "slice_ok arena ?c g" using ok len unfolding slice_ok_def by blast
  show "?c \<le> length (record_key arena r) \<and> take ?c (record_key arena r) = take ?c ?first" if "r \<in> set g"
    using pre[OF that] len prefix_length_le[OF pre[OF that]] by (metis append_eq_conv_conj prefix_def)
qed

subsection \<open>One visit of a frame\<close>

definition build_ok :: "build \<Rightarrow> bool" where
  "build_ok st \<longleftrightarrow> budget_ok (rb_budget st) \<and> bu_limit (rb_budget st) \<le> 512 * 1024 * 1024
     \<and> cap (rb_nodes st) * size_of_node + cap (rb_arena st) \<le> bu_live (rb_budget st)
     \<and> length (items (rb_nodes st)) \<le> cap (rb_nodes st) \<and> length (items (rb_arena st)) \<le> cap (rb_arena st)"

lemma build_ok_small: "build_ok st \<Longrightarrow> length (items (rb_nodes st)) < 2 ^ 32 \<and> length (items (rb_arena st)) < 2 ^ 32"
  by (auto simp: build_ok_def budget_ok_def size_of_node_def)

lemma count_step_ok:
  assumes "count_step check st = Inr st'"
  shows "rb_nodes st' = rb_nodes st \<and> rb_arena st' = rb_arena st \<and> rb_budget st' = rb_budget st"
  using assms by (auto simp: count_step_def Let_def split: if_splits option.splits)

lemma slice_parts:
  assumes "slice s e R = xs @ ys" "s \<le> e" "e \<le> length R"
  shows "slice (e - length ys) e R = ys" "slice s (s + length xs) R = xs" "s + length xs + length ys = e"
proof -
  have "length (slice s e R) = e - s" using assms(2,3) by (simp add: slice_def)
  then show len: "s + length xs + length ys = e" using assms by simp
  then show "slice s (s + length xs) R = xs" using arg_cong[OF assms(1), of "take (length xs)"] by (simp add: slice_def)
  have "e - length ys = s + length xs" using len by simp
  then show "slice (e - length ys) e R = ys" using arg_cong[OF assms(1), of "drop (length xs)"] len
    by (simp add: slice_def drop_take add.commute)
qed

lemma slice_nth: "slice s e R = x # xs \<Longrightarrow> R ! s = x"
  unfolding slice_def by (metis drop_eq_Nil2 hd_drop_conv_nth linorder_not_less list.distinct(1) list.sel(1) take_Nil hd_take length_0_conv list.size(3) neq0_conv take_eq_Nil2)

lemma slice_last: "slice s (s + length g) R = g \<Longrightarrow> g \<noteq> [] \<Longrightarrow> s + length g \<le> length R \<Longrightarrow> R ! (s + length g - 1) = last g"
  by (metis (no_types, lifting) Nat.add_diff_assoc One_nat_def Suc_leI add_diff_cancel_left' add_leE diff_less last_conv_nth length_greater_0_conv less_one nth_drop nth_take slice_def)

lemma runs_bound:
  assumes "sorted (map f xs)"
  shows "length (runs (f :: 'a \<Rightarrow> u8) xs) \<le> 256"
proof -
  have "distinct (map (f \<circ> hd) (runs f xs))" using runs_sorted[OF assms] by (simp add: strict_sorted_iff)
  then have "length (map (f \<circ> hd) (runs f xs)) = card (set (map (f \<circ> hd) (runs f xs)))" by (simp only: distinct_card)
  also have "\<dots> \<le> card (UNIV :: u8 set)" by (rule card_mono) simp_all
  finally show ?thesis by (simp add: card_word)
qed

context alloc
begin

lemma grow_nodes_ok:
  assumes "build_ok st" "grow A size_of_node (rb_nodes st) needed (rb_budget st) = (Inr v, bu)" "length ns \<le> needed"
  shows "items v = items (rb_nodes st)" "build_ok (st\<lparr>rb_nodes := v\<lparr>items := ns\<rparr>, rb_budget := bu, rb_calls := c\<rparr>)"
  using grow_ok[OF assms(2)] assms(1,3) by (auto simp: build_ok_def)

lemma grow_arena_ok:
  assumes "build_ok st" "grow A 1 (rb_arena st) needed (rb_budget st) = (Inr v, bu)" "length bs \<le> needed"
    and "length ns = length (items (rb_nodes st))"
  shows "items v = items (rb_arena st)" "build_ok (st\<lparr>rb_arena := v\<lparr>items := bs\<rparr>, rb_budget := bu, rb_calls := c,
    rb_nodes := (rb_nodes st)\<lparr>items := ns\<rparr>\<rparr>)"
  using grow_ok[OF assms(2)] assms(1,3,4) by (auto simp: build_ok_def)

lemma open_frame_ok:
  assumes st: "build_ok st" "p < length (items (rb_nodes st))" "nd_sources (items (rb_nodes st) ! p) = [NONE, NONE, NONE, NONE]"
    and sl: "slice s e R = sl" "s \<le> e" "e \<le> length R" "slice_ok arena d sl"
  defines "rest \<equiv> dropWhile (\<lambda>r. e_len (rec_entry r) = d) sl"
  shows "\<exists>res. open_frame A check arena R (frame_new p s e d) st = Some res \<and> (\<forall>f st'. res = Inr (f, st') \<longrightarrow>
     f = \<lparr>fr_parent = p, fr_start = e - length rest, fr_end = e, fr_depth = d, fr_next = Some (length (items (rb_nodes st)))\<rparr>
     \<and> build_ok st' \<and> items (rb_arena st') = items (rb_arena st)
     \<and> (\<exists>ss. (\<forall>g. ss ! group_index g = source_at (rules_of arena (takeWhile (\<lambda>r. e_len (rec_entry r) = d) sl)) g)
        \<and> items (rb_nodes st') = (items (rb_nodes st) @ replicate (length (runs (\<lambda>r. record_key arena r ! d) rest)) node_empty)
            [p := (items (rb_nodes st) ! p)\<lparr>nd_sources := ss, nd_first_child := length (items (rb_nodes st)),
               nd_child_count := length (runs (\<lambda>r. record_key arena r ! d) rest)\<rparr>]))"
proof -
  let ?P = "\<lambda>r. e_len (rec_entry r) = d" and ?N = "items (rb_nodes st)" and ?n = "length (runs (\<lambda>r. record_key arena r ! d) rest)"
  have split: "slice_ok arena d (takeWhile ?P sl)" "slice_ok arena d rest"
    using slice_ok_append[of arena d "takeWhile ?P sl" "dropWhile ?P sl", unfolded takeWhile_dropWhile_id, OF sl(4)] by (simp_all add: rest_def)
  have long: "\<forall>r \<in> set rest. d < length (record_key arena r)" using rest_longer[OF sl(4)] by (simp add: rest_def)
  define ss where "ss = fold (\<lambda>r ss. ss[group_index (rec_group r) := e_slot (rec_entry r)]) (takeWhile ?P sl) [NONE, NONE, NONE, NONE]"
  have "distinct (map rec_group (takeWhile ?P sl))" by (rule here_groups[OF split(1)]) (auto dest: set_takeWhileD)
  from fresh_sources[OF this] have ss: "\<forall>g. ss ! group_index g = source_at (rules_of arena (takeWhile ?P sl)) g" by (simp add: ss_def)
  have settle: "settle_sources d sl [NONE, NONE, NONE, NONE] = (ss, rest)" by (simp add: settle_sources_eq ss_def rest_def)
  have noshort: "\<not> list_ex (\<lambda>r. length (record_key arena r) \<le> d) rest" using long by (auto simp: list_ex_iff)
  have n: "as_u16 ?n = ?n" "as_u32 (length ?N) = length ?N"
    using runs_bound[OF bytes_sorted[OF split(2) long]] build_ok_small[OF st(1)] by (simp_all add: as_u16_id as_u32_id)
  show ?thesis
  proof (cases "count_children check arena d rest (e - length rest) 0 (rb_calls st)")
    case (Inl x)
    then show ?thesis using st settle noshort sl(1) by (simp add: open_frame_def frame_new_def Let_def)
  next
    case (Inr nc)
    then obtain calls where count: "count_children check arena d rest (e - length rest) 0 (rb_calls st) = Inr (?n, calls)"
      using count_children_runs[of check arena d rest "e - length rest" 0 "rb_calls st" "fst nc" "snd nc"] by (cases nc) simp
    obtain gr bu where g: "grow A size_of_node (rb_nodes st) (length ?N + ?n) (rb_budget st) = (gr, bu)" by fastforce
    show ?thesis
    proof (cases gr)
      case (Inl x)
      then show ?thesis using st settle noshort sl(1) count g by (simp add: open_frame_def frame_new_def Let_def)
    next
      case v: (Inr v)
      note ok = grow_nodes_ok[OF st(1) g[unfolded v]]
      show ?thesis
        using st settle noshort sl(1) count g v n ss ok by (simp add: open_frame_def frame_new_def Let_def) blast
    qed
  qed
qed

lemma open_child_ok:
  assumes st: "build_ok st" "child < length (items (rb_nodes st))"
    and sl: "slice s e R = g @ rest" "s < e" "e \<le> length R" "runs (\<lambda>r. record_key arena r ! d) (g @ rest) = g # gs"
    and ok: "slice_ok arena d (g @ rest)" "\<forall>r \<in> set (g @ rest). d < length (record_key arena r)"
    and f: "fr_start f = s" "fr_end f = e" "fr_depth f = d"
  defines "c \<equiv> edge_end arena d g" and "first \<equiv> record_key arena (hd g)"
  shows "\<exists>res. open_child A check arena R f child st = Some res \<and> (\<forall>f' cf st'. res = Inr (f', cf, st') \<longrightarrow>
     f' = f\<lparr>fr_start := s + length g, fr_next := Some (child + 1)\<rparr> \<and> cf = frame_new child s (s + length g) c
     \<and> build_ok st' \<and> items (rb_arena st') = items (rb_arena st) @ take (c - d) (drop d first)
     \<and> items (rb_nodes st') = (items (rb_nodes st))
         [child := node_empty\<lparr>nd_edge_offset := length (items (rb_arena st)), nd_edge_len := c - d, nd_first_byte := first ! d\<rparr>])"
proof -
  let ?f = "\<lambda>r. record_key arena r ! d" and ?Ar = "items (rb_arena st)"
  obtain x xs where x: "g @ rest = x # xs" "g = x # takeWhile (\<lambda>y. ?f y = ?f x) xs" using sl(4) by (cases "g @ rest") auto
  have g: "g \<noteq> []" "hd g = x" unfolding x(2) by simp_all
  have "g \<in> set (runs ?f (g @ rest))" unfolding sl(4) by simp
  from runs_same[OF this, THEN conjunct2, rule_format, OF last_in_set[OF g(1)]] have same: "?f (last g) = ?f (hd g)" .
  have Rs: "R ! s = x" using slice_nth[of s e R x xs] sl(1) x(1) by simp
  have sl': "slice s e R = [x] @ xs" "s \<le> e" using sl(1,2) x(1) by simp_all
  have "e - length xs = s + 1" using slice_parts(3)[OF sl' sl(3)] by simp
  then have tail: "slice (s + 1) e R = xs" using slice_parts(1)[OF sl' sl(3)] by simp
  have parts: "slice s (s + length g) R = g" using slice_parts(2)[OF sl(1) _ sl(3)] sl(2) by simp
  have last: "R ! (s + length g - 1) = last g"
    using slice_parts(3)[OF sl(1) _ sl(3)] sl(2,3) slice_last[OF parts g(1)] by simp
  have okg: "slice_ok arena d g" "\<forall>r \<in> set g. d < length (record_key arena r)" using slice_ok_append[OF ok(1)] ok(2) by simp_all
  have edge: "c \<le> length first" "d < c"
    using run_edge(2)[OF okg(1) g(1) okg(2) same hd_in_set[OF g(1)]] by (simp_all add: c_def first_def edge_end_def)
  have "length first \<le> 254"
    using okg(1)[unfolded slice_ok_def, THEN conjunct1, rule_format, OF hd_in_set[OF g(1)]] by (simp add: first_def)
  then have "c - d < 2 ^ 8" using edge(1) by simp
  then have small: "as_u8 (c - d) = c - d" "as_u32 (length ?Ar) = length ?Ar"
    using build_ok_small[OF st(1)] by (simp_all only: as_u8_id as_u32_id)
  have first: "record_key arena (R ! s) = first" using Rs g(2) by (simp add: first_def)
  show ?thesis
  proof (cases "same_byte check arena d (first ! d) xs (s + 1) (rb_calls st)")
    case (Inl err)
    then show ?thesis by (simp only: open_child_def Let_def f first tail sum.case) simp
  next
    case (Inr res)
    then obtain rest' stop calls where sb: "same_byte check arena d (first ! d) xs (s + 1) (rb_calls st) = Inr (rest', stop, calls)" by (cases res) auto
    then have stop: "stop = s + length g" using same_byte_run[OF sb] x(2) g(2) by (simp add: first_def)
    have c_eq: "d + 1 + common_len (drop (d + 1) first) (drop (d + 1) (record_key arena (last g))) = c" by (simp add: c_def edge_end_def first_def)
    note unf = open_child_def Let_def f first tail sb[unfolded stop] sum.case prod.case last c_eq
    obtain gr bu where gw: "grow A 1 (rb_arena st) (length ?Ar + c - d) (rb_budget st) = (gr, bu)" by fastforce
    show ?thesis
    proof (cases gr)
      case (Inl err)
      show ?thesis by (simp only: unf gw Inl) simp
    next
      case v: (Inr v)
      have "length (?Ar @ take (c - d) (drop d first)) \<le> length ?Ar + c - d" using edge by simp
      note okv = grow_arena_ok[OF st(1) gw[unfolded v] this length_list_update]
      show ?thesis by (simp only: unf gw v) (use okv st(2) small in simp)
    qed
  qed
qed

end

subsection \<open>Big steps of the loop\<close>

text \<open>\<open>leads A check arena R K X fs Q\<close>: within \<open>K\<close> rounds the run \<open>X\<close> (a function of the fuel) fails with an error
  or continues with the frames \<open>fs\<close> in a state with \<open>Q\<close>.\<close>

definition leads :: "allocator \<Rightarrow> check \<Rightarrow> bytes \<Rightarrow> rule_record list \<Rightarrow> nat \<Rightarrow> (nat \<Rightarrow> (filter_error + build) option) \<Rightarrow>
    frame list \<Rightarrow> (build \<Rightarrow> bool) \<Rightarrow> bool" where
  "leads A check arena R K X fs Q \<longleftrightarrow> (\<exists>k \<le> K. (\<exists>e. \<forall>n. X (n + k) = Some (Inl e))
     \<or> (\<exists>st. Q st \<and> (\<forall>n. X (n + k) = children n A check arena R fs st)))"

lemma leads_error: "leads A check arena R K (\<lambda>n. Some (Inl e)) fs Q"
  unfolding leads_def by (intro exI[of _ 0]) simp

lemma leads_here: "Q st \<Longrightarrow> leads A check arena R K (\<lambda>n. children n A check arena R fs st) fs Q"
  unfolding leads_def by (intro exI[of _ 0]) auto

lemma leads_mono: "leads A check arena R K X fs Q \<Longrightarrow> K \<le> K' \<Longrightarrow> (\<And>st. Q st \<Longrightarrow> Q' st) \<Longrightarrow> leads A check arena R K' X fs Q'"
  unfolding leads_def by (meson order_trans)

lemma leads_step: "leads A check arena R K Y fs Q \<Longrightarrow> (\<And>n. X (Suc n) = Y n) \<Longrightarrow> leads A check arena R (Suc K) X fs Q"
  unfolding leads_def by (elim exE conjE, rule_tac x = "Suc k" in exI) simp

lemma leads_seq:
  assumes "leads A check arena R K X gs P" "\<And>st. P st \<Longrightarrow> leads A check arena R L (\<lambda>n. children n A check arena R gs st) fs Q"
  shows "leads A check arena R (K + L) X fs Q"
proof -
  obtain k where k: "k \<le> K" "(\<exists>e. \<forall>n. X (n + k) = Some (Inl e)) \<or> (\<exists>st. P st \<and> (\<forall>n. X (n + k) = children n A check arena R gs st))"
    using assms(1) unfolding leads_def by blast
  from k(2) show ?thesis
  proof (elim disjE exE conjE)
    fix e assume "\<forall>n. X (n + k) = Some (Inl e)"
    then show ?thesis using k(1) unfolding leads_def by (intro exI[of _ k]) auto
  next
    fix st assume st: "P st" "\<forall>n. X (n + k) = children n A check arena R gs st"
    obtain l where l: "l \<le> L" "(\<exists>e. \<forall>n. children (n + l) A check arena R gs st = Some (Inl e))
        \<or> (\<exists>st'. Q st' \<and> (\<forall>n. children (n + l) A check arena R gs st = children n A check arena R fs st'))"
      using assms(2)[OF st(1)] unfolding leads_def by blast
    have "X (n + (l + k)) = children (n + l) A check arena R gs st" for n using st(2)[rule_format, of "n + l"] by (simp add: add.assoc)
    then show ?thesis using l k(1) unfolding leads_def by (intro exI[of _ "l + k"]) auto
  qed
qed

definition cont :: "allocator \<Rightarrow> check \<Rightarrow> bytes \<Rightarrow> rule_record list \<Rightarrow> frame \<Rightarrow> frame list \<Rightarrow> build \<Rightarrow> nat \<Rightarrow> (filter_error + build) option" where
  "cont A check arena R f fs st n = (case resume A check arena R f (length fs) st of
     None \<Rightarrow> None
   | Some (Inl e) \<Rightarrow> Some (Inl e)
   | Some (Inr (pushed, st)) \<Rightarrow> children n A check arena R (pushed @ fs) st)"

lemma children_resume:
  assumes "fr_next f = Some c"
  shows "children (Suc n) A check arena R (f # fs) st =
    (case count_step check st of Inl e \<Rightarrow> Some (Inl e) | Inr st \<Rightarrow> cont A check arena R f fs st n)"
  using assms by (simp add: build_step_def cont_def split: sum.split)

lemma children_fresh:
  "children (Suc n) A check arena R (frame_new p s e d # fs) st =
    (case count_step check st of Inl e \<Rightarrow> Some (Inl e) | Inr st \<Rightarrow>
      (case open_frame A check arena R (frame_new p s e d) st of
         None \<Rightarrow> None
       | Some (Inl e) \<Rightarrow> Some (Inl e)
       | Some (Inr (f, st)) \<Rightarrow> cont A check arena R f fs st n))"
  by (simp add: build_step_def cont_def frame_new_def split: sum.split option.split)

text \<open>What running a frame and running its children do to the table.\<close>

definition grown :: "build \<Rightarrow> nat set \<Rightarrow> build \<Rightarrow> bool" where
  "grown st S st' \<longleftrightarrow> build_ok st' \<and> length (items (rb_nodes st)) \<le> length (items (rb_nodes st'))
     \<and> (\<forall>j < length (items (rb_nodes st)). j \<notin> S \<longrightarrow> items (rb_nodes st') ! j = items (rb_nodes st) ! j)
     \<and> prefix (items (rb_arena st)) (items (rb_arena st'))"

definition same_edge :: "node \<Rightarrow> node \<Rightarrow> bool" where
  "same_edge a b \<longleftrightarrow> nd_edge_offset a = nd_edge_offset b \<and> nd_edge_len a = nd_edge_len b \<and> nd_first_byte a = nd_first_byte b"

definition framed :: "build \<Rightarrow> nat \<Rightarrow> nat \<Rightarrow> arule list \<Rightarrow> build \<Rightarrow> bool" where
  "framed st p d rs st' \<longleftrightarrow> grown st {p} st' \<and> same_edge (items (rb_nodes st') ! p) (items (rb_nodes st) ! p)
     \<and> represents (items (rb_nodes st')) (items (rb_arena st')) (length (items (rb_nodes st))) (length (items (rb_nodes st'))) p d rs"

definition kids :: "build \<Rightarrow> nat \<Rightarrow> nat \<Rightarrow> arule list list \<Rightarrow> build \<Rightarrow> bool" where
  "kids st child d gs st' \<longleftrightarrow> grown st {child..<child + length gs} st'
     \<and> (\<forall>j < length gs. edge_ok (items (rb_arena st')) (items (rb_nodes st') ! (child + j)) d (gs ! j)
         \<and> represents (items (rb_nodes st')) (items (rb_arena st')) (length (items (rb_nodes st))) (length (items (rb_nodes st')))
             (child + j) (d + nd_edge_len (items (rb_nodes st') ! (child + j))) (gs ! j))"

lemma grown_trans:
  assumes "grown st S st1" "grown st1 T st2" "S \<union> T \<inter> {..<length (items (rb_nodes st))} \<subseteq> U"
  shows "grown st U st2"
proof -
  have "items (rb_nodes st2) ! j = items (rb_nodes st) ! j" if "j < length (items (rb_nodes st))" "j \<notin> U" for j
  proof -
    have "j \<notin> S" "j \<notin> T" "j < length (items (rb_nodes st1))" using that assms unfolding grown_def by auto
    then show ?thesis using assms(1,2) that(1) unfolding grown_def by metis
  qed
  with assms(1,2) show ?thesis unfolding grown_def by (auto intro: prefix_order.trans)
qed

lemma represents_extend:
  assumes "represents N A lo hi i d rs" "length N \<le> length N'" "N' ! i = N ! i" "\<forall>j. lo \<le> j \<longrightarrow> j < hi \<longrightarrow> N' ! j = N ! j"
    and "prefix A A'" "lo' \<le> lo" "hi \<le> hi'" "hi' \<le> length N'"
  shows "represents N' A' lo' hi' i d rs"
proof -
  obtain x where "A' = A @ x" using assms(5) by (auto simp: prefix_def)
  with represents_frame[OF assms(1-4), of x] show ?thesis using represents_mono assms(6-8) by blast
qed

lemma edge_ok_extend: "edge_ok A c d rs \<Longrightarrow> prefix A A' \<Longrightarrow> edge_ok A' c d rs"
  by (auto simp: edge_ok_def slice_def prefix_def)

lemma edge_ok_same: "edge_ok A c d rs \<Longrightarrow> same_edge c' c \<Longrightarrow> edge_ok A c' d rs"
  by (simp add: edge_ok_def same_edge_def)

text \<open>A first child that was framed and the others after it.\<close>

lemma kids_Cons:
  assumes room: "child + Suc (length gs) \<le> length (items (rb_nodes st))"
    and one: "grown st {child} st1" "length (items (rb_nodes st1)) = length (items (rb_nodes st))"
      "edge_ok (items (rb_arena st1)) (items (rb_nodes st1) ! child) d g"
    and two: "framed st1 child (d + nd_edge_len (items (rb_nodes st1) ! child)) g st2"
    and three: "rb_nodes st3 = rb_nodes st2" "rb_arena st3 = rb_arena st2" "kids st3 (child + 1) d gs st4"
  shows "kids st child d (g # gs) st4"
proof -
  let ?N = "\<lambda>st. items (rb_nodes st)" and ?A = "\<lambda>st. items (rb_arena st)"
  have g12: "grown st1 {child} st2" "same_edge (?N st2 ! child) (?N st1 ! child)" using two by (simp_all add: framed_def)
  have g34: "grown st2 {child + 1..<child + 1 + length gs} st4" using three by (simp add: kids_def grown_def)
  have g02: "grown st {child} st2" by (rule grown_trans[OF one(1) g12(1)]) auto
  have g04: "grown st {child..<child + length (g # gs)} st4" by (rule grown_trans[OF g02 g34]) auto
  have at: "?N st4 ! child = ?N st2 ! child" using g34 g12(1) room one(2) by (simp add: grown_def)
  have pre: "prefix (?A st1) (?A st2)" "prefix (?A st2) (?A st4)" using g12 g34 by (simp_all add: grown_def)
  have len: "length (?N st) \<le> length (?N st2)" "length (?N st2) \<le> length (?N st4)" using g02 g34 by (simp_all add: grown_def)
  have edge: "edge_ok (?A st4) (?N st4 ! child) d g"
    using edge_ok_extend[OF edge_ok_same[OF one(3) g12(2)] prefix_order.trans[OF pre]] at by simp
  have "nd_edge_len (?N st4 ! child) = nd_edge_len (?N st1 ! child)" using at g12(2) by (simp add: same_edge_def)
  have keep: "\<forall>j. length (?N st1) \<le> j \<longrightarrow> j < length (?N st2) \<longrightarrow> ?N st4 ! j = ?N st2 ! j"
    using g34 room one(2) by (simp add: grown_def)
  have "represents (?N st2) (?A st2) (length (?N st1)) (length (?N st2)) child (d + nd_edge_len (?N st4 ! child)) g"
    using two \<open>nd_edge_len (?N st4 ! child) = _\<close> by (simp add: framed_def)
  from represents_extend[OF this len(2) at keep pre(2) _ len(2) order_refl, of "length (?N st)"] one(2)
  have "represents (?N st4) (?A st4) (length (?N st)) (length (?N st4)) child (d + nd_edge_len (?N st4 ! child)) g" by simp
  moreover have "edge_ok (?A st4) (?N st4 ! (child + Suc j)) d (gs ! j)
      \<and> represents (?N st4) (?A st4) (length (?N st)) (length (?N st4)) (child + Suc j) (d + nd_edge_len (?N st4 ! (child + Suc j))) (gs ! j)"
    if "j < length gs" for j
    using three that len represents_mono[of "?N st4" "?A st4" "length (?N st2)" "length (?N st4)" _ _ _ "length (?N st)" "length (?N st4)"]
    unfolding kids_def by simp
  ultimately show ?thesis using g04 edge unfolding kids_def by (auto simp: less_Suc_eq_0_disj)
qed

text \<open>A frame whose children have all been run.\<close>

lemma framed_kids:
  assumes st: "build_ok st1" "p < length (items (rb_nodes st))" "items (rb_arena st1) = items (rb_arena st)"
    and nodes: "items (rb_nodes st1) = (items (rb_nodes st) @ replicate (length gs) node_empty)
      [p := (items (rb_nodes st) ! p)\<lparr>nd_sources := ss, nd_first_child := length (items (rb_nodes st)), nd_child_count := length gs\<rparr>]"
    and here: "\<forall>g. ss ! group_index g = source_at here g" "\<forall>(g, k, s) \<in> set here. length k = d"
    and bytes: "sorted_wrt (<) (map b gs)" "\<forall>g \<in> set gs. \<forall>(g', k, s) \<in> set g. k ! d = b g"
    and kids: "kids st1 (length (items (rb_nodes st))) d gs st2"
  shows "framed st p d (here @ concat gs) st2"
proof -
  let ?N = "\<lambda>st. items (rb_nodes st)" and ?A = "\<lambda>st. items (rb_arena st)"
  let ?fc = "length (?N st)"
  have len1: "length (?N st1) = ?fc + length gs" using nodes by simp
  have "grown st {p} st1" using st nodes by (simp add: grown_def nth_append)
  moreover have g12: "grown st1 {?fc..<?fc + length gs} st2" using kids by (simp add: kids_def)
  ultimately have grown: "grown st {p} st2" by (rule grown_trans) auto
  have at: "?N st2 ! p = (?N st ! p)\<lparr>nd_sources := ss, nd_first_child := ?fc, nd_child_count := length gs\<rparr>"
    using g12 len1 st(2) nodes by (simp add: grown_def)
  have len2: "?fc + length gs \<le> length (?N st2)" using g12 len1 by (simp add: grown_def)
  have kid: "edge_ok (?A st2) (?N st2 ! (?fc + j)) d (gs ! j)
      \<and> represents (?N st2) (?A st2) (?fc + length gs) (length (?N st2)) (?fc + j) (d + nd_edge_len (?N st2 ! (?fc + j))) (gs ! j)"
    if "j < length gs" for j using kids that len1 by (simp add: kids_def)
  have "nd_first_byte (?N st2 ! (?fc + j)) = b (gs ! j)" if j: "j < length gs" for j
  proof -
    have ok: "edge_ok (?A st2) (?N st2 ! (?fc + j)) d (gs ! j)" using kid[OF j] by simp
    then have "gs ! j \<noteq> []" by (simp add: edge_ok_def)
    then obtain g' k s where r: "(g', k, s) \<in> set (gs ! j)" by (cases "gs ! j") auto
    then have "k ! d = nd_first_byte (?N st2 ! (?fc + j))" using ok by (auto simp: edge_ok_def)
    moreover have "k ! d = b (gs ! j)" using bytes(2)[rule_format, OF nth_mem[OF j]] r by auto
    ultimately show ?thesis by simp
  qed
  then have "map nd_first_byte (slice ?fc (?fc + length gs) (?N st2)) = map b gs"
    using len2 by (intro nth_equalityI) (auto simp: slice_def)
  then have "represents (?N st2) (?A st2) ?fc (length (?N st2)) p d (here @ concat gs)"
    using at bytes(1) here len2 st(2) kid
    by (intro represents.intros[where here = here and gs = gs and fc = ?fc]) simp_all
  with grown at show ?thesis by (simp add: framed_def same_edge_def)
qed

text \<open>The bytes of the keys beyond the depth pay for the rounds.\<close>

definition weight :: "bytes \<Rightarrow> nat \<Rightarrow> rule_record list \<Rightarrow> nat" where
  "weight arena d rs = sum_list (map (\<lambda>r. length (record_key arena r) - d) rs)"

lemma weight_append [simp]: "weight arena d (xs @ ys) = weight arena d xs + weight arena d ys"
  by (simp add: weight_def)

lemma weight_deeper:
  assumes "g \<noteq> []" "d < c" "\<forall>r \<in> set g. c \<le> length (record_key arena r)"
  shows "weight arena c g < weight arena d g"
  using assms
proof (induction g)
  case (Cons r g)
  have "length (record_key arena r) - c < length (record_key arena r) - d" using Cons.prems(2,3) by (intro diff_less_mono2) auto
  moreover have "weight arena c g \<le> weight arena d g"
    using Cons by (cases g) (auto simp: weight_def)
  ultimately show ?case by (simp add: weight_def)
qed simp

lemma weight_rest: "weight arena d (dropWhile P rs) \<le> weight arena d rs"
proof -
  have "weight arena d (takeWhile P rs @ dropWhile P rs) = weight arena d (takeWhile P rs) + weight arena d (dropWhile P rs)" by (rule weight_append)
  then show ?thesis by simp
qed

lemma rules_of_append_list [simp]: "rules_of arena (xs @ ys) = rules_of arena xs @ rules_of arena ys"
  by (simp add: rules_of_def)

lemma rules_of_concat: "rules_of arena (concat gs) = concat (map (rules_of arena) gs)"
  by (induction gs) (simp_all add: rules_of_def)

text \<open>The edge of a freshly written child.\<close>

lemma new_edge:
  assumes "slice_ok arena d g" "g \<noteq> []" "\<forall>r \<in> set g. d < length (record_key arena r)"
    and "record_key arena (last g) ! d = record_key arena (hd g) ! d" "\<forall>r \<in> set g. record_key arena r ! d = record_key arena (hd g) ! d"
    and "nd_edge_offset c = length A" "nd_edge_len c = edge_end arena d g - d" "nd_first_byte c = record_key arena (hd g) ! d"
  shows "edge_ok (A @ take (edge_end arena d g - d) (drop d (record_key arena (hd g)))) c d (rules_of arena g)"
proof -
  let ?e = "edge_end arena d g" and ?first = "record_key arena (hd g)"
  note edge = run_edge(2)[OF assms(1-4)]
  have "?e \<le> length ?first" "d < ?e" using edge[OF hd_in_set[OF assms(2)]] by (simp_all add: edge_end_def)
  then have len: "length (take (?e - d) (drop d ?first)) = ?e - d" by simp
  have key: "d + nd_edge_len c \<le> length k \<and> k ! d = nd_first_byte c \<and> take (nd_edge_len c) (drop d k) = take (?e - d) (drop d ?first)"
    if r: "(g', k, s) \<in> set (rules_of arena g)" for g' k s
  proof -
    obtain r where r: "r \<in> set g" "k = record_key arena r" using r by (auto simp: rules_of_def)
    have "take (?e - d) (drop d k) = take (?e - d) (drop d ?first)" using edge[OF r(1)] r(2) by (simp add: take_drop \<open>d < ?e\<close> less_imp_le)
    then show ?thesis using edge[OF r(1)] r(2) assms(5)[rule_format, OF r(1)] assms(7,8) \<open>d < ?e\<close> by simp
  qed
  have "rules_of arena g \<noteq> []" using assms(2) by (simp add: rules_of_def)
  then show ?thesis unfolding edge_ok_def using key assms(6,7) \<open>d < ?e\<close> len by (auto simp: slice_def)
qed

definition frame_pre :: "bytes \<Rightarrow> rule_record list \<Rightarrow> nat \<Rightarrow> nat \<Rightarrow> nat \<Rightarrow> nat \<Rightarrow> frame list \<Rightarrow> build \<Rightarrow> rule_record list \<Rightarrow> bool" where
  "frame_pre arena R p s e d fs st sl \<longleftrightarrow> build_ok st \<and> p < length (items (rb_nodes st))
     \<and> nd_sources (items (rb_nodes st) ! p) = [NONE, NONE, NONE, NONE]
     \<and> slice s e R = sl \<and> s \<le> e \<and> e \<le> length R \<and> slice_ok arena d sl \<and> length fs \<le> d"

lemma child_pre:
  assumes "slice_ok arena d (g @ rest)" "\<forall>r \<in> set (g @ rest). d < length (record_key arena r)" "runs (\<lambda>r. record_key arena r ! d) (g @ rest) = g # gs"
  shows "slice_ok arena d g" "g \<noteq> []" "\<forall>r \<in> set g. d < length (record_key arena r)"
    "record_key arena (last g) ! d = record_key arena (hd g) ! d" "\<forall>r \<in> set g. record_key arena r ! d = record_key arena (hd g) ! d"
proof -
  have "g \<in> set (runs (\<lambda>r. record_key arena r ! d) (g @ rest))" unfolding assms(3) by simp
  note same = runs_same[OF this]
  show "g \<noteq> []" "\<forall>r \<in> set g. record_key arena r ! d = record_key arena (hd g) ! d" using same by blast+
  then show "record_key arena (last g) ! d = record_key arena (hd g) ! d" using last_in_set by blast
  show "slice_ok arena d g" "\<forall>r \<in> set g. d < length (record_key arena r)" using slice_ok_append[OF assms(1)] assms(2) by simp_all
qed

lemma here_lengths:
  assumes "slice_ok arena d here" "\<forall>r \<in> set here. e_len (rec_entry r) = d"
  shows "\<forall>(g, k, s) \<in> set (rules_of arena here). length k = d"
proof -
  have "length (record_key arena r) = d" if "r \<in> set here" for r
    using assms(1)[unfolded slice_ok_def, THEN conjunct1, rule_format, OF that] assms(2)[rule_format, OF that] by simp
  then show ?thesis by (auto simp: rules_of_def)
qed

lemma run_bytes:
  assumes "slice_ok arena d rs" "\<forall>r \<in> set rs. d < length (record_key arena r)"
  defines "gs \<equiv> runs (\<lambda>r. record_key arena r ! d) rs"
  shows "sorted_wrt (<) (map (\<lambda>g. fst (snd (hd g)) ! d) (map (rules_of arena) gs))"
    "\<forall>g \<in> set (map (rules_of arena) gs). \<forall>(g', k, s) \<in> set g. k ! d = fst (snd (hd g)) ! d"
proof -
  have hd: "fst (snd (hd (rules_of arena g))) = record_key arena (hd g)" if "g \<in> set gs" for g
    using runs_same[OF that[unfolded gs_def], THEN conjunct1] by (cases g) (simp_all add: rules_of_def)
  have "map (\<lambda>g. fst (snd (hd g)) ! d) (map (rules_of arena) gs) = map ((\<lambda>r. record_key arena r ! d) \<circ> hd) gs" using hd by simp
  then show "sorted_wrt (<) (map (\<lambda>g. fst (snd (hd g)) ! d) (map (rules_of arena) gs))"
    using runs_sorted[OF bytes_sorted[OF assms(1,2)], folded gs_def] by (simp only:)
  have "record_key arena r ! d = fst (snd (hd (rules_of arena g))) ! d" if "g \<in> set gs" "r \<in> set g" for g r
    unfolding hd[OF that(1)] by (rule runs_same[OF that(1)[unfolded gs_def], THEN conjunct2, rule_format, OF that(2)])
  then show "\<forall>g \<in> set (map (rules_of arena) gs). \<forall>(g', k, s) \<in> set g. k ! d = fst (snd (hd g)) ! d"
    by (auto simp: rules_of_def)
qed

context alloc
begin

text \<open>The round that opens the next child.\<close>

lemma child_run:
  assumes sl: "slice s e R = g @ rest" "s < e" "e \<le> length R" "slice_ok arena d (g @ rest)" "\<forall>r \<in> set (g @ rest). d < length (record_key arena r)"
      "runs (\<lambda>r. record_key arena r ! d) (g @ rest) = g # gs"
    and st: "build_ok st" "child < length (items (rb_nodes st))"
    and f: "fr_start f = s" "fr_end f = e" "fr_depth f = d" "fr_next f = Some child" "length fs \<le> d"
  defines "f' \<equiv> f\<lparr>fr_start := s + length g, fr_next := Some (child + 1)\<rparr>" and "c \<equiv> edge_end arena d g"
  shows "(\<exists>err. cont A check arena R f fs st = (\<lambda>n. Some (Inl err)))
    \<or> (\<exists>st1. cont A check arena R f fs st = (\<lambda>n. children n A check arena R (frame_new child s (s + length g) c # f' # fs) st1)
       \<and> frame_pre arena R child s (s + length g) c (f' # fs) st1 g
       \<and> grown st {child} st1 \<and> length (items (rb_nodes st1)) = length (items (rb_nodes st))
       \<and> edge_ok (items (rb_arena st1)) (items (rb_nodes st1) ! child) d (rules_of arena g)
       \<and> d + nd_edge_len (items (rb_nodes st1) ! child) = c)"
proof -
  note g = child_pre[OF sl(4-6)]
  have "d < 254" using sl(4) g(2,3) unfolding slice_ok_def by (cases g) force+
  then have room: "\<not> MAX_BUILD_DEPTH \<le> length fs + 1" using f(5) by (simp add: MAX_BUILD_DEPTH_def)
  have deeper: "d < c" by (simp add: c_def edge_end_def)
  obtain res where res: "open_child A check arena R f child st = Some res" and ok: "\<forall>f'' cf st'. res = Inr (f'', cf, st') \<longrightarrow>
     f'' = f' \<and> cf = frame_new child s (s + length g) c
     \<and> build_ok st' \<and> items (rb_arena st') = items (rb_arena st) @ take (c - d) (drop d (record_key arena (hd g)))
     \<and> items (rb_nodes st') = (items (rb_nodes st))
         [child := node_empty\<lparr>nd_edge_offset := length (items (rb_arena st)), nd_edge_len := c - d, nd_first_byte := record_key arena (hd g) ! d\<rparr>]"
    using open_child_ok[OF st sl(1-3,6,4,5) f(1-3), of check] unfolding f'_def c_def by (elim exE conjE)
  show ?thesis
  proof (cases res)
    case (Inl err)
    then have "cont A check arena R f fs st = (\<lambda>n. Some (Inl err))" using res f(1-4) sl(2) by (auto simp: cont_def resume_def)
    then show ?thesis by blast
  next
    case (Inr t)
    then obtain f'' cf st1 where t: "res = Inr (f'', cf, st1)" by (cases t) auto
    note st1 = ok[rule_format, OF t]
    have "cont A check arena R f fs st = (\<lambda>n. children n A check arena R (frame_new child s (s + length g) c # f' # fs) st1)"
      using res t st1 f(1-4) sl(2) room by (auto simp: cont_def resume_def)
    moreover have "frame_pre arena R child s (s + length g) c (f' # fs) st1 g"
      unfolding frame_pre_def using st1 slice_parts(2,3)[OF sl(1) _ sl(3)] sl(2,3) f(5) st(2) deeper run_edge(1)[OF g(1-4)]
      by (simp add: node_empty_def c_def)
    moreover have "grown st {child} st1" "edge_ok (items (rb_arena st1)) (items (rb_nodes st1) ! child) d (rules_of arena g)"
      "d + nd_edge_len (items (rb_nodes st1) ! child) = c" "length (items (rb_nodes st1)) = length (items (rb_nodes st))"
      using st1 new_edge[OF g(1-5)] st(2) deeper by (simp_all add: grown_def c_def)
    ultimately show ?thesis by blast
  qed
qed

lemma resume_leads:
  assumes "fr_next f = Some c" "\<And>st'. count_step check st = Inr st' \<Longrightarrow> leads A check arena R K (cont A check arena R f fs st') fs Q"
  shows "leads A check arena R (Suc K) (\<lambda>n. children n A check arena R (f # fs) st) fs Q"
proof (rule leads_step)
  let ?Y = "\<lambda>n. case count_step check st of Inl e \<Rightarrow> Some (Inl e) | Inr st \<Rightarrow> cont A check arena R f fs st n"
  show "children (Suc n) A check arena R (f # fs) st = ?Y n" for n by (rule children_resume[OF assms(1)])
  show "leads A check arena R K ?Y fs Q"
    using assms(2) by (cases "count_step check st") (simp_all add: leads_error)
qed

text \<open>Running the children of a frame, when smaller frames run.\<close>

lemma kids_ok:
  assumes IH: "\<And>g s e p d fs st. frame_pre arena R p s e d fs st g \<Longrightarrow> weight arena d g < W \<Longrightarrow>
      leads A check arena R (2 * weight arena d g + 1) (\<lambda>n. children n A check arena R (frame_new p s e d # fs) st) fs (framed st p d (rules_of arena g))"
    and "runs (\<lambda>r. record_key arena r ! d) sl = gs" "slice s e R = sl" "s \<le> e" "e \<le> length R" "slice_ok arena d sl"
      "\<forall>r \<in> set sl. d < length (record_key arena r)" "weight arena d sl \<le> W" "build_ok st"
      "child + length gs \<le> length (items (rb_nodes st))" "fr_start f = s" "fr_end f = e" "fr_depth f = d" "fr_next f = Some child" "length fs \<le> d"
  shows "leads A check arena R (2 * weight arena d sl) (cont A check arena R f fs st) fs (kids st child d (map (rules_of arena) gs))"
  using assms(2-)
proof (induction gs arbitrary: sl s st child f)
  case Nil
  then have "sl = []" using concat_runs[of "\<lambda>r. record_key arena r ! d" sl] by simp
  then have "s = e" using Nil.prems(2-4) by (auto simp: slice_def)
  then have "cont A check arena R f fs st = (\<lambda>n. children n A check arena R fs st)" using Nil.prems by (auto simp: cont_def resume_def)
  moreover have "kids st child d [] st" using Nil.prems by (simp add: kids_def grown_def)
  ultimately show ?case using leads_here[of "kids st child d []" st] by simp
next
  case (Cons g gs)
  let ?byte = "\<lambda>r. record_key arena r ! d" and ?c = "edge_end arena d g"
  let ?f = "f\<lparr>fr_start := s + length g, fr_next := Some (child + 1)\<rparr>"
  define rest where "rest = concat gs"
  have sl: "sl = g @ rest" using concat_runs[of ?byte sl] Cons.prems(1) by (simp add: rest_def)
  have runs_rest: "runs ?byte rest = gs"
    using Cons.prems(1) concat_runs[of ?byte] by (cases sl) (auto simp: rest_def)
  note p = Cons.prems[unfolded sl]
  note g = child_pre[OF p(5,6,1)]
  have rest: "slice_ok arena d rest" "\<forall>r \<in> set rest. d < length (record_key arena r)" using slice_ok_append[OF p(5)] p(6) by simp_all
  have parts: "slice (s + length g) e R = rest" "s + length g \<le> e" using slice_parts[OF p(2-4)] by (auto simp: algebra_simps)
  have "s < e" using parts(2) g(2) by (cases g) auto
  have wt: "weight arena ?c g < weight arena d g"
    using weight_deeper[OF g(2), of d ?c arena] run_edge(2)[OF g(1-4)] by (simp add: edge_end_def)
  have child: "child < length (items (rb_nodes st))" using p(9) by simp
  consider (err) err where "cont A check arena R f fs st = (\<lambda>n. Some (Inl err))"
    | (run) st1 where "cont A check arena R f fs st = (\<lambda>n. children n A check arena R (frame_new child s (s + length g) ?c # ?f # fs) st1)"
       "frame_pre arena R child s (s + length g) ?c (?f # fs) st1 g" "grown st {child} st1" "length (items (rb_nodes st1)) = length (items (rb_nodes st))"
       "edge_ok (items (rb_arena st1)) (items (rb_nodes st1) ! child) d (rules_of arena g)" "d + nd_edge_len (items (rb_nodes st1) ! child) = ?c"
    using child_run[OF p(2) \<open>s < e\<close> p(4-6,1,8) child p(10-14), of check] by blast
  then show ?case
  proof cases
    case err
    then show ?thesis using leads_error by simp
  next
    case run
    have "leads A check arena R (Suc (2 * weight arena d rest)) (\<lambda>n. children n A check arena R (?f # fs) st2) fs
        (kids st child d (map (rules_of arena) (g # gs)))"
      if two: "framed st1 child ?c (rules_of arena g) st2" for st2
    proof (rule resume_leads)
      fix st3 assume "count_step check st2 = Inr st3"
      note same = count_step_ok[OF this]
      have ok: "build_ok st3" "length (items (rb_nodes st)) \<le> length (items (rb_nodes st3))"
        using two same run(4) by (auto simp: framed_def grown_def build_ok_def)
      have "leads A check arena R (2 * weight arena d rest) (cont A check arena R ?f fs st3) fs (kids st3 (child + 1) d (map (rules_of arena) gs))"
        by (rule Cons.IH[OF runs_rest parts p(4) rest]) (use p(7,9-14) ok in simp_all)
      then show "leads A check arena R (2 * weight arena d rest) (cont A check arena R ?f fs st3) fs (kids st child d (map (rules_of arena) (g # gs)))"
        by (rule leads_mono) (use kids_Cons[OF _ run(3-5) two[folded run(6)]] same p(9) in auto)
    qed simp
    note later = this
    have less: "weight arena ?c g < W" using wt p(7) by simp
    have sum: "2 * weight arena ?c g + 1 + Suc (2 * weight arena d rest) \<le> 2 * weight arena d (g @ rest)" using wt by simp
    show ?thesis unfolding run(1) sl by (rule leads_mono[OF leads_seq[OF IH[OF run(2) less] later] sum])
  qed
qed

lemma fresh_leads:
  assumes IH: "\<And>g s e p d fs st. frame_pre arena R p s e d fs st g \<Longrightarrow> weight arena d g < weight arena d' sl \<Longrightarrow>
      leads A check arena R (2 * weight arena d g + 1) (\<lambda>n. children n A check arena R (frame_new p s e d # fs) st) fs (framed st p d (rules_of arena g))"
    and pre: "frame_pre arena R p s e d' fs st sl" and opened: "open_frame A check arena R (frame_new p s e d') st = Some (Inr (f, st1))"
  shows "leads A check arena R (2 * weight arena d' sl) (cont A check arena R f fs st1) fs (framed st p d' (rules_of arena sl))"
proof -
  let ?P = "\<lambda>r. e_len (rec_entry r) = d'" and ?byte = "\<lambda>r. record_key arena r ! d'" and ?N = "items (rb_nodes st)"
  let ?here = "takeWhile ?P sl" and ?rest = "dropWhile ?P sl"
  let ?gs = "runs ?byte ?rest"
  from pre have p: "build_ok st" "p < length ?N" "nd_sources (?N ! p) = [NONE, NONE, NONE, NONE]"
    "slice s e R = sl" "s \<le> e" "e \<le> length R" "slice_ok arena d' sl" "length fs \<le> d'" by (simp_all add: frame_pre_def)
  from open_frame_ok[OF p(1-7), of check] opened obtain ss where
    f: "f = \<lparr>fr_parent = p, fr_start = e - length ?rest, fr_end = e, fr_depth = d', fr_next = Some (length ?N)\<rparr>"
    and st1: "build_ok st1" "items (rb_arena st1) = items (rb_arena st)"
    and ss: "\<forall>g. ss ! group_index g = source_at (rules_of arena ?here) g"
    and nodes: "items (rb_nodes st1) = (?N @ replicate (length ?gs) node_empty)
      [p := (?N ! p)\<lparr>nd_sources := ss, nd_first_child := length ?N, nd_child_count := length ?gs\<rparr>]" by auto
  have split: "slice_ok arena d' ?here" "slice_ok arena d' ?rest"
    using slice_ok_append[of arena d' ?here ?rest, unfolded takeWhile_dropWhile_id, OF p(7)] by simp_all
  have long: "\<forall>r \<in> set ?rest. d' < length (record_key arena r)" using rest_longer[OF p(7)] by simp
  have tail: "slice (e - length ?rest) e R = ?rest" using slice_parts(1)[of s e R ?here ?rest] p(4-6) by simp
  have "leads A check arena R (2 * weight arena d' ?rest) (cont A check arena R f fs st1) fs (kids st1 (length ?N) d' (map (rules_of arena) ?gs))"
    by (rule kids_ok[OF IH refl tail _ p(6) split(2) long weight_rest st1(1)]) (use f nodes p(8) in simp_all)
  then show ?thesis
  proof (rule leads_mono)
    show "2 * weight arena d' ?rest \<le> 2 * weight arena d' sl" using weight_rest by simp
    fix st2 assume kids: "kids st1 (length ?N) d' (map (rules_of arena) ?gs) st2"
    have "rules_of arena sl = rules_of arena ?here @ concat (map (rules_of arena) ?gs)"
      using rules_of_append_list[of arena ?here ?rest] rules_of_concat[of arena ?gs] by simp
    moreover have "framed st p d' (rules_of arena ?here @ concat (map (rules_of arena) ?gs)) st2"
    proof (rule framed_kids[OF st1(1) p(2) st1(2) _ ss _ _ _ kids])
      show "\<forall>(g, k, s) \<in> set (rules_of arena ?here). length k = d'" by (rule here_lengths[OF split(1)]) (auto dest: set_takeWhileD)
    qed (use nodes run_bytes[OF split(2) long] in simp_all)
    ultimately show "framed st p d' (rules_of arena sl) st2" by simp
  qed
qed

lemma frame_ok:
  assumes "frame_pre arena R p s e d fs st sl"
  shows "leads A check arena R (2 * weight arena d sl + 1) (\<lambda>n. children n A check arena R (frame_new p s e d # fs) st) fs
    (framed st p d (rules_of arena sl))"
  using assms
proof (induction "weight arena d sl" arbitrary: p s e d fs st sl rule: less_induct)
  case less
  let ?Y = "\<lambda>n. case count_step check st of Inl e \<Rightarrow> Some (Inl e) | Inr st \<Rightarrow>
    (case open_frame A check arena R (frame_new p s e d) st of None \<Rightarrow> None | Some (Inl e) \<Rightarrow> Some (Inl e)
     | Some (Inr (f, st)) \<Rightarrow> cont A check arena R f fs st n)"
  have "leads A check arena R (2 * weight arena d sl) ?Y fs (framed st p d (rules_of arena sl))"
  proof (cases "count_step check st")
    case (Inr st0)
    note same = count_step_ok[OF Inr]
    have pre: "frame_pre arena R p s e d fs st0 sl" using less.prems same by (simp add: frame_pre_def build_ok_def)
    then obtain res where res: "open_frame A check arena R (frame_new p s e d) st0 = Some res"
      using open_frame_ok[of st0 p s e R sl arena d check] unfolding frame_pre_def by (elim conjE) blast
    show ?thesis
    proof (cases res)
      case (Inl err)
      then show ?thesis using Inr res leads_error by simp
    next
      case r: (Inr fst1)
      obtain f st1 where fst1: "fst1 = (f, st1)" by (cases fst1)
      have "framed st0 p d (rules_of arena sl) = framed st p d (rules_of arena sl)" using same by (simp add: framed_def grown_def fun_eq_iff)
      then show ?thesis using fresh_leads[OF less.hyps pre res[unfolded r fst1]] Inr res r fst1 by simp
    qed
  qed (simp add: leads_error)
  then show ?case unfolding Suc_eq_plus1[symmetric] by (rule leads_step) (rule children_fresh)
qed

end

subsection \<open>The index of the canonical rules\<close>

lemma canonical_slice:
  assumes "canonical_ok c"
  defines "R \<equiv> sort_key (build_order_key (ca_arena c)) (ca_records c)"
  shows "slice_ok (ca_arena c) 0 R" "build_fuel R = 2 * weight (ca_arena c) 0 R + 2"
proof -
  have len: "e_len (rec_entry r) = length (record_key (ca_arena c) r) \<and> length (record_key (ca_arena c) r) \<le> 254" if "r \<in> set R" for r
  proof -
    have "record_ok (ca_arena c) r" using assms(1) that by (simp add: canonical_ok_def R_def)
    then have "length (record_key (ca_arena c) r) = e_len (rec_entry r)" "key_ok (record_key (ca_arena c) r)"
      by (auto simp: record_ok_def key_at_def)
    then show ?thesis using key_ok_length[of "record_key (ca_arena c) r"] by simp
  qed
  have "sorted (map (build_order_key (ca_arena c)) R)" unfolding R_def by (rule sorted_sort_key)
  then have "sorted (map (record_key (ca_arena c)) R)"
    using sorted_map_fst[of "record_key (ca_arena c)" "\<lambda>r. group_index (rec_group r)" R] by (simp add: build_order_key_def[abs_def])
  moreover have "distinct (map (\<lambda>r. (rec_group r, record_key (ca_arena c) r)) R)"
    using assms(1) unfolding canonical_ok_def R_def distinct_map by simp
  ultimately show "slice_ok (ca_arena c) 0 R" using len by (auto simp: slice_ok_def)
  have "map (\<lambda>r. e_len (rec_entry r)) R = map (\<lambda>r. length (record_key (ca_arena c) r) - 0) R" using len by simp
  then show "build_fuel R = 2 * weight (ca_arena c) 0 R + 2" by (simp only: build_fuel_def weight_def)
qed

lemma canonical_rules:
  assumes "canonical_ok c"
  shows "uniq (rules_of (ca_arena c) (ca_records c))" "\<forall>(g, k, s) \<in> set (rules_of (ca_arena c) (ca_records c)). s \<noteq> NONE"
proof -
  have dist: "inj_on (\<lambda>r. (rec_group r, record_key (ca_arena c) r)) (set (ca_records c))"
    using assms unfolding canonical_ok_def distinct_map by blast
  show "uniq (rules_of (ca_arena c) (ca_records c))" unfolding uniq_def
  proof (intro allI impI)
    fix g k s s'
    assume "(g, k, s) \<in> set (rules_of (ca_arena c) (ca_records c))" "(g, k, s') \<in> set (rules_of (ca_arena c) (ca_records c))"
    then obtain r r' where r: "r \<in> set (ca_records c)" "r' \<in> set (ca_records c)"
      "(g, k, s) = (rec_group r, record_key (ca_arena c) r, e_slot (rec_entry r))"
      "(g, k, s') = (rec_group r', record_key (ca_arena c) r', e_slot (rec_entry r'))" by (auto simp: rules_of_def)
    then have "r = r'" using inj_onD[OF dist] by simp
    with r show "s = s'" by simp
  qed
  show "\<forall>(g, k, s) \<in> set (rules_of (ca_arena c) (ca_records c)). s \<noteq> NONE"
    using assms by (auto simp: canonical_ok_def record_ok_def rules_of_def NONE_def)
qed

lemma leads_done:
  assumes "leads A check arena R K (\<lambda>n. children n A check arena R fs st) [] Q" "K < n"
  shows "(\<exists>e. children n A check arena R fs st = Some (Inl e)) \<or> (\<exists>st'. children n A check arena R fs st = Some (Inr st') \<and> Q st')"
proof -
  obtain k where k: "k \<le> K" "(\<exists>e. \<forall>n. children (n + k) A check arena R fs st = Some (Inl e))
      \<or> (\<exists>st'. Q st' \<and> (\<forall>n. children (n + k) A check arena R fs st = children n A check arena R [] st'))"
    using assms(1) unfolding leads_def by blast
  then obtain m where "n = Suc m + k" using assms(2) by (metis add_diff_inverse_nat add.commute le_less_trans less_imp_Suc_add not_less_iff_gr_or_eq add_Suc_right)
  with k(2) show ?thesis by (auto dest: spec[of _ "Suc m"])
qed

context alloc
begin

lemma build_index_ok:
  assumes "canonical_ok c"
  shows "\<exists>res. build_index A check c = Some res \<and> (\<forall>ix. res = Inr ix \<longrightarrow> index_ok ix (rules_of (ca_arena c) (ca_records c)))"
proof -
  let ?R = "sort_key (build_order_key (ca_arena c)) (ca_records c)"
  have bu: "budget_ok (ca_budget c)" "bu_limit (ca_budget c) \<le> 512 * 1024 * 1024" using assms by (simp_all add: canonical_ok_def)
  obtain r1 bu1 where g1: "grow A size_of_node (vec_new :: node rvec) 1 (ca_budget c) = (r1, bu1)" by fastforce
  obtain r2 bu2 where g2: "grow A size_of_frame (vec_new :: frame rvec) MAX_BUILD_DEPTH bu1 = (r2, bu2)" by fastforce
  consider (err) e where "build_index A check c = Some (Inl e)"
    | (run) nodes scratch where "check 0 = None" "check 1 = None" "r1 = Inr nodes" "r2 = Inr scratch"
    using g1 g2 by (cases "check 0"; cases "check 1"; cases r1; cases r2) (auto simp: build_index_def Let_def)
  then show ?thesis
  proof cases
    case err
    then show ?thesis by simp
  next
    case run
    let ?st = "\<lparr>rb_nodes = nodes\<lparr>items := [node_empty]\<rparr>, rb_arena = vec_new, rb_budget = bu2, rb_calls = 2, rb_processed = 0\<rparr>"
    have n: "1 \<le> cap nodes" "budget_ok bu1" "bu_limit bu1 = bu_limit (ca_budget c)" "cap nodes * size_of_node \<le> bu_live bu1"
      using grow_ok[OF g1[unfolded run(3)] bu(1)] by (simp_all add: vec_new_def)
    have f: "budget_ok bu2" "bu_limit bu2 = bu_limit bu1" "bu_live bu1 \<le> bu_live bu2"
      using grow_ok[OF g2[unfolded run(4)] n(2)] by (simp_all add: vec_new_def)
    have ok: "build_ok ?st" using n f bu(2) by (simp add: build_ok_def vec_new_def)
    have "frame_pre (ca_arena c) ?R 0 0 (length ?R) 0 [] ?st ?R"
      unfolding frame_pre_def using ok canonical_slice(1)[OF assms] by (simp add: slice_def node_empty_def)
    note leads_done[OF frame_ok[OF this], of "build_fuel ?R" check]
    then have "(\<exists>e. children (build_fuel ?R) A check (ca_arena c) ?R [frame_new 0 0 (length ?R) 0] ?st = Some (Inl e))
        \<or> (\<exists>st. children (build_fuel ?R) A check (ca_arena c) ?R [frame_new 0 0 (length ?R) 0] ?st = Some (Inr st)
             \<and> framed ?st 0 0 (rules_of (ca_arena c) ?R) st)" using canonical_slice(2)[OF assms] by simp
    then show ?thesis
    proof (elim disjE exE conjE)
      fix e assume "children (build_fuel ?R) A check (ca_arena c) ?R [frame_new 0 0 (length ?R) 0] ?st = Some (Inl e)"
      then show ?thesis using g1 g2 run by (simp add: build_index_def Let_def)
    next
      fix st assume c: "children (build_fuel ?R) A check (ca_arena c) ?R [frame_new 0 0 (length ?R) 0] ?st = Some (Inr st)"
        and fr: "framed ?st 0 0 (rules_of (ca_arena c) ?R) st"
      have "set (rules_of (ca_arena c) ?R) = set (rules_of (ca_arena c) (ca_records c))" by (simp add: rules_of_def)
      then have "index_ok ix (rules_of (ca_arena c) (ca_records c))"
        if "ix_nodes ix = items (rb_nodes st)" "ix_arena ix = items (rb_arena st)" for ix
        using fr that canonical_rules[OF assms] by (auto simp: index_ok_def framed_def)
      then show ?thesis using g1 g2 run c by (simp add: build_index_def Let_def split: option.split)
    qed
  qed
qed

end

lemma lookup_spec_finds:
  assumes "lookup_spec (hit_set rs q) None m"
  shows "(m = None \<longleftrightarrow> \<not> allows rs q \<and> blocking rs q = []) \<and>
    (case m of None \<Rightarrow> True | Some x \<Rightarrow> is_allow (m_group x) = allows rs q \<and> x \<in> to_match ` hit_set rs q)"
proof (cases "allows rs q")
  case True
  then obtain r where "r \<in> hit_set rs q" "is_allow (fst r)" "m = Some (to_match r)"
    using assms by (auto simp: lookup_spec_def allows_hit_set)
  moreover have "m_group (to_match r) = fst r" by (cases r) simp
  ultimately show ?thesis using True by auto
next
  case False
  have block: "\<not> is_allow (fst r)" if "r \<in> hit_set rs q" for r using that False by (auto simp: allows_hit_set)
  then have "blocking rs q = [] \<longleftrightarrow> hit_set rs q = {}" by (auto simp: blocking_def hit_set_def filter_empty_conv)
  moreover have "m_group (to_match r) = fst r" for r by (cases r) simp
  ultimately show ?thesis using assms False block by (auto simp: lookup_spec_def allows_hit_set split: option.splits)
qed

text \<open>C32. The radix index implements the reference decision on the canonical rules. Building it never panics and
  never runs out of rounds or stack, whatever the allocator and the cancellation do; on a finished
  index \<open>block_match\<close> returns exactly the rule the reference decision chooses, and \<open>lookup\<close> finds a rule that
  applies to the name, an allow rule when there is one.\<close>

theorem index_refines:
  assumes "alloc A" "canonical_ok c" "key_query name = Some q"
  defines "rules \<equiv> rules_of (ca_arena c) (ca_records c)"
  shows "\<exists>res. build_index A check c = Some res \<and>
    (case res of Inl e \<Rightarrow> True | Inr ix \<Rightarrow>
       block_match ix name ls = Some (map_option to_match (decide ls rules q)) \<and>
       (\<exists>m. lookup ix name = Some m \<and> (m = None \<longleftrightarrow> \<not> allows rules q \<and> blocking rules q = []) \<and>
          (case m of None \<Rightarrow> True | Some x \<Rightarrow> is_allow (m_group x) = allows rules q \<and> x \<in> to_match ` {r \<in> set rules. hits r q})))"
proof -
  obtain res where res: "build_index A check c = Some res" "\<forall>ix. res = Inr ix \<longrightarrow> index_ok ix rules"
    using alloc.build_index_ok[OF assms(1,2), of check] unfolding rules_def by blast
  show ?thesis
  proof (cases res)
    case (Inr ix)
    then have ok: "index_ok ix rules" using res(2) by simp
    from lookup_finds[OF ok assms(3)] obtain m where "lookup ix name = Some m" "lookup_spec (hit_set rules q) None m" by blast
    with lookup_spec_finds[of rules q m] show ?thesis using res(1) Inr block_match_decide[OF ok assms(3)]
      unfolding hit_set_def[symmetric] by simp
  qed (use res in simp)
qed

definition demo_canonical :: canonical where
  "demo_canonical = \<lparr>ca_arena = [1, 97, 1, 97, 1, 98],
     ca_records = [\<lparr>rec_entry = \<lparr>e_offset = 2, e_len = 4, e_slot = 1\<rparr>, rec_group = AllowExact\<rparr>,
       \<lparr>rec_entry = \<lparr>e_offset = 0, e_len = 2, e_slot = 0\<rparr>, rec_group = BlockSuffix\<rparr>],
     ca_budget = \<lparr>bu_live = 0, bu_peak = 0, bu_limit = 100000\<rparr>, ca_semantic_digest = [], ca_input_rules = 2\<rparr>"

lemma children_numeral:
  "children (numeral k) A check arena records (f # frames) st =
     (case build_step A check arena records f (length frames) st of
        None \<Rightarrow> None
      | Some (Inl e) \<Rightarrow> Some (Inl e)
      | Some (Inr (pushed, st)) \<Rightarrow> children (pred_numeral k) A check arena records (pushed @ frames) st)"
  "children (numeral k) A check arena records [] st = Some (Inr st)"
  by (simp_all add: numeral_eq_Suc)

lemmas build_eval = build_index_def build_order_key_def key_at_def grow_def grow_into_def vec_new_def
    exact_alloc_def checked_add_def checked_mul_def usize_max_def bu_reserve_def bu_release_def size_of_node_def size_of_frame_def MAX_BUILD_DEPTH_def
    build_fuel_def children_numeral build_step_def count_step_def open_frame_def open_child_def resume_def frame_new_def slice_def node_empty_def
    as_u32_def as_u16_def as_u8_def


lemma demo_canonical_build: "\<exists>ix. build_index exact_alloc (\<lambda>_. None) demo_canonical = Some (Inr ix)"
  by (simp add: demo_canonical_def build_eval Let_def nat_dvd_not_less)

lemma demo_canonical_ok: "canonical_ok demo_canonical"
proof -
  have "key_ok [1, 97]" unfolding key_ok_def by (rule exI[of _ "[[97]]"]) (simp add: label_ok_def enc_key_def enc_label_def to_ascii_lowercase_def is_ascii_uppercase_def)
  moreover have "key_ok [1, 97, 1, 98]" unfolding key_ok_def by (rule exI[of _ "[[97], [98]]"]) (simp add: label_ok_def enc_key_def enc_label_def to_ascii_lowercase_def is_ascii_uppercase_def)
  ultimately show ?thesis by (simp add: canonical_ok_def demo_canonical_def record_ok_def key_at_def budget_ok_def)
qed

lemma demo_names: "key_query [[98], [97]] = Some [1, 97, 1, 98]" "key_query [[99], [97]] = Some [1, 97, 1, 99]"
  by (simp_all add: key_query_def push_def to_ascii_lowercase_def is_ascii_uppercase_def)

theorem index_refines_witness:
  "\<exists>ix. build_index exact_alloc (\<lambda>_. None) demo_canonical = Some (Inr ix)
     \<and> block_match ix [[98], [97]] 1 = Some None
     \<and> block_match ix [[99], [97]] 1 = Some (Some \<lparr>m_group = BlockSuffix, m_slot = 0, m_len = 2\<rparr>)"
proof -
  obtain ix where ix: "build_index exact_alloc (\<lambda>_. None) demo_canonical = Some (Inr ix)" using demo_canonical_build by blast
  note ref = index_refines[OF exact_alloc.alloc_axioms demo_canonical_ok, of _ _ "\<lambda>_. None" 1, unfolded ix]
  have "rules_of (ca_arena demo_canonical) (ca_records demo_canonical) = [(AllowExact, [1, 97, 1, 98], 1), (BlockSuffix, [1, 97], 0)]"
    by (simp add: demo_canonical_def rules_of_def key_at_def)
  with ref[OF demo_names(1)] ref[OF demo_names(2)] ix show ?thesis
    by (simp add: decide_def allows_def blocking_def hits.simps)
qed

end
