(* ===== verification/Spec2Isabelle.thy ===== *)
theory Spec2Isabelle
  imports Limits Auth_Budget Cache_Contract Flight Refresh Filter_Build
begin

text \<open>
  Verification of PariNS, a caching and filtering DNS server written in Rust. Its sources are
  under \<open>src/src\<close>; file names below are relative to it.

  \<^bold>\<open>The program.\<close> A query arrives at a listener, which charges it to its source
  (\<open>limits.rs\<close>) and decodes and classifies it (\<open>protocol.rs\<close>). The resolver asks the filter
  (\<open>policy\<close>), derives the client subnet to send upstream (\<open>ecs.rs\<close>), looks the question up in the
  cache (\<open>cache.rs\<close>), and otherwise joins or leads one upstream query per question
  (\<open>flight.rs\<close>). An answer is checked, stored for the networks it is for, possibly shared between
  networks (\<open>cache/sharing.rs\<close>), fitted to the client (\<open>ecs.rs\<close>) and encoded (\<open>protocol.rs\<close>). Entries
  that are asked for near their end are refreshed in the background (\<open>resolver/refresh.rs\<close>). The
  console's sign-in has its own attempt budget (\<open>manage/auth_budget.rs\<close>).

  \<^bold>\<open>Conventions.\<close> An \<open>Instant\<close> and a \<open>Duration\<close> are nanoseconds as \<^typ>\<open>nat\<close>; saturating and
  checked arithmetic and casts are written out. A \<open>HashMap\<close> is a finite map, a \<open>Vec\<close> or \<open>VecDeque\<close> a list
  (with its capacity where the code charges for it). A panic, an index out of range and an overflow
  are \<^term>\<open>None\<close>; a \<open>Result\<close> is a sum whose left side is the error. What a mutex protects is one state, and
  an operation under the mutex is one function on it; where threads interleave, their operations
  are the steps of a run. Third-party code is a parameter: a record of operations with a locale of
  the laws the code relies on, and an instance that satisfies them.

  \<^bold>\<open>Theories.\<close>
  \<^item> \<open>Prelude\<close>: Rust's arithmetic, iterator adaptors and vectors, runs of steps.
  \<^item> \<open>Net\<close>: addresses and networks; the interface of \<open>ipnet\<close> (locale \<open>ip_network\<close>) and its instance \<open>cidr\<close>.
  \<^item> \<open>Limits\<close> (\<open>limits.rs\<close>): token buckets and counters per source. Runs of acquisitions and drops in any
    order never panic, keep every limit and the table bound, and let a source through at most its
    burst and rate in any window.
  \<^item> \<open>Auth_Budget\<close> (\<open>manage/auth_budget.rs\<close>): at most five attempts per source and minute, in a bounded table.
  \<^item> \<open>Dns\<close>: messages, records and the interface of the DNS library (locale \<open>dns_library\<close>), with the
    instance \<open>ref_dns\<close>.
  \<^item> \<open>Ecs\<close> (\<open>ecs.rs\<close>): preparing a query, the scope of an answer, finishing a reply, and the text of a
    scope. No more of a client's address than configured is sent, a scope contains the network it was
    asked for, a reply carries nothing of another client, and printed scopes parse back.
  \<^item> \<open>Wire\<close>, \<open>Protocol\<close> (\<open>protocol.rs\<close>): the raw check of EDNS options, classification of requests with
    their error replies, UDP and padded encodings, and keys of equal work.
  \<^item> \<open>Lru\<close>, \<open>Sharing\<close>, \<open>Fingerprint\<close> (\<open>cache/sharing.rs\<close>): the table that learns which answers do not depend on the client, and
    the digest it compares. Sharing needs evidence from enough disjoint networks; one difference ends it.
  \<^item> \<open>Answer\<close>, \<open>Cache\<close> (\<open>cache.rs\<close>, \<open>cache/decision.rs\<close>): what of an answer is stored and for how long, and the sharded cache with
    its partitions, policies, admission, eviction, failures, lookups and invalidation.
    \<open>Cache_Inv\<close> to \<open>Cache_Trace\<close> prove the invariant of a shard and of the whole cache over interleaved runs;
    \<open>Cache_Contract\<close> states what the cache promises.
  \<^item> \<open>Flight\<close> (\<open>flight.rs\<close>): callers with one key share one unfinished work, counted by its holders.
  \<^item> \<open>Refresh\<close> (\<open>resolver/refresh.rs\<close>): budgets of background refreshes and their end on shutdown.
  \<^item> \<open>Filter_Key\<close>, \<open>Filter_Rules\<close>, \<open>Filter_Canon\<close> (\<open>policy/canonical.rs\<close>): encoded names, the memory budget, collecting rules and
    dropping the redundant ones; \<open>decide\<close> is the reference decision and reduction keeps it.
  \<^item> \<open>Filter_Radix\<close>, \<open>Filter_Walk\<close>, \<open>Filter_Build\<close> (\<open>policy/radix.rs\<close>): the flat radix index. A table that represents a set of
    rules decides names as \<open>decide\<close> does; building is a loop over an explicit stack.

  \<^bold>\<open>Bounds and fuel.\<close> Loops of the source that are not structural have fuel, and running out is \<^term>\<open>None\<close> like a
  panic, so that a theorem that a function returns covers its termination. The eviction loop takes
  one round per entry of the partition and one more; shrinking an LRU table one per entry and one
  more; a walk through the index one per byte of the name and one more; building the index two
  rounds per byte of the keys and two more.

  \<^bold>\<open>Not modelled.\<close> Sockets, TLS, HTTP and QUIC, files, SQLite, timers and the task runtime; the
  cryptography and the DNS wire codec of the libraries; the resolver and the recursor, which
  compose the modelled parts by asynchronous calls; JSON reports; and the order in which a
  \<open>HashMap\<close> is iterated, which no theorem depends on. SHA-256 is a parameter and the theorems that compare
  digests are about its input.
\<close>

end
